(* ===== verification/Prelude.thy ===== *)
theory Prelude
  imports Main "HOL-Library.AList" "HOL-Library.Multiset" "HOL-Library.Word"
    "HOL-Library.Char_ord" "HOL-Library.List_Lexorder" "HOL-Library.Product_Lexorder"
begin

text \<open>
  The vocabulary the components share.

  A Go map is an association list with distinct keys (\<open>gomap\<close>): lookup, assignment and
  \<open>delete\<close> are \<open>map_of\<close>, \<open>AList.update\<close> and \<open>AList.delete\<close>.  The order of the list
  is the order in which one \<open>range\<close> loop happens to visit the entries; Go leaves that order
  open, so two lists that are permutations of each other (\<open>same_map\<close>) are the same Go map
  and a component that ranges over a map proves that its result is the same for both.

  Go's \<open>int\<close> is 64 bits wide (\<open>wrap64\<close>); bytes, colours and window sizes are words.
  The file system is a record of contents and permissions with the paths that cannot be read
  or written, so that every I/O error branch of the code is a branch of the model.
\<close>

named_theorems gomap_simps \<open>lookup after assignment and deletion on Go maps\<close>
named_theorems fs_simps \<open>reading the file system after a write\<close>

section \<open>Go maps\<close>

type_synonym byte = "8 word"
type_synonym uint16 = "16 word"
type_synonym ('k, 'v) gomap = "('k \<times> 'v) list"

abbreviation gm_get :: "('k, 'v) gomap \<Rightarrow> 'k \<Rightarrow> 'v option" where
  "gm_get \<equiv> map_of"

abbreviation gm_put :: "'k \<Rightarrow> 'v \<Rightarrow> ('k, 'v) gomap \<Rightarrow> ('k, 'v) gomap" where
  "gm_put \<equiv> AList.update"

abbreviation gm_del :: "'k \<Rightarrow> ('k, 'v) gomap \<Rightarrow> ('k, 'v) gomap" where
  "gm_del \<equiv> AList.delete"

definition gm_wf :: "('k, 'v) gomap \<Rightarrow> bool" where
  "gm_wf m \<longleftrightarrow> distinct (map fst m)"

definition same_map :: "('k, 'v) gomap \<Rightarrow> ('k, 'v) gomap \<Rightarrow> bool" where
  "same_map m m' \<longleftrightarrow> gm_wf m \<and> mset m = mset m'"

lemma gm_get_put [gomap_simps]: "gm_get (gm_put k v m) = (gm_get m)(k \<mapsto> v)"
  by (rule update_conv')

lemma gm_get_del [gomap_simps]: "gm_get (gm_del k m) = (gm_get m)(k := None)"
  by (rule delete_conv')

lemma gm_wf_Nil [simp]: "gm_wf []"
  by (simp add: gm_wf_def)

lemma gm_wf_put [simp]: "gm_wf m \<Longrightarrow> gm_wf (gm_put k v m)"
  by (simp add: gm_wf_def distinct_update)

lemma gm_wf_del [simp]: "gm_wf m \<Longrightarrow> gm_wf (gm_del k m)"
  by (simp add: gm_wf_def distinct_delete)

lemma gm_wf_filter [simp]: "gm_wf m \<Longrightarrow> gm_wf (filter P m)"
  by (simp add: gm_wf_def distinct_map_filter)

lemma gm_get_filter_fst:
  "gm_get (filter (\<lambda>e. P (fst e)) m) k = (if P k then gm_get m k else None)"
  by (induction m) auto

lemma gm_mem_iff: "gm_wf m \<Longrightarrow> (k, v) \<in> set m \<longleftrightarrow> gm_get m k = Some v"
  by (simp add: gm_wf_def)

lemma gm_value_iff: "gm_wf m \<Longrightarrow> v \<in> snd ` set m \<longleftrightarrow> (\<exists>k. gm_get m k = Some v)"
  by (force simp: gm_mem_iff [symmetric])

lemma gm_filter_value:
  "gm_wf m \<Longrightarrow> gm_get (filter (\<lambda>(k, v). P v) m) k =
     (case gm_get m k of None \<Rightarrow> None | Some v \<Rightarrow> if P v then Some v else None)"
proof (induction m)
  case Nil
  then show ?case by simp
next
  case (Cons e m)
  obtain k' v' where e: "e = (k', v')" by (cases e)
  from Cons.prems have wf: "gm_wf m" and fresh: "gm_get m k' = None"
    by (auto simp: gm_wf_def e map_of_eq_None_iff)
  then show ?case
    using Cons.IH fresh by (auto simp: e)
qed

lemma gm_put_new: "k \<notin> fst ` set m \<Longrightarrow> gm_put k v m = m @ [(k, v)]"
  by (induction m) auto

lemma set_gm_put: "set (gm_put k v m) \<subseteq> insert (k, v) (set m)"
  by (induction m) auto

text \<open>A map of records stored under one of their own fields.\<close>

definition gm_keyed :: "('v \<Rightarrow> 'k) \<Rightarrow> ('k, 'v) gomap \<Rightarrow> bool" where
  "gm_keyed f m \<longleftrightarrow> gm_wf m \<and> (\<forall>e \<in> set m. f (snd e) = fst e)"

lemma gm_keyed_Nil [simp]: "gm_keyed f []"
  by (simp add: gm_keyed_def)

lemma gm_keyed_wf: "gm_keyed f m \<Longrightarrow> gm_wf m"
  by (simp add: gm_keyed_def)

lemma gm_keyed_put: "gm_keyed f m \<Longrightarrow> f v = k \<Longrightarrow> gm_keyed f (gm_put k v m)"
  unfolding gm_keyed_def using set_gm_put [of k v m] by fastforce

lemma gm_keyed_del: "gm_keyed f m \<Longrightarrow> gm_keyed f (gm_del k m)"
  unfolding gm_keyed_def using gm_wf_del [of m k] by (auto simp: AList.delete_eq)

lemma gm_keyed_get: "gm_keyed f m \<Longrightarrow> gm_get m k = Some v \<Longrightarrow> f v = k"
  unfolding gm_keyed_def by (drule map_of_SomeD) force

lemma gm_keyed_value: "gm_keyed f m \<Longrightarrow> v \<in> snd ` set m \<longleftrightarrow> gm_get m (f v) = Some v"
  by (metis gm_keyed_def gm_keyed_get gm_value_iff)

lemma gm_keyed_distinct: "gm_keyed f m \<Longrightarrow> distinct (map f (map snd m))"
proof -
  assume k: "gm_keyed f m"
  then have "map f (map snd m) = map fst m" by (simp add: gm_keyed_def)
  then show ?thesis using k by (simp add: gm_keyed_def gm_wf_def del: map_map)
qed

lemma gm_keyed_inj: "gm_keyed f m \<Longrightarrow> inj_on f (set (map snd m))"
  using gm_keyed_distinct [of f m] by (simp add: distinct_map del: map_map)

lemma same_map_refl [simp]: "gm_wf m \<Longrightarrow> same_map m m"
  by (simp add: same_map_def)

lemma same_map_wf: "same_map m m' \<Longrightarrow> gm_wf m'"
  unfolding same_map_def gm_wf_def
  by (metis mset_eq_imp_distinct_iff mset_map)

lemma same_map_set: "same_map m m' \<Longrightarrow> set m = set m'"
  unfolding same_map_def by (metis set_mset_mset)

lemma same_map_get: "same_map m m' \<Longrightarrow> gm_get m = gm_get m'"
  using same_map_set same_map_wf unfolding same_map_def gm_wf_def
  by (metis map_of_inject_set)

lemma map_of_eq_same_map:
  assumes "gm_wf m" "gm_wf m'" "gm_get m = gm_get m'"
  shows "same_map m m'"
proof -
  have "set m = set m'"
    using assms by (metis gm_wf_def map_of_inject_set)
  moreover have "distinct m" "distinct m'"
    using assms by (auto simp: gm_wf_def distinct_map)
  ultimately show ?thesis
    using assms(1) by (simp add: same_map_def set_eq_iff_mset_eq_distinct)
qed

lemma same_map_values: "same_map m m' \<Longrightarrow> mset (map snd m) = mset (map snd m')"
  by (simp add: same_map_def)

section \<open>Integers\<close>

definition wrap64 :: "int \<Rightarrow> int" where
  "wrap64 x = (x + 2 ^ 63) mod 2 ^ 64 - 2 ^ 63"

lemma wrap64_id: "- (2 ^ 63) \<le> x \<Longrightarrow> x < 2 ^ 63 \<Longrightarrow> wrap64 x = x"
  by (simp add: wrap64_def)

lemma wrap64_range: "- (2 ^ 63) \<le> wrap64 x \<and> wrap64 x < 2 ^ 63"
  using pos_mod_bound [of "2 ^ 64" "x + 2 ^ 63"] pos_mod_sign [of "2 ^ 64" "x + 2 ^ 63"]
  by (simp add: wrap64_def)

section \<open>The file system\<close>

record 'c gfile =
  f_data :: 'c
  f_perm :: nat

record 'c fsys =
  fs_files :: "string \<Rightarrow> 'c gfile option"
  fs_unreadable :: "string \<Rightarrow> bool"
  fs_readonly :: "string \<Rightarrow> bool"

datatype 'c read_result = RData 'c | RNotExist | RFail

definition fs_read :: "'c fsys \<Rightarrow> string \<Rightarrow> 'c read_result" where
  "fs_read fs p = (if fs_unreadable fs p then RFail
     else case fs_files fs p of None \<Rightarrow> RNotExist | Some f \<Rightarrow> RData (f_data f))"

text \<open>\<open>os.MkdirAll\<close>: directories carry no data here, so success leaves the state alone.\<close>

definition fs_mkdir :: "'c fsys \<Rightarrow> string \<Rightarrow> bool" where
  "fs_mkdir fs p \<longleftrightarrow> \<not> fs_readonly fs p"

text \<open>\<open>os.WriteFile\<close> keeps the permissions of a file that already exists.\<close>

definition fs_write :: "'c fsys \<Rightarrow> string \<Rightarrow> 'c \<Rightarrow> nat \<Rightarrow> 'c fsys option" where
  "fs_write fs p d perm = (if fs_readonly fs p then None
     else Some (fs\<lparr>fs_files := (fs_files fs)(p \<mapsto>
       \<lparr>f_data = d, f_perm = (case fs_files fs p of None \<Rightarrow> perm | Some f \<Rightarrow> f_perm f)\<rparr>)\<rparr>))"

definition fs_rename :: "'c fsys \<Rightarrow> string \<Rightarrow> string \<Rightarrow> 'c fsys option" where
  "fs_rename fs p q = (if fs_readonly fs q then None
     else case fs_files fs p of None \<Rightarrow> None
     | Some f \<Rightarrow> Some (fs\<lparr>fs_files := (fs_files fs)(p := None, q \<mapsto> f)\<rparr>))"

definition empty_fs :: "'c fsys" where
  "empty_fs = \<lparr>fs_files = (\<lambda>_. None), fs_unreadable = (\<lambda>_. False), fs_readonly = (\<lambda>_. False)\<rparr>"

lemma fs_read_write [fs_simps]:
  "fs_write fs p d perm = Some fs' \<Longrightarrow>
     fs_read fs' q = (if q = p \<and> \<not> fs_unreadable fs p then RData d else fs_read fs q)"
  by (auto simp: fs_write_def fs_read_def split: if_splits)

lemma fs_write_flags [fs_simps]:
  "fs_write fs p d perm = Some fs' \<Longrightarrow>
     fs_unreadable fs' = fs_unreadable fs \<and> fs_readonly fs' = fs_readonly fs"
  by (auto simp: fs_write_def split: if_splits)

section \<open>Lists\<close>

lemma sort_key_eq_mset:
  assumes "mset xs = mset ys" and "inj_on f (set xs)"
  shows "sort_key f xs = sort_key f ys"
proof (rule properties_for_sort_key)
  show "mset (sort_key f ys) = mset xs" using assms(1) by simp
  show "sorted (map f (sort_key f ys))" by simp
  fix x assume x: "x \<in> set (sort_key f ys)"
  have sets: "set xs = set ys" using assms(1) by (metis set_mset_mset)
  have singles: "filter (\<lambda>y. f x = f y) zs = filter (\<lambda>y. y = x) zs" if "set zs = set ys" for zs
    using that x assms(2) sets by (intro filter_cong) (auto dest: inj_onD)
  have rep: "filter (\<lambda>y. y = x) zs = replicate (count (mset zs) x) x" for zs
    by (induction zs) auto
  have "filter (\<lambda>y. f x = f y) (sort_key f ys) = replicate (count (mset ys) x) x"
    using singles [of "sort_key f ys"] rep [of "sort_key f ys"] by simp
  moreover have "filter (\<lambda>y. f x = f y) xs = replicate (count (mset xs) x) x"
    using singles [of xs] rep [of xs] sets by simp
  ultimately show "filter (\<lambda>y. f x = f y) (sort_key f ys) = filter (\<lambda>y. f x = f y) xs"
    using assms(1) by simp
qed

lemma insort_key_map: "(\<And>x. f (g x) = f x) \<Longrightarrow> insort_key f (g x) (map g xs) = map g (insort_key f x xs)"
  by (induction xs) auto

lemma sort_key_map_inv: "(\<And>x. f (g x) = f x) \<Longrightarrow> sort_key f (map g xs) = map g (sort_key f xs)"
  by (induction xs) (simp_all add: insort_key_map)

text \<open>The last \<open>n\<close> elements: what a buffer that drops from the front keeps.\<close>

definition last_n :: "nat \<Rightarrow> 'a list \<Rightarrow> 'a list" where
  "last_n n xs = drop (length xs - n) xs"

lemma last_n_Nil [simp]: "last_n n [] = []"
  by (simp add: last_n_def)

lemma length_last_n [simp]: "length (last_n n xs) = min n (length xs)"
  by (simp add: last_n_def)

lemma last_n_last_n_append: "last_n n (last_n n xs @ ys) = last_n n (xs @ ys)"
  by (cases "length xs \<le> n") (simp_all add: last_n_def add.commute)

section \<open>Atomic steps\<close>

text \<open>A step of a concurrent program goes on, has to wait, or panics.\<close>

datatype 'a outcome = Next 'a | Blocked | Panic

fun bind_outcome :: "'a outcome \<Rightarrow> ('a \<Rightarrow> 'b outcome) \<Rightarrow> 'b outcome" where
  "bind_outcome (Next x) f = f x"
| "bind_outcome Blocked f = Blocked"
| "bind_outcome Panic f = Panic"

lemma bind_outcome_Next [simp]:
  "bind_outcome x f = Next z \<longleftrightarrow> (\<exists>y. x = Next y \<and> f y = Next z)"
  by (cases x) auto

fun steps :: "('a \<Rightarrow> 's \<Rightarrow> 's outcome) \<Rightarrow> 'a list \<Rightarrow> 's \<Rightarrow> 's outcome" where
  "steps f [] s = Next s"
| "steps f (a # as) s = bind_outcome (f a s) (steps f as)"

lemma steps_append: "steps f (as @ bs) s = bind_outcome (steps f as s) (steps f bs)"
proof (induction as arbitrary: s)
  case Nil
  then show ?case by simp
next
  case (Cons a as)
  then show ?case by (cases "f a s") simp_all
qed

lemma steps_invariant:
  assumes "steps f as s = Next s'" "P s"
    and "\<And>a s s'. P s \<Longrightarrow> f a s = Next s' \<Longrightarrow> P s'"
  shows "P s'"
  using assms(1,2)
proof (induction as arbitrary: s)
  case Nil
  then show ?case by simp
next
  case (Cons a as)
  then show ?case using assms(3) by auto
qed

end
