(* ===== verification/GoLib.thy ===== *)
theory GoLib
  imports Prelude
begin

text \<open>
  The parts of Go's standard library that dmux calls, on byte strings (a Go \<open>string\<close> is a
  sequence of bytes, an Isabelle \<open>char\<close> is one byte): \<open>strings\<close> (prefixes, splitting,
  trimming, replacing), \<open>strconv\<close> and the \<open>%d\<close>/\<open>%x\<close> verbs, \<open>unicode/utf8\<close>,
  \<open>path\<close>/\<open>path/filepath\<close> on a slash-separated system, and \<open>net.SplitHostPort\<close>.

  White space is Unicode's: besides the six ASCII bytes, \<open>space_len\<close> recognises the UTF-8
  encodings of the other code points of \<open>unicode.IsSpace\<close>.  The tables behind
  \<open>strings.ToLower\<close> for strings with non-ASCII bytes are the parameter \<open>ulower\<close>; ASCII
  strings take Go's own fast path, which is written out.
\<close>

section \<open>Bytes and characters\<close>

definition byte_of :: "char \<Rightarrow> byte" where
  "byte_of c = of_nat (of_char c)"

definition char_of_byte :: "byte \<Rightarrow> char" where
  "char_of_byte b = char_of (unat b)"

definition bytes_of :: "string \<Rightarrow> byte list" where
  "bytes_of s = map byte_of s"

definition string_of_bytes :: "byte list \<Rightarrow> string" where
  "string_of_bytes bs = map char_of_byte bs"

lemma unat_byte_less [simp]: "unat (b :: byte) < 256"
  using unsigned_less [of b, where ?'a = nat] by simp

lemma unat_byte_of [simp]: "unat (byte_of c) = of_char c"
  by (simp add: byte_of_def unsigned_of_nat take_bit_eq_mod)

lemma char_of_byte_byte_of [simp]: "char_of_byte (byte_of c) = c"
  by (simp add: char_of_byte_def)

lemma byte_of_char_of_byte [simp]: "byte_of (char_of_byte b) = b"
  by (simp add: char_of_byte_def byte_of_def)

lemma string_of_bytes_of [simp]: "string_of_bytes (bytes_of s) = s"
  by (simp add: string_of_bytes_def bytes_of_def comp_def)

lemma bytes_of_string_of [simp]: "bytes_of (string_of_bytes bs) = bs"
  by (simp add: string_of_bytes_def bytes_of_def comp_def)

definition code_of :: "char \<Rightarrow> nat" where
  "code_of c = of_char c"

definition NL :: char where "NL = CHR 0x0A"

definition is_ascii :: "string \<Rightarrow> bool" where
  "is_ascii s \<longleftrightarrow> (\<forall>c \<in> set s. code_of c < 128)"

section \<open>Package strings\<close>

definition has_prefix :: "string \<Rightarrow> string \<Rightarrow> bool" where
  "has_prefix s p \<longleftrightarrow> take (length p) s = p"

definition cut_prefix :: "string \<Rightarrow> string \<Rightarrow> string option" where
  "cut_prefix s p = (if has_prefix s p then Some (drop (length p) s) else None)"

definition trim_prefix :: "string \<Rightarrow> string \<Rightarrow> string" where
  "trim_prefix s p = (if has_prefix s p then drop (length p) s else s)"

lemma has_prefix_iff: "has_prefix s p \<longleftrightarrow> (\<exists>r. s = p @ r)"
  unfolding has_prefix_def by (metis append_eq_conv_conj append_take_drop_id)

lemma cut_prefix_Some_iff [simp]: "cut_prefix s p = Some r \<longleftrightarrow> s = p @ r"
  by (auto simp: cut_prefix_def has_prefix_iff)

lemma cut_prefix_None_iff: "cut_prefix s p = None \<longleftrightarrow> \<not> has_prefix s p"
  by (simp add: cut_prefix_def)

fun contains :: "string \<Rightarrow> string \<Rightarrow> bool" where
  "contains [] sub = (sub = [])"
| "contains (c # cs) sub = (has_prefix (c # cs) sub \<or> contains cs sub)"

definition contains_any :: "string \<Rightarrow> string \<Rightarrow> bool" where
  "contains_any s cs \<longleftrightarrow> (\<exists>c \<in> set s. c \<in> set cs)"

text \<open>\<open>strings.Split\<close> with a one-byte separator.\<close>

fun split_on :: "char \<Rightarrow> string \<Rightarrow> string list" where
  "split_on sep [] = [[]]"
| "split_on sep (c # cs) =
     (if c = sep then [] # split_on sep cs
      else case split_on sep cs of [] \<Rightarrow> [[c]] | w # ws \<Rightarrow> (c # w) # ws)"

lemma split_on_nonempty [simp]: "split_on c s \<noteq> []"
  by (induction s) (auto split: list.splits)

lemma split_on_append: "split_on c (s @ c # r) = split_on c s @ split_on c r"
  by (induction s) (auto split: list.splits)

lemma split_on_none: "c \<notin> set w \<Longrightarrow> split_on c w = [w]"
  by (induction w) auto

fun join_with :: "string \<Rightarrow> string list \<Rightarrow> string" where
  "join_with sep [] = []"
| "join_with sep [x] = x"
| "join_with sep (x # y # xs) = x @ sep @ join_with sep (y # xs)"

text \<open>\<open>strings.ReplaceAll\<close> with a one-byte pattern.\<close>

definition replace_char :: "char \<Rightarrow> string \<Rightarrow> string \<Rightarrow> string" where
  "replace_char old new s = concat (map (\<lambda>c. if c = old then new else [c]) s)"

definition count_char :: "char \<Rightarrow> string \<Rightarrow> nat" where
  "count_char c s = length (filter (\<lambda>x. x = c) s)"

text \<open>\<open>strings.TrimRight(s, "c")\<close> with a one-byte cutset.\<close>

definition trim_right_char :: "char \<Rightarrow> string \<Rightarrow> string" where
  "trim_right_char c s = rev (dropWhile (\<lambda>x. x = c) (rev s))"

text \<open>
  The number of bytes of the white-space code point at the front of a string, 0 if the
  string does not start with one.
\<close>

definition ascii_space :: "nat \<Rightarrow> bool" where
  "ascii_space n \<longleftrightarrow> n = 32 \<or> (9 \<le> n \<and> n \<le> 13)"

fun space_codes :: "nat list \<Rightarrow> nat" where
  "space_codes [] = 0"
| "space_codes (a # as) =
     (if ascii_space a then 1
      else case as of
        [] \<Rightarrow> 0
      | b # bs \<Rightarrow>
         (if a = 0xC2 \<and> (b = 0x85 \<or> b = 0xA0) then 2
          else case bs of
            [] \<Rightarrow> 0
          | c # cs \<Rightarrow>
             (if (a = 0xE1 \<and> b = 0x9A \<and> c = 0x80)
               \<or> (a = 0xE2 \<and> b = 0x80 \<and> (c \<le> 0x8A \<and> 0x80 \<le> c \<or> c = 0xA8 \<or> c = 0xA9 \<or> c = 0xAF))
               \<or> (a = 0xE2 \<and> b = 0x81 \<and> c = 0x9F)
               \<or> (a = 0xE3 \<and> b = 0x80 \<and> c = 0x80)
              then 3 else 0)))"

definition space_len :: "string \<Rightarrow> nat" where
  "space_len s = space_codes (map code_of (take 3 s))"

lemma space_codes_le: "space_codes as \<le> length as"
  by (induction as rule: space_codes.induct) (auto split: list.splits)

lemma space_len_le: "space_len s \<le> length s"
  unfolding space_len_def using space_codes_le [of "map code_of (take 3 s)"] by simp

function trim_left :: "string \<Rightarrow> string" where
  "trim_left s = (if space_len s = 0 then s else trim_left (drop (space_len s) s))"
  by pat_completeness auto
termination
proof (relation "measure length")
  show "(drop (space_len s) s, s) \<in> measure length" if "space_len s \<noteq> 0" for s
    using that space_len_le [of s] by simp
qed simp

declare trim_left.simps [simp del]

definition space_len_end :: "string \<Rightarrow> nat" where
  "space_len_end s =
     (if 1 \<le> length s \<and> space_len (drop (length s - 1) s) = 1 then 1
      else if 2 \<le> length s \<and> space_len (drop (length s - 2) s) = 2 then 2
      else if 3 \<le> length s \<and> space_len (drop (length s - 3) s) = 3 then 3
      else 0)"

function trim_right :: "string \<Rightarrow> string" where
  "trim_right s = (if space_len_end s = 0 then s
     else trim_right (take (length s - space_len_end s) s))"
  by pat_completeness auto
termination
proof (relation "measure length")
  show "(take (length s - space_len_end s) s, s) \<in> measure length" if "space_len_end s \<noteq> 0" for s
    using that by (auto simp: space_len_end_def split: if_splits)
qed simp

declare trim_right.simps [simp del]

definition trim_space :: "string \<Rightarrow> string" where
  "trim_space s = trim_right (trim_left s)"

text \<open>\<open>strings.Fields\<close>: \<open>cur\<close> is the field being read, reversed.\<close>

function fields_from :: "string \<Rightarrow> string \<Rightarrow> string list" where
  "fields_from cur [] = (if cur = [] then [] else [rev cur])"
| "fields_from cur (c # cs) =
     (if space_len (c # cs) = 0 then fields_from (c # cur) cs
      else (if cur = [] then [] else [rev cur]) @ fields_from [] (drop (space_len (c # cs) - 1) cs))"
  by pat_completeness auto
termination by (relation "measure (\<lambda>(cur, s). length s)") auto

definition str_fields :: "string \<Rightarrow> string list" where
  "str_fields s = fields_from [] s"

text \<open>A word no byte of which is white space, nor part of a longer code point.\<close>

definition plain :: "string \<Rightarrow> bool" where
  "plain w \<longleftrightarrow> w \<noteq> [] \<and> list_all (\<lambda>c. code_of c < 128 \<and> \<not> ascii_space (code_of c)) w"

lemma space_len_plain: "code_of c < 128 \<Longrightarrow> \<not> ascii_space (code_of c) \<Longrightarrow> space_len (c # cs) = 0"
  by (simp add: space_len_def split: list.splits)

lemma space_len_blank [simp]: "space_len (CHR '' '' # cs) = 1"
  by (simp add: space_len_def code_of_def ascii_space_def)

lemma fields_word:
  "list_all (\<lambda>c. code_of c < 128 \<and> \<not> ascii_space (code_of c)) w \<Longrightarrow>
   fields_from cur (w @ rest) = fields_from (rev w @ cur) rest"
  by (induction w arbitrary: cur) (simp_all add: space_len_plain)

lemma fields_three:
  assumes "plain a" "plain b" "plain c"
  shows "str_fields (a @ '' '' @ b @ '' '' @ c) = [a, b, c]"
  using assms fields_word [of c "[]" "[]"]
  unfolding plain_def str_fields_def by (simp add: fields_word)

text \<open>\<open>strings.ToLower\<close>.\<close>

definition lower_char :: "char \<Rightarrow> char" where
  "lower_char c = (if 65 \<le> code_of c \<and> code_of c \<le> 90 then char_of (code_of c + 32) else c)"

definition to_lower :: "(string \<Rightarrow> string) \<Rightarrow> string \<Rightarrow> string" where
  "to_lower ulower s = (if is_ascii s then map lower_char s else ulower s)"

section \<open>Numbers and text\<close>

fun digits_of :: "nat \<Rightarrow> string" where
  "digits_of n = (if n < 10 then [char_of (48 + n)]
     else digits_of (n div 10) @ [char_of (48 + n mod 10)])"

declare digits_of.simps [simp del]

definition itoa :: "int \<Rightarrow> string" where
  "itoa n = (if n < 0 then ''-'' @ digits_of (nat (- n)) else digits_of (nat n))"

definition hex_digit :: "nat \<Rightarrow> char" where
  "hex_digit n = (if n < 10 then char_of (48 + n) else char_of (87 + n))"

definition hex_byte :: "byte \<Rightarrow> string" where
  "hex_byte b = [hex_digit (unat b div 16), hex_digit (unat b mod 16)]"

text \<open>\<open>hex.EncodeToString\<close>.\<close>

definition hex_encode :: "byte list \<Rightarrow> string" where
  "hex_encode bs = concat (map hex_byte bs)"

lemma length_hex_encode: "length (hex_encode bs) = 2 * length bs"
  by (induction bs) (auto simp: hex_encode_def hex_byte_def)

lemma hex_digit_eq_iff: "m < 16 \<Longrightarrow> n < 16 \<Longrightarrow> hex_digit m = hex_digit n \<longleftrightarrow> m = n"
  by (auto simp: hex_digit_def char_of_eq_iff take_bit_eq_mod split: if_splits)

lemma hex_byte_inject: "hex_byte a = hex_byte b \<longleftrightarrow> a = b"
proof
  assume eq: "hex_byte a = hex_byte b"
  have "unat a div 16 < 16" "unat b div 16 < 16"
    using unat_byte_less [of a] unat_byte_less [of b] by linarith+
  then have "unat a div 16 = unat b div 16" "unat a mod 16 = unat b mod 16"
    using eq by (auto simp: hex_byte_def hex_digit_eq_iff)
  then have "unat a = unat b" by (metis div_mult_mod_eq)
  then show "a = b" by (rule unsigned_word_eqI)
qed simp

lemma hex_encode_inject: "hex_encode as = hex_encode bs \<longleftrightarrow> as = bs"
proof
  assume "hex_encode as = hex_encode bs"
  then show "as = bs"
  proof (induction as arbitrary: bs)
    case Nil
    then show ?case by (cases bs) (auto simp: hex_encode_def hex_byte_def)
  next
    case (Cons a as)
    then show ?case
      by (cases bs) (auto simp: hex_encode_def hex_byte_def simp flip: hex_byte_inject)
  qed
qed simp

text \<open>
  \<open>string(r)\<close> for a rune: UTF-8, with surrogates and values out of range replaced by
  U+FFFD.
\<close>

definition utf8_encode :: "int \<Rightarrow> byte list" where
  "utf8_encode r0 =
    (let r = (if r0 < 0 \<or> 0x10FFFF < r0 \<or> (0xD800 \<le> r0 \<and> r0 \<le> 0xDFFF) then 0xFFFD else r0) in
     if r \<le> 0x7F then [of_int r]
     else if r \<le> 0x7FF then [of_int (0xC0 + r div 64), of_int (0x80 + r mod 64)]
     else if r \<le> 0xFFFF then
       [of_int (0xE0 + r div 4096), of_int (0x80 + r div 64 mod 64), of_int (0x80 + r mod 64)]
     else [of_int (0xF0 + r div 262144), of_int (0x80 + r div 4096 mod 64),
           of_int (0x80 + r div 64 mod 64), of_int (0x80 + r mod 64)])"

lemma utf8_encode_length: "1 \<le> length (utf8_encode r) \<and> length (utf8_encode r) \<le> 4"
  by (simp add: utf8_encode_def Let_def)

section \<open>Packages path and path/filepath\<close>

definition slash :: char where "slash = CHR ''/''"

text \<open>One element of a path, pushed onto the reversed list of elements kept so far.\<close>

definition clean_elem :: "bool \<Rightarrow> string list \<Rightarrow> string \<Rightarrow> string list" where
  "clean_elem rooted out e =
     (if e = '''' \<or> e = ''.'' then out
      else if e = ''..'' then
        (case out of
           [] \<Rightarrow> if rooted then [] else [''..'']
         | p # ps \<Rightarrow> if p = ''..'' then ''..'' # out else ps)
      else e # out)"

definition path_rooted :: "string \<Rightarrow> bool" where
  "path_rooted p = has_prefix p [slash]"

definition path_elems :: "string \<Rightarrow> string list" where
  "path_elems p = rev (foldl (clean_elem (path_rooted p)) [] (split_on slash p))"

definition path_render :: "bool \<Rightarrow> string list \<Rightarrow> string" where
  "path_render rooted es =
     (if rooted then slash # join_with [slash] es
      else if es = [] then ''.'' else join_with [slash] es)"

definition path_clean :: "string \<Rightarrow> string" where
  "path_clean p = (if p = [] then ''.'' else path_render (path_rooted p) (path_elems p))"

text \<open>The text up to and including the last slash, and the text after it.\<close>

definition dir_part :: "string \<Rightarrow> string" where
  "dir_part p = rev (dropWhile (\<lambda>c. c \<noteq> slash) (rev p))"

definition base_part :: "string \<Rightarrow> string" where
  "base_part p = rev (takeWhile (\<lambda>c. c \<noteq> slash) (rev p))"

definition path_dir :: "string \<Rightarrow> string" where
  "path_dir p = path_clean (dir_part p)"

definition path_base :: "string \<Rightarrow> string" where
  "path_base p =
     (if p = [] then ''.''
      else let b = base_part (trim_right_char slash p) in if b = [] then [slash] else b)"

text \<open>\<open>filepath.Join\<close>: empty elements are dropped, the rest joined and cleaned.\<close>

definition path_join :: "string list \<Rightarrow> string" where
  "path_join es = (case filter (\<lambda>e. e \<noteq> []) es of [] \<Rightarrow> []
     | fs \<Rightarrow> path_clean (join_with [slash] fs))"

lemma path_join_child:
  assumes "dir \<noteq> []" "slash \<notin> set ref" "ref \<notin> {'''', ''.'', ''..''}"
  shows "path_join [dir, ref] = path_render (path_rooted dir) (path_elems dir @ [ref])"
proof -
  have root: "path_rooted (dir @ slash # ref) = path_rooted dir"
    using assms(1) by (cases dir) (simp_all add: path_rooted_def has_prefix_def)
  have "path_elems (dir @ slash # ref) = path_elems dir @ [ref]"
    using assms(2,3) by (simp add: path_elems_def root split_on_append split_on_none clean_elem_def)
  then show ?thesis
    using assms(1,3) by (simp add: path_join_def path_clean_def root)
qed

section \<open>Package net\<close>

datatype addr_error = MissingPort | TooManyColons | MissingBracket | UnexpectedOpen | UnexpectedClose

definition index_of :: "char \<Rightarrow> string \<Rightarrow> nat option" where
  "index_of c s = (let n = length (takeWhile (\<lambda>x. x \<noteq> c) s) in if n < length s then Some n else None)"

definition last_index_of :: "char \<Rightarrow> string \<Rightarrow> nat option" where
  "last_index_of c s = map_option (\<lambda>n. length s - 1 - n) (index_of c (rev s))"

definition split_host_port :: "string \<Rightarrow> addr_error + (string \<times> string)" where
  "split_host_port hp =
    (case last_index_of (CHR '':'') hp of
       None \<Rightarrow> Inl MissingPort
     | Some i \<Rightarrow>
        if has_prefix hp ''['' then
          (case index_of (CHR '']'') hp of
             None \<Rightarrow> Inl MissingBracket
           | Some e \<Rightarrow>
              if e + 1 = length hp then Inl MissingPort
              else if e + 1 = i then
                (if CHR ''['' \<in> set (drop 1 hp) then Inl UnexpectedOpen
                 else if CHR '']'' \<in> set (drop (e + 1) hp) then Inl UnexpectedClose
                 else Inr (take (e - 1) (drop 1 hp), drop (i + 1) hp))
              else if hp ! (e + 1) = CHR '':'' then Inl TooManyColons
              else Inl MissingPort)
        else if CHR '':'' \<in> set (take i hp) then Inl TooManyColons
        else if CHR ''['' \<in> set hp then Inl UnexpectedOpen
        else if CHR '']'' \<in> set hp then Inl UnexpectedClose
        else Inr (take i hp, drop (i + 1) hp))"

section \<open>Package bufio\<close>

text \<open>The lines of a text, as \<open>bufio.ScanLines\<close> cuts them.\<close>

definition strip_cr :: "string \<Rightarrow> string" where
  "strip_cr l = (if l \<noteq> [] \<and> last l = CHR 0x0D then butlast l else l)"

definition scan_lines :: "string \<Rightarrow> string list" where
  "scan_lines s = (let ls = split_on NL s in
     map strip_cr (if last ls = [] then butlast ls else ls))"

definition ends_line :: "string \<Rightarrow> bool" where
  "ends_line s \<longleftrightarrow> s = [] \<or> last s = NL"

lemma scan_lines_append:
  assumes "ends_line s" "NL \<notin> set l" "l \<noteq> []"
  shows "scan_lines (s @ l @ [NL]) = scan_lines s @ [strip_cr l]"
proof (cases "s = []")
  case True
  then show ?thesis
    using assms split_on_append [of NL l "[]"] by (simp add: scan_lines_def split_on_none)
next
  case False
  then obtain s0 where s: "s = s0 @ [NL]"
    using assms(1) by (metis append_butlast_last_id ends_line_def)
  have "split_on NL (s @ l @ [NL]) = split_on NL s0 @ [l] @ [[]]"
    using split_on_append [of NL s0 "l @ [NL]"] split_on_append [of NL l "[]"] assms(2)
    by (simp add: s split_on_none)
  moreover have "split_on NL s = split_on NL s0 @ [[]]"
    using split_on_append [of NL s0 "[]"] by (simp add: s)
  ultimately show ?thesis
    by (simp add: scan_lines_def butlast_append)
qed

end
