(* ===== verification/Config.thy ===== *)
theory Config
  imports GoLib
begin

text \<open>
  Package \<open>internal/config\<close> (\<open>config.go\<close>): the resolved configuration, its overlay from
  \<open>config.json\<close>, validation, the prefix-key parser and the bootstrap of the server keypair.

  The environment (\<open>os.UserConfigDir\<close>, \<open>os.TempDir\<close>), the decoding of the JSON text into
  the optional fields of \<open>fileConfig\<close> and \<open>time.ParseDuration\<close> are the fields of
  \<open>config_env\<close>; the SSH key library (\<open>x/crypto/ssh\<close>) is the record \<open>key_lib\<close>.  Times are
  nanoseconds.
\<close>

section \<open>Configuration\<close>

datatype ResizePolicy = SmallestWins | Driver

record Config =
  ListenAddr :: string
  DataDir :: string
  HostKeyPath :: string
  PrefixKey :: string
  ScrollbackLines :: int
  CfgResizePolicy :: ResizePolicy
  DialTimeout :: int

record fileConfig =
  fc_ListenAddr :: "string option"
  fc_DataDir :: "string option"
  fc_HostKeyPath :: "string option"
  fc_PrefixKey :: "string option"
  fc_ScrollbackLines :: "int option"
  fc_ResizePolicy :: "string option"
  fc_DialTimeout :: "string option"

datatype config_error =
    ReadConfig | ParseConfig | UnknownPolicy string | BadDuration
  | InvalidListen string addr_error | BadScrollback int | BadTimeout int
  | UnsupportedPrefix string

record config_env =
  UserConfigDir :: "string option"
  TempDir :: string
  Unmarshal :: "string \<Rightarrow> fileConfig option"
  ParseDuration :: "string \<Rightarrow> int option"
  Ulower :: "string \<Rightarrow> string"

definition second :: int where "second = 1000000000"

definition defaultKeyName :: string where "defaultKeyName = ''id_dmux''"

definition configFileName :: string where "configFileName = ''config.json''"

definition defaultDataDir :: "config_env \<Rightarrow> string" where
  "defaultDataDir env = (case UserConfigDir env of
     Some base \<Rightarrow> path_join [base, ''dmux'']
   | None \<Rightarrow> path_join [TempDir env, ''dmux''])"

definition Default :: "config_env \<Rightarrow> Config" where
  "Default env = (let dataDir = defaultDataDir env in
     \<lparr>ListenAddr = '':2222'',
      DataDir = dataDir,
      HostKeyPath = path_join [dataDir, defaultKeyName],
      PrefixKey = ''Ctrl-D'',
      ScrollbackLines = 10000,
      CfgResizePolicy = SmallestWins,
      DialTimeout = 10 * second\<rparr>)"

definition normalizeListen :: "string \<Rightarrow> string" where
  "normalizeListen addr = (if has_prefix addr '':'' then ''0.0.0.0'' @ addr else addr)"

definition validate :: "Config \<Rightarrow> config_error option" where
  "validate c =
     (case split_host_port (normalizeListen (ListenAddr c)) of
        Inl e \<Rightarrow> Some (InvalidListen (ListenAddr c) e)
      | Inr _ \<Rightarrow>
          if ScrollbackLines c \<le> 0 then Some (BadScrollback (ScrollbackLines c))
          else if DialTimeout c \<le> 0 then Some (BadTimeout (DialTimeout c))
          else None)"

definition parseResizePolicy :: "(string \<Rightarrow> string) \<Rightarrow> string \<Rightarrow> config_error + ResizePolicy" where
  "parseResizePolicy ulower s =
     (let t = to_lower ulower (trim_space s) in
      if t \<in> {'''', ''smallest'', ''smallest-wins'', ''smallestwins''} then Inr SmallestWins
      else if t = ''driver'' then Inr Driver
      else Inl (UnknownPolicy s))"

definition or_else :: "'a \<Rightarrow> 'a option \<Rightarrow> 'a" where
  "or_else d opt = (case opt of None \<Rightarrow> d | Some x \<Rightarrow> x)"

text \<open>The fields \<open>config.json\<close> sets, laid over \<open>c\<close>.\<close>

definition overlay_file :: "config_env \<Rightarrow> Config \<Rightarrow> fileConfig \<Rightarrow> config_error + Config" where
  "overlay_file env c fc =
    (let c1 = c\<lparr>ListenAddr := or_else (ListenAddr c) (fc_ListenAddr fc),
                DataDir := or_else (DataDir c) (fc_DataDir fc),
                HostKeyPath := or_else (HostKeyPath c) (fc_HostKeyPath fc),
                PrefixKey := or_else (PrefixKey c) (fc_PrefixKey fc),
                ScrollbackLines := or_else (ScrollbackLines c) (fc_ScrollbackLines fc)\<rparr> in
     case (case fc_ResizePolicy fc of None \<Rightarrow> Inr (CfgResizePolicy c1)
           | Some s \<Rightarrow> parseResizePolicy (Ulower env) s) of
       Inl e \<Rightarrow> Inl e
     | Inr p \<Rightarrow>
        (case fc_DialTimeout fc of
           None \<Rightarrow> Inr (c1\<lparr>CfgResizePolicy := p\<rparr>)
         | Some s \<Rightarrow>
            (case ParseDuration env s of
               None \<Rightarrow> Inl BadDuration
             | Some d \<Rightarrow> Inr (c1\<lparr>CfgResizePolicy := p, DialTimeout := d\<rparr>))))"

definition Load :: "config_env \<Rightarrow> string fsys \<Rightarrow> string \<Rightarrow> config_error + Config" where
  "Load env fs dataDir =
    (let c = (Default env)\<lparr>DataDir := dataDir\<rparr>;
         finish = (\<lambda>hostKeyWasDefault c.
           let c' = (if hostKeyWasDefault
                     then c\<lparr>HostKeyPath := path_join [DataDir c, defaultKeyName]\<rparr> else c)
           in case validate c' of Some e \<Rightarrow> Inl e | None \<Rightarrow> Inr c')
     in case fs_read fs (path_join [dataDir, configFileName]) of
          RNotExist \<Rightarrow> finish True c
        | RFail \<Rightarrow> Inl ReadConfig
        | RData raw \<Rightarrow>
           (case Unmarshal env raw of
              None \<Rightarrow> Inl ParseConfig
            | Some fc \<Rightarrow>
               (case overlay_file env c fc of
                  Inl e \<Rightarrow> Inl e
                | Inr c' \<Rightarrow> finish (fc_HostKeyPath fc = None) c')))"

section \<open>The prefix key\<close>

definition prefix_norm :: "(string \<Rightarrow> string) \<Rightarrow> string \<Rightarrow> string" where
  "prefix_norm ulower s =
     replace_char (CHR ''+'') ''-'' (replace_char (CHR ''_'') ''-'' (to_lower ulower (trim_space s)))"

text \<open>The loop over the three spellings of a control key: the first that yields a letter.\<close>

fun ctrl_letter :: "string list \<Rightarrow> string \<Rightarrow> byte option" where
  "ctrl_letter [] norm = None"
| "ctrl_letter (pfx # pfxs) norm =
     (case cut_prefix norm pfx of
        Some [ch] \<Rightarrow>
          (if 97 \<le> code_of ch \<and> code_of ch \<le> 122
           then Some (byte_of ch - byte_of (CHR ''a'') + 1)
           else ctrl_letter pfxs norm)
      | _ \<Rightarrow> ctrl_letter pfxs norm)"

definition ParsePrefix :: "(string \<Rightarrow> string) \<Rightarrow> string \<Rightarrow> config_error + byte" where
  "ParsePrefix ulower s =
     (let norm = prefix_norm ulower s in
      if norm \<in> {''ctrl-space'', ''c-space'', ''^space'', ''ctrl-@'', ''c-@''} then Inr 0
      else case ctrl_letter [''ctrl-'', ''c-'', ''^''] norm of
             Some b \<Rightarrow> Inr b
           | None \<Rightarrow> Inl (UnsupportedPrefix s))"

section \<open>The server keypair\<close>

record ('priv, 'pub, 'signer) key_lib =
  ParsePrivateKey :: "string \<Rightarrow> 'signer option"
  GenerateKey :: "('pub \<times> 'priv) option"
  MarshalPrivateKey :: "'priv \<Rightarrow> string option"
  MarshalAuthorizedKey :: "'pub \<Rightarrow> string option"
  NewSigner :: "'priv \<Rightarrow> 'signer option"

datatype key_error =
    ParseHostKey | ReadHostKey | MkdirDataDir | GenerateHostKey | MarshalHostKey
  | WriteHostKey | DerivePublic | WritePublic | BuildSigner

definition EnsureHostKey ::
  "('priv, 'pub, 'signer) key_lib \<Rightarrow> string fsys \<Rightarrow> Config \<Rightarrow> (key_error + 'signer) \<times> string fsys" where
  "EnsureHostKey lib fs c =
    (case fs_read fs (HostKeyPath c) of
       RData raw \<Rightarrow>
         (case ParsePrivateKey lib raw of None \<Rightarrow> (Inl ParseHostKey, fs) | Some s \<Rightarrow> (Inr s, fs))
     | RFail \<Rightarrow> (Inl ReadHostKey, fs)
     | RNotExist \<Rightarrow>
        if \<not> fs_mkdir fs (path_dir (HostKeyPath c)) then (Inl MkdirDataDir, fs)
        else case GenerateKey lib of None \<Rightarrow> (Inl GenerateHostKey, fs)
        | Some (pub, priv) \<Rightarrow>
        (case MarshalPrivateKey lib priv of None \<Rightarrow> (Inl MarshalHostKey, fs)
        | Some pem \<Rightarrow>
        (case fs_write fs (HostKeyPath c) pem 384 of None \<Rightarrow> (Inl WriteHostKey, fs)
        | Some fs1 \<Rightarrow>
        (case MarshalAuthorizedKey lib pub of None \<Rightarrow> (Inl DerivePublic, fs1)
        | Some pubtxt \<Rightarrow>
        (case fs_write fs1 (HostKeyPath c @ ''.pub'') pubtxt 420 of None \<Rightarrow> (Inl WritePublic, fs1)
        | Some fs2 \<Rightarrow>
        (case NewSigner lib priv of None \<Rightarrow> (Inl BuildSigner, fs2)
        | Some s \<Rightarrow> (Inr s, fs2)))))))"

section \<open>Lemmas\<close>

lemma Load_validates: "Load env fs dataDir = Inr c \<Longrightarrow> validate c = None"
  by (auto simp: Load_def Let_def split: read_result.splits option.splits sum.splits if_splits)

lemma validate_None_iff:
  "validate c = None \<longleftrightarrow> (\<exists>hp. split_host_port (normalizeListen (ListenAddr c)) = Inr hp) \<and>
     0 < ScrollbackLines c \<and> 0 < DialTimeout c"
  by (auto simp: validate_def split: sum.splits if_splits)

lemma Load_anchors_key:
  "Load env fs dataDir = Inr c \<Longrightarrow>
   (\<And>raw fc. fs_read fs (path_join [dataDir, configFileName]) = RData raw \<Longrightarrow>
      Unmarshal env raw = Some fc \<Longrightarrow> fc_HostKeyPath fc = None) \<Longrightarrow>
   HostKeyPath c = path_join [DataDir c, defaultKeyName]"
  by (auto simp: Load_def Let_def split: read_result.splits option.splits sum.splits if_splits)

lemma Default_listen: "split_host_port (normalizeListen (ListenAddr (Default env))) = Inr (''0.0.0.0'', ''2222'')"
  by (simp add: Default_def Let_def normalizeListen_def has_prefix_def split_host_port_def
      last_index_of_def index_of_def)

lemma byte_sub_letter:
  assumes "97 \<le> code_of ch" "code_of ch \<le> 122"
  shows "byte_of ch - byte_of (CHR ''a'') + 1 = of_nat (code_of ch - 96)"
proof -
  obtain k where k: "code_of ch = 97 + k" "k \<le> 25"
    using assms le_Suc_ex by fastforce
  then have "byte_of ch = of_nat (97 + k)"
    unfolding byte_of_def code_of_def by simp
  then show ?thesis
    using k by (simp add: byte_of_def)
qed

lemma ctrl_letter_step:
  "ctrl_letter (pfx # pfxs) norm = Some b \<Longrightarrow>
     (\<exists>ch. norm = pfx @ [ch] \<and> 97 \<le> code_of ch \<and> code_of ch \<le> 122 \<and> b = of_nat (code_of ch - 96))
     \<or> ctrl_letter pfxs norm = Some b"
  by (auto simp: byte_sub_letter split: option.splits list.splits if_splits)

lemma ctrl_letter_Some:
  "ctrl_letter pfxs norm = Some b \<Longrightarrow>
     \<exists>pfx \<in> set pfxs. \<exists>n. 1 \<le> n \<and> n \<le> 26 \<and> norm = pfx @ [char_of (96 + n)] \<and> b = of_nat n"
proof (induction pfxs)
  case Nil
  then show ?case by simp
next
  case (Cons pfx pfxs)
  from ctrl_letter_step [OF Cons.prems] show ?case
  proof (elim disjE exE conjE)
    fix ch
    assume ch: "norm = pfx @ [ch]" "97 \<le> code_of ch" "code_of ch \<le> 122"
      and b: "b = of_nat (code_of ch - 96)"
    have "ch = char_of (96 + (code_of ch - 96))"
      using ch by (simp add: code_of_def)
    then show ?case
      using ch b by (intro bexI [of _ pfx] exI [of _ "code_of ch - 96"]) auto
  next
    assume "ctrl_letter pfxs norm = Some b"
    then show ?case using Cons.IH by auto
  qed
qed

lemma ctrl_letter_append:
  assumes "1 \<le> n" "n \<le> 26" "pfx \<in> {''ctrl-'', ''c-'', ''^''}"
  shows "ctrl_letter [''ctrl-'', ''c-'', ''^''] (pfx @ [char_of (96 + n)]) = Some (of_nat n)"
proof -
  have code: "code_of (char_of (96 + n)) = 96 + n"
    using assms by (simp add: code_of_def)
  show ?thesis
    using assms code by (auto simp: cut_prefix_def has_prefix_def byte_sub_letter)
qed

lemma ParsePrefix_other:
  "prefix_norm u s \<notin> {''ctrl-space'', ''c-space'', ''^space'', ''ctrl-@'', ''c-@''} \<Longrightarrow>
   ParsePrefix u s =
     (case ctrl_letter [''ctrl-'', ''c-'', ''^''] (prefix_norm u s) of
        Some b \<Rightarrow> Inr b | None \<Rightarrow> Inl (UnsupportedPrefix s))"
  unfolding ParsePrefix_def Let_def by (simp only: if_False)

lemma trim_left_id: "space_len s = 0 \<Longrightarrow> trim_left s = s"
  by (simp add: trim_left.simps)

lemma trim_right_id: "space_len_end s = 0 \<Longrightarrow> trim_right s = s"
  by (simp add: trim_right.simps)

text \<open>Without a \<open>config.json\<close> the result is \<open>Default()\<close> moved to the given data directory.\<close>

lemma Load_missing:
  assumes "fs_read fs (path_join [dataDir, configFileName]) = RNotExist"
  shows "Load env fs dataDir =
    Inr ((Default env)\<lparr>DataDir := dataDir, HostKeyPath := path_join [dataDir, defaultKeyName]\<rparr>)"
  using assms Default_listen
  by (simp add: Load_def Let_def validate_def Default_def second_def)

text \<open>An environment for examples: no file decodes, and no duration parses.\<close>

definition demo_env :: config_env where
  "demo_env = \<lparr>UserConfigDir = Some ''/home'', TempDir = ''/tmp'', Unmarshal = (\<lambda>_. None),
     ParseDuration = (\<lambda>_. None), Ulower = (\<lambda>s. s)\<rparr>"

section \<open>Properties\<close>

text \<open>C35: a configuration that \<open>Load\<close> returns satisfies the bounds of \<open>validate\<close>: the listen
  address splits into host and port, the scrollback bound and the dial timeout are positive.
  When \<open>config.json\<close> names no \<open>host_key_path\<close>, the key path lies in the resolved data
  directory.\<close>

theorem Load_ok:
  assumes "Load env fs dataDir = Inr c"
  shows "(\<exists>host port. split_host_port (normalizeListen (ListenAddr c)) = Inr (host, port)) \<and>
    0 < ScrollbackLines c \<and> 0 < DialTimeout c \<and>
    ((\<forall>raw fc. fs_read fs (path_join [dataDir, configFileName]) = RData raw \<longrightarrow>
        Unmarshal env raw = Some fc \<longrightarrow> fc_HostKeyPath fc = None) \<longrightarrow>
     HostKeyPath c = path_join [DataDir c, defaultKeyName])"
  using Load_validates [OF assms] Load_anchors_key [OF assms]
  by (auto simp: validate_None_iff)

theorem Load_ok_witness:
  "\<exists>c. Load demo_env empty_fs ''/d'' = Inr c \<and> 0 < ScrollbackLines c \<and>
     HostKeyPath c = path_join [DataDir c, defaultKeyName]"
proof -
  have none: "fs_read empty_fs f = RNotExist" for f :: string
    by (simp add: fs_read_def empty_fs_def)
  obtain c where load: "Load demo_env empty_fs ''/d'' = Inr c"
    using Load_missing [OF none, where dataDir = "''/d''" and env = demo_env] by blast
  then show ?thesis using Load_ok [OF load] load by (simp add: none)
qed

text \<open>The prefix keys \<open>ParsePrefix\<close> accepts, after trimming, lower-casing and reading \<open>_\<close> and \<open>+\<close>
  as \<open>-\<close>: five spellings of Ctrl-Space, which is byte 0, and a control letter in one of three
  spellings, which is its position in the alphabet; everything else is an error.\<close>

theorem ParsePrefix_iff:
  "ParsePrefix u s = Inr b \<longleftrightarrow>
     (b = 0 \<and> prefix_norm u s \<in> {''ctrl-space'', ''c-space'', ''^space'', ''ctrl-@'', ''c-@''}) \<or>
     (\<exists>pfx \<in> {''ctrl-'', ''c-'', ''^''}. \<exists>n. 1 \<le> n \<and> n \<le> 26 \<and>
        prefix_norm u s = pfx @ [char_of (96 + n)] \<and> b = of_nat n)"
  (is "?L \<longleftrightarrow> ?Z \<or> ?C")
proof
  assume ?L
  then have "?Z \<or> ctrl_letter [''ctrl-'', ''c-'', ''^''] (prefix_norm u s) = Some b"
    by (auto simp: ParsePrefix_def Let_def simp del: ctrl_letter.simps split: if_splits option.splits)
  then show "?Z \<or> ?C"
    using ctrl_letter_Some [of "[''ctrl-'', ''c-'', ''^'']" "prefix_norm u s" b] by auto
next
  have code: "code_of (char_of (96 + n)) = 96 + n" if "n \<le> 26" for n :: nat
    using that by (simp add: code_of_def)
  assume "?Z \<or> ?C"
  then show ?L
  proof
    assume ?Z
    then show ?L by (auto simp: ParsePrefix_def)
  next
    assume ?C
    then obtain pfx n where n: "1 \<le> n" "n \<le> 26" "pfx \<in> {''ctrl-'', ''c-'', ''^''}"
      and norm: "prefix_norm u s = pfx @ [char_of (96 + n)]" and b: "b = of_nat n" by blast
    have "char_of (96 + n) \<noteq> (CHR ''@'')"
    proof
      assume "char_of (96 + n) = (CHR ''@'')"
      then have "code_of (char_of (96 + n)) = 64" by (simp add: code_of_def)
      then show False using code [OF n(2)] by simp
    qed
    then have other: "prefix_norm u s \<notin> {''ctrl-space'', ''c-space'', ''^space'', ''ctrl-@'', ''c-@''}"
      using n(3) norm by auto
    then show ?L
      by (simp only: ParsePrefix_other [OF other] norm b ctrl_letter_append [OF n] option.case)
  qed
qed

text \<open>The server keypair is generated once.  After a successful call, the next one returns the
  same signer and writes nothing; a private key it had to create is readable by its owner
  only.\<close>

theorem EnsureHostKey_reuses:
  assumes run: "EnsureHostKey lib fs c = (Inr s, fs1)"
    and pem: "\<And>priv blob. MarshalPrivateKey lib priv = Some blob \<Longrightarrow>
                ParsePrivateKey lib blob = NewSigner lib priv"
  shows "EnsureHostKey lib fs1 c = (Inr s, fs1) \<and>
    (fs_read fs (HostKeyPath c) = RNotExist \<longrightarrow>
       (\<exists>f. fs_files fs1 (HostKeyPath c) = Some f \<and> f_perm f = 384))"
proof (cases "fs_read fs (HostKeyPath c)")
  case (RData raw)
  then show ?thesis
    using run by (auto simp: EnsureHostKey_def split: option.splits)
next
  case RFail
  then show ?thesis using run by (simp add: EnsureHostKey_def)
next
  case RNotExist
  then obtain pub priv blob fs' pubtxt
    where gen: "MarshalPrivateKey lib priv = Some blob"
      and w1: "fs_write fs (HostKeyPath c) blob 384 = Some fs'"
      and w2: "fs_write fs' (HostKeyPath c @ ''.pub'') pubtxt 420 = Some fs1"
      and sig: "NewSigner lib priv = Some s"
    using run unfolding EnsureHostKey_def
    by (auto split: option.splits prod.splits if_splits)
  have none: "fs_files fs (HostKeyPath c) = None" and ok: "\<not> fs_unreadable fs (HostKeyPath c)"
    using RNotExist by (auto simp: fs_read_def split: option.splits if_splits)
  have "fs_read fs1 (HostKeyPath c) = RData blob"
    using fs_read_write [OF w1] fs_read_write [OF w2] ok by simp
  moreover have "fs_files fs1 (HostKeyPath c) = Some \<lparr>f_data = blob, f_perm = 384\<rparr>"
    using w1 w2 none by (auto simp: fs_write_def split: if_splits)
  ultimately show ?thesis
    using pem [OF gen] sig by (simp add: EnsureHostKey_def)
qed

text \<open>A key library whose private keys are their own encodings.\<close>

definition demo_lib :: "(string, string, string) key_lib" where
  "demo_lib = \<lparr>ParsePrivateKey = Some, GenerateKey = Some (''pub'', ''priv''), MarshalPrivateKey = Some,
     MarshalAuthorizedKey = Some, NewSigner = Some\<rparr>"

theorem EnsureHostKey_reuses_witness:
  "\<exists>fs1 f. EnsureHostKey demo_lib empty_fs ((Default demo_env)\<lparr>HostKeyPath := ''/d/k''\<rparr>) = (Inr ''priv'', fs1) \<and>
     fs_files fs1 ''/d/k'' = Some f \<and> f_perm f = 384"
proof -
  let ?c = "(Default demo_env)\<lparr>HostKeyPath := ''/d/k''\<rparr>"
  have none: "fs_read empty_fs f = RNotExist" for f :: string
    by (simp add: fs_read_def empty_fs_def)
  obtain fs1 where run: "EnsureHostKey demo_lib empty_fs ?c = (Inr ''priv'', fs1)"
    unfolding EnsureHostKey_def none read_result.case
    by (simp add: demo_lib_def fs_mkdir_def fs_write_def empty_fs_def)
  have pem: "MarshalPrivateKey demo_lib priv = Some blob \<Longrightarrow> ParsePrivateKey demo_lib blob = NewSigner demo_lib priv"
    for priv blob by (simp add: demo_lib_def)
  from EnsureHostKey_reuses [OF run pem] none run show ?thesis by auto
qed

end
