(* ===== verification/Hash.thy ===== *)
theory Hash
  imports GoLib
begin

text \<open>
  The three digests dmux takes from Go's standard library, over bytes and machine words:
  SHA-256 (\<open>crypto/sha256\<close>, behind \<open>registry.DeriveHostID\<close>), the 32-bit FNV-1a hash
  (\<open>hash/fnv\<close>, behind \<open>tui.autoHostColor\<close>) and standard base64 (\<open>encoding/base64\<close>, the
  form in which a host key is pinned).  What the components need of them is proved here: a
  SHA-256 digest has 32 bytes, and base64 is injective and free of white space.
\<close>

unbundle bit_operations_syntax

section \<open>SHA-256\<close>

type_synonym w32 = "32 word"

text \<open>
  The constants of the algorithm are the first 32 bits of the fractional parts of the cube
  roots of the first 64 primes and of the square roots of the first 8; \<open>int_root\<close> finds the
  integer root bit by bit.
\<close>

fun int_root :: "nat \<Rightarrow> nat \<Rightarrow> int \<Rightarrow> int \<Rightarrow> int" where
  "int_root k 0 n r = r"
| "int_root k (Suc i) n r = int_root k i n (if (r + 2 ^ i) ^ k \<le> n then r + 2 ^ i else r)"

definition small_primes :: "int list" where
  "small_primes = filter (\<lambda>n. list_all (\<lambda>d. n mod d \<noteq> 0) [2 .. n - 1]) [2 .. 311]"

definition root_bits :: "nat \<Rightarrow> int \<Rightarrow> w32" where
  "root_bits k p = of_int (int_root k 36 (p * 2 ^ (32 * k)) 0)"

definition sha_K :: "w32 list" where
  "sha_K = map (root_bits 3) small_primes"

definition sha_H0 :: "w32 list" where
  "sha_H0 = map (root_bits 2) [2, 3, 5, 7, 11, 13, 17, 19]"

definition rotr :: "nat \<Rightarrow> w32 \<Rightarrow> w32" where
  "rotr n x = drop_bit n x OR push_bit (32 - n) x"

definition be32 :: "byte list \<Rightarrow> w32" where
  "be32 bs = foldl (\<lambda>acc b. push_bit 8 acc OR ucast b) 0 bs"

definition bytes32 :: "w32 \<Rightarrow> byte list" where
  "bytes32 w = [ucast (drop_bit 24 w), ucast (drop_bit 16 w), ucast (drop_bit 8 w), ucast w]"

fun chunks :: "nat \<Rightarrow> nat \<Rightarrow> 'a list \<Rightarrow> 'a list list" where
  "chunks 0 n xs = []"
| "chunks (Suc k) n xs = take n xs # chunks k n (drop n xs)"

text \<open>One message-schedule word from the sixteen before it (newest first).\<close>

definition sha_next :: "w32 list \<Rightarrow> w32" where
  "sha_next ws =
     (let s0 = (let x = ws ! 14 in rotr 7 x XOR rotr 18 x XOR drop_bit 3 x);
          s1 = (let x = ws ! 1 in rotr 17 x XOR rotr 19 x XOR drop_bit 10 x)
      in ws ! 15 + s0 + ws ! 6 + s1)"

fun sha_extend :: "nat \<Rightarrow> w32 list \<Rightarrow> w32 list" where
  "sha_extend 0 ws = ws"
| "sha_extend (Suc n) ws = sha_extend n (sha_next ws # ws)"

definition sha_round :: "w32 list \<Rightarrow> w32 \<times> w32 \<Rightarrow> w32 list" where
  "sha_round st kw =
     (case st of
        [a, b, c, d, e, f, g, h] \<Rightarrow>
          (let s1 = rotr 6 e XOR rotr 11 e XOR rotr 25 e;
               ch = (e AND f) XOR (NOT e AND g);
               t1 = h + s1 + ch + fst kw + snd kw;
               s0 = rotr 2 a XOR rotr 13 a XOR rotr 22 a;
               mj = (a AND b) XOR (a AND c) XOR (b AND c)
           in [t1 + (s0 + mj), a, b, c, d + t1, e, f, g])
      | _ \<Rightarrow> st)"

definition sha_block :: "w32 list \<Rightarrow> byte list \<Rightarrow> w32 list" where
  "sha_block st blk =
     (let ws = rev (sha_extend 48 (rev (map be32 (chunks 16 4 blk))))
      in map2 (+) st (foldl sha_round st (zip sha_K ws)))"

definition be64 :: "nat \<Rightarrow> byte list" where
  "be64 n = map (\<lambda>i. of_nat (n div 256 ^ i)) [7, 6, 5, 4, 3, 2, 1, 0]"

definition sha_pad :: "byte list \<Rightarrow> byte list" where
  "sha_pad m = (let l = length m in
     m @ [0x80] @ replicate ((119 - l mod 64) mod 64) 0 @ be64 (8 * l))"

definition sha256 :: "byte list \<Rightarrow> byte list" where
  "sha256 m = (let p = sha_pad m in
     concat (map bytes32 (foldl sha_block sha_H0 (chunks (length p div 64) 64 p))))"

lemma length_sha_round: "length (sha_round st kw) = length st"
  by (auto simp: sha_round_def Let_def split: list.splits)

lemma length_sha_rounds: "length (foldl sha_round st kws) = length st"
  by (induction kws arbitrary: st) (auto simp: length_sha_round)

lemma length_sha_block: "length (sha_block st blk) = length st"
  by (simp add: sha_block_def Let_def length_sha_rounds)

lemma length_sha_blocks: "length (foldl sha_block st blks) = length st"
  by (induction blks arbitrary: st) (auto simp: length_sha_block)

lemma length_concat_bytes32: "length (concat (map bytes32 ws)) = 4 * length ws"
  by (induction ws) (auto simp: bytes32_def)

lemma length_sha256 [simp]: "length (sha256 m) = 32"
  by (simp add: sha256_def Let_def length_concat_bytes32 length_sha_blocks sha_H0_def)

section \<open>FNV-1a\<close>

definition fnv32a :: "byte list \<Rightarrow> w32" where
  "fnv32a bs = foldl (\<lambda>h b. (h XOR ucast b) * 16777619) 2166136261 bs"

section \<open>Base64\<close>

definition b64_alphabet :: string where
  "b64_alphabet = ''ABCDEFGHIJKLMNOPQRSTUVWXYZabcdefghijklmnopqrstuvwxyz0123456789+/''"

definition b64_char :: "nat \<Rightarrow> char" where
  "b64_char n = b64_alphabet ! (n mod 64)"

fun b64_nats :: "nat list \<Rightarrow> string" where
  "b64_nats [] = []"
| "b64_nats [a] = [b64_char (a div 4), b64_char (a mod 4 * 16), CHR ''='', CHR ''='']"
| "b64_nats [a, b] =
     [b64_char (a div 4), b64_char (a mod 4 * 16 + b div 16), b64_char (b mod 16 * 4), CHR ''='']"
| "b64_nats (a # b # c # r) =
     [b64_char (a div 4), b64_char (a mod 4 * 16 + b div 16),
      b64_char (b mod 16 * 4 + c div 64), b64_char (c mod 64)] @ b64_nats r"

definition b64_encode :: "byte list \<Rightarrow> string" where
  "b64_encode bs = b64_nats (map unat bs)"

lemma b64_alphabet_props: "distinct b64_alphabet" "length b64_alphabet = 64"
    "CHR ''='' \<notin> set b64_alphabet"
  unfolding b64_alphabet_def by simp_all

lemma b64_char_eq_iff [simp]: "b64_char m = b64_char n \<longleftrightarrow> m mod 64 = n mod 64"
  using b64_alphabet_props by (simp add: b64_char_def nth_eq_iff_index_eq)

lemma b64_char_in: "b64_char n \<in> set b64_alphabet"
  using b64_alphabet_props by (simp add: b64_char_def)

lemma b64_char_not_pad [simp]: "b64_char n \<noteq> CHR ''=''" "CHR ''='' \<noteq> b64_char n"
  using b64_char_in [of n] b64_alphabet_props(3) by metis+

lemma base_split:
  fixes x y k :: nat
  assumes "x * k + y = x' * k + y'" "y < k" "y' < k"
  shows "x = x'" "y = y'"
proof -
  have "(x * k + y) div k = x" "(x' * k + y') div k = x'" using assms(2,3) by auto
  then show "x = x'" using assms(1) by simp
  then show "y = y'" using assms(1) by simp
qed

lemma b64_group:
  fixes a b c a' b' c' :: nat
  assumes "a < 256" "b < 256" "c < 256" "a' < 256" "b' < 256" "c' < 256"
    and "a div 4 mod 64 = a' div 4 mod 64"
    and "(a mod 4 * 16 + b div 16) mod 64 = (a' mod 4 * 16 + b' div 16) mod 64"
    and "(b mod 16 * 4 + c div 64) mod 64 = (b' mod 16 * 4 + c' div 64) mod 64"
    and "c mod 64 mod 64 = c' mod 64 mod 64"
  shows "a = a' \<and> b = b' \<and> c = c'"
proof -
  have a4: "a div 4 = a' div 4" using assms(1,4,7) by simp
  have "a mod 4 * 16 + b div 16 < 64" "a' mod 4 * 16 + b' div 16 < 64"
    using assms(2,5) by linarith+
  then have ab: "a mod 4 * 16 + b div 16 = a' mod 4 * 16 + b' div 16"
    using assms(8) by simp
  have "b div 16 < 16" "b' div 16 < 16" using assms(2,5) by linarith+
  from base_split [OF ab this] have a: "a mod 4 = a' mod 4" and b16: "b div 16 = b' div 16" .
  have "b mod 16 * 4 + c div 64 < 64" "b' mod 16 * 4 + c' div 64 < 64"
    using assms(3,6) by linarith+
  then have bc: "b mod 16 * 4 + c div 64 = b' mod 16 * 4 + c' div 64"
    using assms(9) by simp
  have "c div 64 < 4" "c' div 64 < 4" using assms(3,6) by linarith+
  from base_split [OF bc this] have b: "b mod 16 = b' mod 16" and c: "c div 64 = c' div 64" .
  have "c mod 64 = c' mod 64" using assms(10) by simp
  with a4 a b16 b c show ?thesis by (metis div_mult_mod_eq)
qed

lemma b64_nats_inject:
  "\<lbrakk>\<forall>x \<in> set as. x < 256; \<forall>x \<in> set bs. x < 256; b64_nats as = b64_nats bs\<rbrakk> \<Longrightarrow> as = bs"
proof (induction as arbitrary: bs rule: b64_nats.induct)
  case 1
  then show ?case by (cases bs rule: b64_nats.cases) auto
next
  case (2 a)
  show ?case
  proof (cases bs rule: b64_nats.cases)
    case (2 a')
    with "2.prems" have "a = a' \<and> (0::nat) = 0 \<and> (0::nat) = 0" by (intro b64_group) auto
    then show ?thesis using 2 by simp
  qed (use "2.prems" in auto)
next
  case (3 a b)
  show ?case
  proof (cases bs rule: b64_nats.cases)
    case (3 a' b')
    with "3.prems" have "a = a' \<and> b = b' \<and> (0::nat) = 0" by (intro b64_group) auto
    then show ?thesis using 3 by simp
  qed (use "3.prems" in auto)
next
  case (4 a b c r)
  show ?case
  proof (cases bs rule: b64_nats.cases)
    case (4 a' b' c' r')
    with "4.prems" have "a = a' \<and> b = b' \<and> c = c'" by (intro b64_group) auto
    moreover have "r = r'" using "4.prems" 4 by (intro "4.IH") auto
    ultimately show ?thesis using 4 by simp
  qed (use "4.prems" in auto)
qed

lemma b64_encode_inject: "b64_encode as = b64_encode bs \<longleftrightarrow> as = bs"
proof
  assume "b64_encode as = b64_encode bs"
  then have "map unat as = map unat bs"
    unfolding b64_encode_def by (rule b64_nats_inject [rotated 2]) auto
  then show "as = bs"
    by (metis map_injective unsigned_word_eqI injI)
qed simp

lemma b64_chars: "set (b64_encode bs) \<subseteq> insert (CHR ''='') (set b64_alphabet)"
  unfolding b64_encode_def
  by (induction "map unat bs" arbitrary: bs rule: b64_nats.induct) (auto simp: b64_char_in)

end
