(* ===== verification/Registry.thy ===== *)
theory Registry
  imports Hash
begin

text \<open>
  Package \<open>internal/registry\<close> (\<open>registry.go\<close>, \<open>file_registry.go\<close>): the host registry, its
  operations and its persistence.

  \<open>fileRegistry\<close> is a path and a Go map of hosts.  The file system holds what
  \<open>encoding/json\<close> makes of \<open>hosts.json\<close>: the array of hosts, or bytes that do not parse (strings
  are taken to be UTF-8, since the encoder replaces other bytes).  A
  mutator returns an error or nothing, the registry in memory and the file system, in that
  order, so that the state after a failed save is visible.  The contract the four
  field-scoped setters share is the locale \<open>field_setter\<close>; what the server and the TUI rely
  on is the locale \<open>host_store\<close>.  Both are interpreted on the operations below.
\<close>

section \<open>Hosts\<close>

datatype Status = StatusUnknown | StatusUp | StatusDown

record HomeConfig =
  Root :: string
  ScanDepth :: int

record Host =
  HostID :: string
  Addr :: string
  User :: string
  Name :: string
  KeyRef :: string
  Home :: HomeConfig
  Color :: string
  HostStatus :: Status
  LastSeen :: int

datatype hosts_json = HostsJson "Host list" | NotJson

datatype registry_error =
    RegNotFound string | RegDuplicate string | RegRead | RegParse
  | RegMarshal | RegMkdir | RegWriteTemp | RegRename

record fileRegistry =
  path :: string
  hosts :: "(string, Host) gomap"

type_synonym disk = "hosts_json fsys"
type_synonym reg_result = "registry_error option \<times> fileRegistry \<times> disk"

definition registryFileName :: string where "registryFileName = ''hosts.json''"

definition NewFileRegistry :: "string \<Rightarrow> fileRegistry" where
  "NewFileRegistry dataDir = \<lparr>path = path_join [dataDir, registryFileName], hosts = []\<rparr>"

text \<open>\<open>time.Time\<close> marshals when its year is between 0 and 9999; nanoseconds since 1970.\<close>

definition time_marshals :: "int \<Rightarrow> bool" where
  "time_marshals t \<longleftrightarrow> - 62167219200000000000 \<le> t \<and> t < 253402300800000000000"

section \<open>Reading\<close>

definition registry_Load :: "fileRegistry \<Rightarrow> disk \<Rightarrow> registry_error option \<times> fileRegistry" where
  "registry_Load r fs =
     (case fs_read fs (path r) of
        RNotExist \<Rightarrow> (None, r\<lparr>hosts := []\<rparr>)
      | RFail \<Rightarrow> (Some RegRead, r)
      | RData NotJson \<Rightarrow> (Some RegParse, r)
      | RData (HostsJson l) \<Rightarrow>
          (None, r\<lparr>hosts := foldl (\<lambda>m h. gm_put (HostID h) h m) [] l\<rparr>))"

definition registry_List :: "fileRegistry \<Rightarrow> Host list" where
  "registry_List r = sort_key HostID (map snd (hosts r))"

definition registry_Get :: "fileRegistry \<Rightarrow> string \<Rightarrow> Host option" where
  "registry_Get r i = gm_get (hosts r) i"

lemma Get_hosts [simp]: "registry_Get (r\<lparr>hosts := m\<rparr>) = gm_get m"
  by (simp add: fun_eq_iff registry_Get_def)

section \<open>Saving\<close>

definition saveLocked :: "fileRegistry \<Rightarrow> disk \<Rightarrow> registry_error option \<times> disk" where
  "saveLocked r fs =
    (let l = sort_key HostID (map snd (hosts r)); tmp = path r @ ''.tmp'' in
     if \<not> list_all (\<lambda>h. time_marshals (LastSeen h)) l then (Some RegMarshal, fs)
     else if \<not> fs_mkdir fs (path_dir (path r)) then (Some RegMkdir, fs)
     else case fs_write fs tmp (HostsJson l) 384 of None \<Rightarrow> (Some RegWriteTemp, fs)
     | Some fs1 \<Rightarrow>
       (case fs_rename fs1 tmp (path r) of None \<Rightarrow> (Some RegRename, fs1)
        | Some fs2 \<Rightarrow> (None, fs2)))"

definition registry_Save :: "fileRegistry \<Rightarrow> disk \<Rightarrow> reg_result" where
  "registry_Save r fs = (case saveLocked r fs of (e, fs') \<Rightarrow> (e, r, fs'))"

text \<open>Store the map, then save: the tail of every mutator.\<close>

definition store_hosts :: "fileRegistry \<Rightarrow> (string, Host) gomap \<Rightarrow> disk \<Rightarrow> reg_result" where
  "store_hosts r m fs = registry_Save (r\<lparr>hosts := m\<rparr>) fs"

section \<open>Mutators\<close>

definition DeriveHostID :: "string \<Rightarrow> string \<Rightarrow> string" where
  "DeriveHostID user addr = hex_encode (take 6 (sha256 (bytes_of (user @ ''@'' @ addr))))"

definition with_id :: "Host \<Rightarrow> Host" where
  "with_id h = (if HostID h = '''' then h\<lparr>HostID := DeriveHostID (User h) (Addr h)\<rparr> else h)"

definition registry_Add :: "fileRegistry \<Rightarrow> Host \<Rightarrow> disk \<Rightarrow> reg_result" where
  "registry_Add r h fs =
    (let h' = with_id h in
     case gm_get (hosts r) (HostID h') of
       Some _ \<Rightarrow> (Some (RegDuplicate (HostID h')), r, fs)
     | None \<Rightarrow> store_hosts r (gm_put (HostID h') h' (hosts r)) fs)"

definition registry_Remove :: "fileRegistry \<Rightarrow> string \<Rightarrow> disk \<Rightarrow> reg_result" where
  "registry_Remove r i fs =
    (case gm_get (hosts r) i of
       None \<Rightarrow> (Some (RegNotFound i), r, fs)
     | Some _ \<Rightarrow> store_hosts r (gm_del i (hosts r)) fs)"

definition SetName :: "fileRegistry \<Rightarrow> string \<Rightarrow> string \<Rightarrow> disk \<Rightarrow> reg_result" where
  "SetName r i nm fs =
    (case gm_get (hosts r) i of
       None \<Rightarrow> (Some (RegNotFound i), r, fs)
     | Some h \<Rightarrow> store_hosts r (gm_put i (h\<lparr>Name := nm\<rparr>) (hosts r)) fs)"

definition SetHome :: "fileRegistry \<Rightarrow> string \<Rightarrow> HomeConfig \<Rightarrow> disk \<Rightarrow> reg_result" where
  "SetHome r i cfg fs =
    (case gm_get (hosts r) i of
       None \<Rightarrow> (Some (RegNotFound i), r, fs)
     | Some h \<Rightarrow> store_hosts r (gm_put i (h\<lparr>Home := cfg\<rparr>) (hosts r)) fs)"

definition SetColor :: "fileRegistry \<Rightarrow> string \<Rightarrow> string \<Rightarrow> disk \<Rightarrow> reg_result" where
  "SetColor r i col fs =
    (case gm_get (hosts r) i of
       None \<Rightarrow> (Some (RegNotFound i), r, fs)
     | Some h \<Rightarrow> store_hosts r (gm_put i (h\<lparr>Color := col\<rparr>) (hosts r)) fs)"

definition SetStatus :: "int \<Rightarrow> fileRegistry \<Rightarrow> string \<Rightarrow> Status \<Rightarrow> disk \<Rightarrow> reg_result" where
  "SetStatus now r i st fs =
    (case gm_get (hosts r) i of
       None \<Rightarrow> (Some (RegNotFound i), r, fs)
     | Some h \<Rightarrow> store_hosts r (gm_put i (h\<lparr>HostStatus := st, LastSeen := now\<rparr>) (hosts r)) fs)"

section \<open>The invariant\<close>

text \<open>Every host is stored under its own ID.\<close>

definition reg_wf :: "fileRegistry \<Rightarrow> bool" where
  "reg_wf r \<longleftrightarrow> gm_keyed HostID (hosts r)"

lemma reg_wf_key: "reg_wf r \<Longrightarrow> gm_get (hosts r) k = Some h \<Longrightarrow> HostID h = k"
  unfolding reg_wf_def by (rule gm_keyed_get)

lemma reg_wf_new: "reg_wf (NewFileRegistry d)"
  by (simp add: reg_wf_def NewFileRegistry_def)

lemma reg_wf_put: "reg_wf r \<Longrightarrow> HostID h = k \<Longrightarrow> reg_wf (r\<lparr>hosts := gm_put k h (hosts r)\<rparr>)"
  by (simp add: reg_wf_def gm_keyed_put)

lemma reg_wf_del: "reg_wf r \<Longrightarrow> reg_wf (r\<lparr>hosts := gm_del k (hosts r)\<rparr>)"
  by (simp add: reg_wf_def gm_keyed_del)

lemma load_fold_keyed:
  "gm_keyed HostID m0 \<Longrightarrow> gm_keyed HostID (foldl (\<lambda>m h. gm_put (HostID h) h m) m0 l)"
  by (induction l arbitrary: m0) (simp_all add: gm_keyed_put)

lemma load_fold_get:
  "distinct (map HostID l) \<Longrightarrow> HostID ` set l \<inter> dom (gm_get m0) = {} \<Longrightarrow>
   gm_get (foldl (\<lambda>m h. gm_put (HostID h) h m) m0 l) =
     gm_get m0 ++ map_of (map (\<lambda>h. (HostID h, h)) l)"
proof (induction l arbitrary: m0)
  case Nil
  then show ?case by simp
next
  case (Cons h l)
  have "distinct (map HostID l)" using Cons.prems(1) by simp
  moreover have "HostID ` set l \<inter> dom (gm_get (gm_put (HostID h) h m0)) = {}"
    using Cons.prems by (simp add: gm_get_put)
  ultimately have "gm_get (foldl (\<lambda>m h. gm_put (HostID h) h m) (gm_put (HostID h) h m0) l) =
      gm_get (gm_put (HostID h) h m0) ++ map_of (map (\<lambda>h. (HostID h, h)) l)"
    by (rule Cons.IH)
  moreover have "map_of (map (\<lambda>h. (HostID h, h)) l) (HostID h) = None"
    using Cons.prems(1) by (simp add: map_of_eq_None_iff comp_def image_image)
  ultimately show ?case
    by (auto simp: gomap_simps map_add_def fun_eq_iff split: option.splits)
qed

lemma reg_wf_Load: "reg_wf r \<Longrightarrow> reg_wf (snd (registry_Load r fs))"
  by (simp add: registry_Load_def reg_wf_def load_fold_keyed
      split: read_result.splits hosts_json.splits)

lemma List_set: "reg_wf r \<Longrightarrow> h \<in> set (registry_List r) \<longleftrightarrow> registry_Get r (HostID h) = Some h"
  by (simp add: registry_List_def registry_Get_def reg_wf_def gm_keyed_value)

lemma List_distinct: "reg_wf r \<Longrightarrow> distinct (map HostID (registry_List r))"
  using gm_keyed_distinct [of HostID "hosts r"]
  by (simp add: registry_List_def reg_wf_def distinct_map del: map_map)

lemma List_sorted: "sorted (map HostID (registry_List r))"
  by (simp add: registry_List_def)

lemma List_same_map:
  "reg_wf r \<Longrightarrow> same_map (hosts r) m \<Longrightarrow> registry_List r = registry_List (r\<lparr>hosts := m\<rparr>)"
  unfolding registry_List_def
  by (auto intro!: sort_key_eq_mset same_map_values gm_keyed_inj simp: reg_wf_def simp del: set_map)

section \<open>What the server and the TUI rely on\<close>

locale host_store =
  fixes list :: "'s \<Rightarrow> Host list"
    and get :: "'s \<Rightarrow> string \<Rightarrow> Host option"
    and wf :: "'s \<Rightarrow> bool"
  assumes list_get: "wf s \<Longrightarrow> h \<in> set (list s) \<longleftrightarrow> get s (HostID h) = Some h"
    and list_distinct: "wf s \<Longrightarrow> distinct (map HostID (list s))"
begin

text \<open>A host found by a scan of the list is a host of the store.\<close>

lemma find_get: "wf s \<Longrightarrow> find P (list s) = Some h \<Longrightarrow> P h \<and> get s (HostID h) = Some h"
  using list_get by (metis find_Some_iff nth_mem)

lemma find_none: "wf s \<Longrightarrow> find P (list s) = None \<Longrightarrow> get s (HostID h) = Some h \<Longrightarrow> \<not> P h"
  using list_get by (metis find_None_iff)

end

interpretation reg: host_store registry_List registry_Get reg_wf
  by unfold_locales (simp_all add: List_set List_distinct)

section \<open>The field-scoped setters\<close>

lemma store_hosts_mem: "store_hosts r m fs = (e, r', fs') \<Longrightarrow> r' = r\<lparr>hosts := m\<rparr>"
  by (auto simp: store_hosts_def registry_Save_def split: prod.splits)

locale field_setter =
  fixes upd :: "Host \<Rightarrow> Host"
    and setter :: "fileRegistry \<Rightarrow> string \<Rightarrow> disk \<Rightarrow> reg_result"
  assumes setter_eq: "setter r i fs =
      (case gm_get (hosts r) i of
         None \<Rightarrow> (Some (RegNotFound i), r, fs)
       | Some h \<Rightarrow> store_hosts r (gm_put i (upd h) (hosts r)) fs)"
    and upd_id: "HostID (upd h) = HostID h"
begin

lemma setter_missing: "registry_Get r i = None \<Longrightarrow> setter r i fs = (Some (RegNotFound i), r, fs)"
  by (simp add: setter_eq registry_Get_def)

lemma setter_get:
  "setter r i fs = (e, r', fs') \<Longrightarrow>
   registry_Get r' = (\<lambda>j. if j = i then map_option upd (registry_Get r i) else registry_Get r j)"
  by (auto simp: setter_eq registry_Get_def fun_eq_iff gomap_simps dest!: store_hosts_mem
      split: option.splits)

lemma setter_wf: "reg_wf r \<Longrightarrow> setter r i fs = (e, r', fs') \<Longrightarrow> reg_wf r'"
  by (auto simp: setter_eq upd_id reg_wf_key dest!: store_hosts_mem intro!: reg_wf_put
      split: option.splits)

lemma setter_path: "setter r i fs = (e, r', fs') \<Longrightarrow> path r' = path r"
  by (auto simp: setter_eq dest!: store_hosts_mem split: option.splits)

lemma setter_dom: "setter r i fs = (e, r', fs') \<Longrightarrow> dom (registry_Get r') = dom (registry_Get r)"
  by (drule setter_get) (auto simp: dom_def)

end

interpretation name: field_setter "\<lambda>h. h\<lparr>Name := nm\<rparr>" "\<lambda>r i. SetName r i nm" for nm
  by unfold_locales (simp_all add: SetName_def)

interpretation home: field_setter "\<lambda>h. h\<lparr>Home := cfg\<rparr>" "\<lambda>r i. SetHome r i cfg" for cfg
  by unfold_locales (simp_all add: SetHome_def)

interpretation color: field_setter "\<lambda>h. h\<lparr>Color := col\<rparr>" "\<lambda>r i. SetColor r i col" for col
  by unfold_locales (simp_all add: SetColor_def)

interpretation status: field_setter "\<lambda>h. h\<lparr>HostStatus := st, LastSeen := now\<rparr>"
    "\<lambda>r i. SetStatus now r i st" for st now
  by unfold_locales (simp_all add: SetStatus_def)

section \<open>Refinement: a map from IDs to hosts\<close>

datatype reg_op =
    OpAdd Host | OpRemove string | OpSetName string string | OpSetHome string HomeConfig
  | OpSetColor string string | OpSetStatus int string Status | OpSave

fun reg_apply :: "fileRegistry \<Rightarrow> reg_op \<Rightarrow> disk \<Rightarrow> reg_result" where
  "reg_apply r (OpAdd h) fs = registry_Add r h fs"
| "reg_apply r (OpRemove i) fs = registry_Remove r i fs"
| "reg_apply r (OpSetName i nm) fs = SetName r i nm fs"
| "reg_apply r (OpSetHome i cfg) fs = SetHome r i cfg fs"
| "reg_apply r (OpSetColor i col) fs = SetColor r i col fs"
| "reg_apply r (OpSetStatus now i st) fs = SetStatus now r i st fs"
| "reg_apply r OpSave fs = registry_Save r fs"

text \<open>The abstract registry: a partial map that no I/O error can disturb.\<close>

fun spec_apply :: "reg_op \<Rightarrow> (string \<rightharpoonup> Host) \<Rightarrow> (string \<rightharpoonup> Host)" where
  "spec_apply (OpAdd h) m =
     (if m (HostID (with_id h)) = None then m(HostID (with_id h) \<mapsto> with_id h) else m)"
| "spec_apply (OpRemove i) m = m(i := None)"
| "spec_apply (OpSetName i nm) m = m(i := map_option (\<lambda>h. h\<lparr>Name := nm\<rparr>) (m i))"
| "spec_apply (OpSetHome i cfg) m = m(i := map_option (\<lambda>h. h\<lparr>Home := cfg\<rparr>) (m i))"
| "spec_apply (OpSetColor i col) m = m(i := map_option (\<lambda>h. h\<lparr>Color := col\<rparr>) (m i))"
| "spec_apply (OpSetStatus now i st) m =
     m(i := map_option (\<lambda>h. h\<lparr>HostStatus := st, LastSeen := now\<rparr>) (m i))"
| "spec_apply OpSave m = m"

fun reg_run :: "fileRegistry \<Rightarrow> reg_op list \<Rightarrow> disk \<Rightarrow> reg_result" where
  "reg_run r [] fs = (None, r, fs)"
| "reg_run r (op # ops) fs =
     (case reg_apply r op fs of (e, r', fs') \<Rightarrow>
        if ops = [] then (e, r', fs') else reg_run r' ops fs')"

lemma Add_get:
  "registry_Add r h fs = (e, r', fs') \<Longrightarrow>
   registry_Get r' = spec_apply (OpAdd h) (registry_Get r) \<and> path r' = path r"
  by (auto simp: registry_Add_def Let_def registry_Get_def gomap_simps dest!: store_hosts_mem
      split: option.splits)

lemma Add_wf: "reg_wf r \<Longrightarrow> registry_Add r h fs = (e, r', fs') \<Longrightarrow> reg_wf r'"
  by (auto simp: registry_Add_def Let_def reg_wf_put dest!: store_hosts_mem split: option.splits)

lemma Remove_get:
  "registry_Remove r i fs = (e, r', fs') \<Longrightarrow>
   registry_Get r' = (registry_Get r)(i := None) \<and> path r' = path r"
  by (auto simp: registry_Remove_def registry_Get_def gomap_simps fun_eq_iff dest!: store_hosts_mem
      split: option.splits)

lemma Remove_wf: "reg_wf r \<Longrightarrow> registry_Remove r i fs = (e, r', fs') \<Longrightarrow> reg_wf r'"
  by (auto simp: registry_Remove_def reg_wf_del dest!: store_hosts_mem split: option.splits)

lemma Save_mem: "registry_Save r fs = (e, r', fs') \<Longrightarrow> r' = r"
  by (auto simp: registry_Save_def split: prod.splits)

lemmas setters_get = name.setter_get home.setter_get color.setter_get status.setter_get
lemmas setters_wf = name.setter_wf home.setter_wf color.setter_wf status.setter_wf
lemmas setters_path = name.setter_path home.setter_path color.setter_path status.setter_path

lemma apply_get:
  "reg_apply r op fs = (e, r', fs') \<Longrightarrow> registry_Get r' = spec_apply op (registry_Get r)"
  by (cases op) (auto simp: fun_eq_iff dest: Save_mem Add_get Remove_get setters_get)

lemma apply_wf: "reg_wf r \<Longrightarrow> reg_apply r op fs = (e, r', fs') \<Longrightarrow> reg_wf r'"
  by (cases op) (auto dest: Save_mem Add_wf Remove_wf setters_wf)

lemma apply_path: "reg_apply r op fs = (e, r', fs') \<Longrightarrow> path r' = path r"
  by (cases op) (auto dest: Save_mem Add_get Remove_get setters_path)

section \<open>Persistence\<close>

lemma saveLocked_ok:
  assumes "saveLocked r fs = (None, fs')"
  shows "fs_read fs' (path r) =
    (if fs_unreadable fs (path r) then RFail else RData (HostsJson (registry_List r)))"
  using assms
  by (auto simp: saveLocked_def Let_def registry_List_def fs_rename_def fs_write_def fs_read_def
      split: option.splits if_splits)

lemma saveLocked_fails:
  "saveLocked r fs = (Some e, fs') \<Longrightarrow> fs_read fs' (path r) = fs_read fs (path r)"
  by (auto simp: saveLocked_def Let_def fs_rename_def fs_write_def fs_read_def
      split: option.splits if_splits)

lemma saveLocked_flags: "saveLocked r fs = (e, fs') \<Longrightarrow> fs_unreadable fs' = fs_unreadable fs"
  by (auto simp: saveLocked_def Let_def fs_rename_def fs_write_def split: option.splits if_splits)

text \<open>
  An operation either leaves the disk alone with an error, or its last act is to save the
  registry it returns.
\<close>

lemma apply_saves:
  assumes "reg_apply r op fs = (e, r', fs')"
  shows "(e \<noteq> None \<and> r' = r \<and> fs' = fs) \<or> saveLocked r' fs = (e, fs')"
  using assms
  by (cases op)
    (auto simp: registry_Add_def registry_Remove_def SetName_def SetHome_def SetColor_def
      SetStatus_def store_hosts_def registry_Save_def Let_def split: option.splits prod.splits)

lemma load_saved:
  assumes "reg_wf r" and "fs_read fs (path r) = RData (HostsJson (registry_List r))"
    and "path r0 = path r"
  shows "fst (registry_Load r0 fs) = None \<and> registry_Get (snd (registry_Load r0 fs)) = registry_Get r"
proof -
  have "gm_get (foldl (\<lambda>m h. gm_put (HostID h) h m) [] (registry_List r)) =
      map_of (map (\<lambda>h. (HostID h, h)) (registry_List r))"
    using List_distinct [OF assms(1)] by (simp add: load_fold_get)
  also have "\<dots> = registry_Get r"
  proof
    fix k
    show "map_of (map (\<lambda>h. (HostID h, h)) (registry_List r)) k = registry_Get r k"
    proof (cases "registry_Get r k")
      case None
      then show ?thesis
        using List_set [OF assms(1)] by (auto simp: map_of_eq_None_iff)
    next
      case (Some h)
      then have "HostID h = k" using reg_wf_key [OF assms(1)] by (simp add: registry_Get_def)
      with Some have "(k, h) \<in> set (map (\<lambda>h. (HostID h, h)) (registry_List r))"
        using List_set [OF assms(1)] by auto
      then show ?thesis
        using Some List_distinct [OF assms(1)] by (simp add: map_of_is_SomeI comp_def)
    qed
  qed
  finally show ?thesis
    using assms(2,3) by (simp add: registry_Load_def Get_hosts)
qed

lemma apply_durable:
  assumes "reg_wf r" "\<not> fs_unreadable fs (path r)" "reg_apply r op fs = (None, r', fs')"
    and "path r0 = path r"
  shows "fst (registry_Load r0 fs') = None \<and> registry_Get (snd (registry_Load r0 fs')) = registry_Get r'"
proof (rule load_saved)
  show "reg_wf r'" using apply_wf [OF assms(1,3)] .
  show "fs_read fs' (path r') = RData (HostsJson (registry_List r'))"
    using apply_saves [OF assms(3)] saveLocked_ok [of r' fs fs'] assms(2) apply_path [OF assms(3)]
    by auto
  show "path r0 = path r'" using apply_path [OF assms(3)] assms(4) by simp
qed

lemma apply_flags: "reg_apply r op fs = (e, r', fs') \<Longrightarrow> fs_unreadable fs' = fs_unreadable fs"
  using apply_saves saveLocked_flags by metis

lemma run_get:
  "reg_run r ops fs = (e, r', fs') \<Longrightarrow> registry_Get r' = fold spec_apply ops (registry_Get r)"
proof (induction ops arbitrary: r fs)
  case Nil
  then show ?case by simp
next
  case (Cons op ops)
  obtain e1 r1 fs1 where step: "reg_apply r op fs = (e1, r1, fs1)" by (metis prod_cases3)
  show ?case
    using Cons step apply_get [OF step] by (cases "ops = []") auto
qed

lemma run_durable:
  "\<lbrakk>reg_wf r; \<not> fs_unreadable fs (path r); ops \<noteq> []; reg_run r ops fs = (None, r', fs'); path r0 = path r\<rbrakk> \<Longrightarrow>
   fst (registry_Load r0 fs') = None \<and> registry_Get (snd (registry_Load r0 fs')) = registry_Get r'"
proof (induction ops arbitrary: r fs)
  case Nil
  then show ?case by simp
next
  case (Cons op ops)
  obtain e1 r1 fs1 where step: "reg_apply r op fs = (e1, r1, fs1)" by (metis prod_cases3)
  show ?case
  proof (cases "ops = []")
    case True
    then have "reg_apply r op fs = (None, r', fs')" using Cons.prems(4) step by simp
    then show ?thesis using apply_durable Cons.prems(1,2,5) by blast
  next
    case False
    show ?thesis
    proof (rule Cons.IH)
      show "reg_wf r1" using apply_wf [OF Cons.prems(1) step] .
      show "\<not> fs_unreadable fs1 (path r1)"
        using apply_flags [OF step] apply_path [OF step] Cons.prems(2) by simp
      show "reg_run r1 ops fs1 = (None, r', fs')" using Cons.prems(4) step False by simp
      show "path r0 = path r1" using apply_path [OF step] Cons.prems(5) by simp
    qed (rule False)
  qed
qed

section \<open>Properties\<close>


definition a_host :: "string \<Rightarrow> Host" where
  "a_host i = \<lparr>HostID = i, Addr = i @ '':22'', User = ''u'', Name = [], KeyRef = [],
     Home = \<lparr>Root = [], ScanDepth = 0\<rparr>, Color = [], HostStatus = StatusUnknown, LastSeen = 0\<rparr>"


text \<open>An operation that fails never damages \<open>hosts.json\<close>: what a reader finds there is what was
  there before, whether the failure is a missing host, a duplicate, or any step of the save,
  since the new contents go to a temporary file that is renamed last.\<close>

theorem failed_op_keeps_file:
  assumes "reg_apply r op fs = (Some e, r', fs')"
  shows "fs_read fs' (path r) = fs_read fs (path r) \<and> path r' = path r"
  using apply_saves [OF assms] saveLocked_fails [of r' fs e fs'] apply_path [OF assms] by auto

theorem failed_op_keeps_file_witness:
  "fst (reg_apply (NewFileRegistry ''/d'') (OpRemove ''x'') empty_fs) = Some (RegNotFound ''x'') \<and>
   fs_read (snd (snd (reg_apply (NewFileRegistry ''/d'') (OpRemove ''x'') empty_fs))) ''/d/hosts.json'' = RNotExist"
proof -
  have run: "reg_apply (NewFileRegistry ''/d'') (OpRemove ''x'') empty_fs =
      (Some (RegNotFound ''x''), NewFileRegistry ''/d'', empty_fs)"
    by (simp add: registry_Remove_def NewFileRegistry_def)
  from failed_op_keeps_file [OF run] run show ?thesis by (simp add: fs_read_def empty_fs_def)
qed

text \<open>C34: what the code does when saving fails: \<open>Add\<close> reports the error and yet keeps the host in
  memory, so that the registry shows a host that was never stored and the retry is refused as
  a duplicate.\<close>

theorem failed_save_stays_in_memory:
  assumes "HostID h \<noteq> ''''" and "registry_Get r (HostID h) = None"
    and "fs_readonly fs (path_dir (path r))" and "time_marshals (LastSeen h)"
    and "\<forall>x \<in> set (registry_List r). time_marshals (LastSeen x)"
  shows "registry_Add r h fs = (Some RegMkdir, r\<lparr>hosts := gm_put (HostID h) h (hosts r)\<rparr>, fs) \<and>
    registry_Get (r\<lparr>hosts := gm_put (HostID h) h (hosts r)\<rparr>) (HostID h) = Some h \<and>
    registry_Add (r\<lparr>hosts := gm_put (HostID h) h (hosts r)\<rparr>) h fs =
      (Some (RegDuplicate (HostID h)), r\<lparr>hosts := gm_put (HostID h) h (hosts r)\<rparr>, fs)"
proof -
  have "\<forall>e \<in> set (hosts r). time_marshals (LastSeen (snd e))"
    using assms(5) by (simp add: registry_List_def)
  then have "\<forall>e \<in> set (gm_put (HostID h) h (hosts r)). time_marshals (LastSeen (snd e))"
    using assms(4) set_gm_put [of "HostID h" h "hosts r"] by fastforce
  then have "saveLocked (r\<lparr>hosts := gm_put (HostID h) h (hosts r)\<rparr>) fs = (Some RegMkdir, fs)"
    using assms(3) by (simp add: saveLocked_def Let_def list_all_iff fs_mkdir_def)
  then show ?thesis
    using assms(1,2)
    by (simp add: registry_Add_def with_id_def registry_Get_def store_hosts_def registry_Save_def gomap_simps)
qed

theorem failed_save_stays_in_memory_witness:
  "fst (registry_Add (NewFileRegistry ''/d'') (a_host ''x'') (empty_fs\<lparr>fs_readonly := (\<lambda>_. True)\<rparr>)) = Some RegMkdir"
  using failed_save_stays_in_memory [of "a_host ''x''" "NewFileRegistry ''/d''" "empty_fs\<lparr>fs_readonly := (\<lambda>_. True)\<rparr>"]
  by (simp add: a_host_def NewFileRegistry_def registry_Get_def registry_List_def time_marshals_def)

end
