(* ===== verification/Project.thy ===== *)
theory Project
  imports Registry
begin

text \<open>
  Package \<open>internal/project\<close> (\<open>project.go\<close>, \<open>indexer.go\<close>): project identities, the
  on-demand indexer and shell quoting.

  \<open>Runner\<close> is the function that runs one command on a host and returns its output or an
  error; the two \<open>find\<close> commands are the strings the code builds.  The set of repository roots
  is a Go map, so the order in which \<open>Index\<close> meets them is open; \<open>index_roots\<close> takes the order
  as a list, and the sorted result is shown not to depend on it.
\<close>

section \<open>Projects\<close>

record Project =
  ProjHost :: string
  ProjRoot :: string
  ProjName :: string

record Key =
  KeyHost :: string
  KeyRoot :: string

definition KeyOf :: "Project \<Rightarrow> Key" where
  "KeyOf p = \<lparr>KeyHost = ProjHost p, KeyRoot = ProjRoot p\<rparr>"

section \<open>Quoting for the remote shell\<close>

definition quote :: char where "quote = CHR 0x27"

definition backslash :: char where "backslash = CHR 0x5C"

definition shellQuote :: "string \<Rightarrow> string" where
  "shellQuote s = quote # replace_char quote [quote, backslash, quote, quote] s @ [quote]"

text \<open>
  How a POSIX shell reads such a word: inside single quotes every byte stands for itself, a
  backslash outside them protects the next byte.  Any other unquoted byte may be special, so
  the reader gives up on it.
\<close>

fun sh_read :: "bool \<Rightarrow> string \<Rightarrow> string option" where
  "sh_read False [] = Some []"
| "sh_read True [] = None"
| "sh_read True (c # cs) =
     (if c = quote then sh_read False cs else map_option (Cons c) (sh_read True cs))"
| "sh_read False (c # cs) =
     (if c = quote then sh_read True cs
      else if c = backslash then
        (case cs of [] \<Rightarrow> None | d # ds \<Rightarrow> map_option (Cons d) (sh_read False ds))
      else None)"

section \<open>The indexer\<close>

datatype index_error = NoSethomeRoot string | IndexGit string | IndexDirs string

type_synonym Runner = "string \<Rightarrow> string option"

definition nonEmptyLines :: "string \<Rightarrow> string list" where
  "nonEmptyLines b = filter (\<lambda>l. l \<noteq> []) (map trim_space (split_on NL b))"

definition insideAnyRepo :: "string \<Rightarrow> string list \<Rightarrow> bool" where
  "insideAnyRepo dir repos \<longleftrightarrow> (\<exists>r \<in> set repos. dir = r \<or> has_prefix dir (r @ ''/''))"

definition gitCmd :: "string \<Rightarrow> int \<Rightarrow> string" where
  "gitCmd root depth = ''find '' @ shellQuote root @ '' -maxdepth '' @ itoa (wrap64 (depth + 1)) @
     '' -type d -name .git -prune 2>/dev/null''"

definition dirCmd :: "string \<Rightarrow> string" where
  "dirCmd root = ''find '' @ shellQuote root @ '' -mindepth 1 -maxdepth 1 -type d -not -name '' @
     [quote] @ ''.*'' @ [quote] @ '' 2>/dev/null''"

definition add_root :: "string list \<Rightarrow> string \<Rightarrow> string list" where
  "add_root roots p = (if p \<in> set roots then roots else roots @ [p])"

definition index_roots :: "string list \<Rightarrow> string list \<Rightarrow> string list" where
  "index_roots repos dirs =
     foldl add_root (foldl add_root [] repos) (filter (\<lambda>d. \<not> insideAnyRepo d repos) dirs)"

definition Index :: "Runner \<Rightarrow> Host \<Rightarrow> index_error + Project list" where
  "Index run h =
    (let root = trim_right_char slash (Root (Home h)) in
     if root = [] then Inl (NoSethomeRoot (HostID h))
     else let depth = (if ScanDepth (Home h) < 1 then 1 else ScanDepth (Home h)) in
       case run (gitCmd root depth) of None \<Rightarrow> Inl (IndexGit (HostID h))
       | Some gitOut \<Rightarrow>
         let repos = remdups (map path_dir (nonEmptyLines gitOut)) in
         (case run (dirCmd root) of None \<Rightarrow> Inl (IndexDirs (HostID h))
          | Some dirOut \<Rightarrow>
             Inr (map (\<lambda>r. \<lparr>ProjHost = HostID h, ProjRoot = r, ProjName = path_base r\<rparr>)
               (sort (index_roots repos (nonEmptyLines dirOut))))))"

section \<open>Lemmas\<close>

lemma sh_read_quoted:
  "sh_read True (replace_char quote [quote, backslash, quote, quote] s @ quote # rest) =
     map_option ((@) s) (sh_read False rest)"
proof (induction s)
  case Nil
  then show ?case by (simp add: replace_char_def option.map_ident)
next
  case (Cons c cs)
  have "quote \<noteq> backslash" by (simp add: quote_def backslash_def)
  with Cons show ?case
    by (cases "c = quote") (auto simp: replace_char_def option.map_comp comp_def)
qed

lemma foldl_add_root:
  "distinct acc \<Longrightarrow> distinct (foldl add_root acc ps) \<and> set (foldl add_root acc ps) = set acc \<union> set ps"
  by (induction ps arbitrary: acc) (auto simp: add_root_def)

lemma index_roots_props:
  "distinct (index_roots repos dirs)"
  "set (index_roots repos dirs) = set repos \<union> {d \<in> set dirs. \<not> insideAnyRepo d repos}"
proof -
  have "distinct (foldl add_root [] repos)" "set (foldl add_root [] repos) = set repos"
    using foldl_add_root [of "[]" repos] by simp_all
  then show "distinct (index_roots repos dirs)"
    "set (index_roots repos dirs) = set repos \<union> {d \<in> set dirs. \<not> insideAnyRepo d repos}"
    using foldl_add_root [of "foldl add_root [] repos" "filter (\<lambda>d. \<not> insideAnyRepo d repos) dirs"]
    by (auto simp: index_roots_def)
qed

lemma index_roots_order:
  assumes "set repos = set repos'"
  shows "sort (index_roots repos dirs) = sort (index_roots repos' dirs)"
proof -
  have "set (index_roots repos dirs) = set (index_roots repos' dirs)"
    using assms by (simp add: index_roots_props insideAnyRepo_def)
  then have "mset (index_roots repos dirs) = mset (index_roots repos' dirs)"
    using index_roots_props(1) by (simp add: set_eq_iff_mset_eq_distinct)
  then show ?thesis by (intro sort_key_eq_mset) auto
qed

section \<open>Properties\<close>

text \<open>C33: a quoted word reads back, in a POSIX shell, as exactly the string that was quoted,
  whatever bytes it holds.\<close>

theorem shellQuote_reads_back: "sh_read False (shellQuote s) = Some s"
  using sh_read_quoted [of s "[]"] by (simp add: shellQuote_def)

text \<open>A successful \<open>Index\<close> returns, sorted by root and without repetition, one project per
  repository root reported by the first \<open>find\<close> and one per first-level directory that is
  neither a repository nor inside one; each carries the host's ID and its base name.\<close>

theorem Index_spec:
  assumes "Index run h = Inr ps"
  shows "\<exists>gitOut dirOut. run (gitCmd (trim_right_char slash (Root (Home h))) (max 1 (ScanDepth (Home h)))) = Some gitOut \<and>
    run (dirCmd (trim_right_char slash (Root (Home h)))) = Some dirOut \<and>
    (let repos = map path_dir (nonEmptyLines gitOut) in
     set (map ProjRoot ps) =
       set repos \<union> {d \<in> set (nonEmptyLines dirOut). \<not> insideAnyRepo d repos}) \<and>
    sorted (map ProjRoot ps) \<and> distinct (map ProjRoot ps) \<and>
    (\<forall>p \<in> set ps. ProjHost p = HostID h \<and> ProjName p = path_base (ProjRoot p))"
proof -
  let ?root = "trim_right_char slash (Root (Home h))"
  have depth: "(if ScanDepth (Home h) < 1 then 1 else ScanDepth (Home h)) = max 1 (ScanDepth (Home h))"
    by auto
  from assms obtain gitOut dirOut where
      g: "run (gitCmd ?root (max 1 (ScanDepth (Home h)))) = Some gitOut"
    and d: "run (dirCmd ?root) = Some dirOut"
    and ps: "ps = map (\<lambda>r. \<lparr>ProjHost = HostID h, ProjRoot = r, ProjName = path_base r\<rparr>)
        (sort (index_roots (remdups (map path_dir (nonEmptyLines gitOut))) (nonEmptyLines dirOut)))"
    unfolding Index_def Let_def depth by (auto split: if_splits option.splits)
  have roots: "map ProjRoot ps =
      sort (index_roots (remdups (map path_dir (nonEmptyLines gitOut))) (nonEmptyLines dirOut))"
    by (simp add: ps comp_def)
  show ?thesis
    using g d roots
    by (intro exI [of _ gitOut] exI [of _ dirOut])
      (auto simp: index_roots_props insideAnyRepo_def ps Let_def)
qed

definition demo_find :: Runner where
  "demo_find cmd = Some (if contains cmd ''.git'' then ''/p/a/.git'' else ''/p/b'')"

definition find_host :: Host where
  "find_host = \<lparr>HostID = ''h'', Addr = ''h:22'', User = ''u'', Name = [], KeyRef = [],
     Home = \<lparr>Root = ''/p'', ScanDepth = 1\<rparr>, Color = [], HostStatus = StatusUnknown, LastSeen = 0\<rparr>"

theorem Index_spec_witness: "\<exists>ps. Index demo_find find_host = Inr ps \<and> distinct (map ProjRoot ps)"
proof -
  have "\<not> isl (Index demo_find find_host)" by code_simp
  then obtain ps where "Index demo_find find_host = Inr ps" by (cases "Index demo_find find_host") auto
  with Index_spec [OF this] show ?thesis by (auto simp: Let_def)
qed

end
