(* ===== verification/Remote.thy ===== *)
theory Remote
  imports Project
begin

text \<open>
  Package \<open>internal/remote\<close> (\<open>remote.go\<close>, \<open>dialer.go\<close>, \<open>pty.go\<close>): the outbound SSH side.

  An \<open>sshPTY\<close> is the state of its three endpoints, of the \<open>done\<close> channel and of the two
  \<open>sync.Once\<close> guards; closing a closed channel panics, which is the value \<open>None\<close>.  Host keys
  are pinned in a \<open>known_hosts\<close> text, read and appended as the code does.  What the network and the
  SSH library answer to \<open>Open\<close>, \<open>Run\<close> and \<open>Verify\<close> is the record \<open>ssh_env\<close>; the handshake in it is
  given the configuration the dialer builds, host-key callback included.  The functions return their
  result, the trace of the connections they opened and closed and the requests they sent, and the
  files, to which the callback may have added a pin.
\<close>

section \<open>Sizes and the PTY\<close>

record Size =
  Rows :: uint16
  Cols :: uint16

record OpenSpec =
  Cwd :: string
  SpecSize :: Size

record sshPTY =
  stdin_open :: bool
  sess_open :: bool
  client_open :: bool
  done_closed :: bool
  doneOnce :: bool
  closeOnce :: bool
  windows :: "Size list"
  input :: "byte list"

definition new_pty :: sshPTY where
  "new_pty = \<lparr>stdin_open = True, sess_open = True, client_open = True, done_closed = False,
     doneOnce = False, closeOnce = False, windows = [], input = []\<rparr>"

definition pty_Write :: "sshPTY \<Rightarrow> byte list \<Rightarrow> nat option \<times> sshPTY" where
  "pty_Write p bs = (if stdin_open p then (Some (length bs), p\<lparr>input := input p @ bs\<rparr>) else (None, p))"

definition pty_Resize :: "sshPTY \<Rightarrow> Size \<Rightarrow> bool \<times> sshPTY" where
  "pty_Resize p s = (if sess_open p then (True, p\<lparr>windows := windows p @ [s]\<rparr>) else (False, p))"

text \<open>\<open>doneOnce.Do(close(done))\<close>.\<close>

definition markDone :: "sshPTY \<Rightarrow> sshPTY option" where
  "markDone p =
     (if doneOnce p then Some p
      else if done_closed p then None
      else Some (p\<lparr>doneOnce := True, done_closed := True\<rparr>))"

definition pty_Close :: "sshPTY \<Rightarrow> sshPTY option" where
  "pty_Close p =
     (if closeOnce p then Some p
      else map_option (\<lambda>p'. p'\<lparr>closeOnce := True\<rparr>)
        (markDone (p\<lparr>stdin_open := False, sess_open := False, client_open := False\<rparr>)))"

text \<open>
  One turn of the keepalive loop: it ends when \<open>done\<close> is closed, and a failed request closes
  the PTY and ends it.  The Boolean tells whether the loop goes on.
\<close>

definition keepalive_turn :: "bool \<Rightarrow> sshPTY \<Rightarrow> (sshPTY \<times> bool) option" where
  "keepalive_turn request_ok p =
     (if done_closed p then Some (p, False)
      else if request_ok then Some (p, True)
      else map_option (\<lambda>p'. (p', False)) (pty_Close p))"

datatype pty_event = SessionEnded | CloseCalled | Keepalive bool | ResizeCalled Size | WriteCalled "byte list"

fun pty_apply :: "pty_event \<Rightarrow> sshPTY \<Rightarrow> sshPTY option" where
  "pty_apply SessionEnded p = markDone p"
| "pty_apply CloseCalled p = pty_Close p"
| "pty_apply (Keepalive ok) p = map_option fst (keepalive_turn ok p)"
| "pty_apply (ResizeCalled s) p = Some (snd (pty_Resize p s))"
| "pty_apply (WriteCalled bs) p = Some (snd (pty_Write p bs))"

fun pty_run :: "pty_event list \<Rightarrow> sshPTY \<Rightarrow> sshPTY option" where
  "pty_run [] p = Some p"
| "pty_run (e # es) p = Option.bind (pty_apply e p) (pty_run es)"

definition pty_ok :: "sshPTY \<Rightarrow> bool" where
  "pty_ok p \<longleftrightarrow> doneOnce p = done_closed p \<and> (closeOnce p \<longrightarrow> done_closed p \<and>
     \<not> stdin_open p \<and> \<not> sess_open p \<and> \<not> client_open p)"

lemmas pty_defs = markDone_def pty_Close_def keepalive_turn_def pty_Resize_def pty_Write_def

lemma pty_ok_new: "pty_ok new_pty"
  by (simp add: pty_ok_def new_pty_def)

lemma pty_apply_ok: "pty_ok p \<Longrightarrow> \<exists>p'. pty_apply e p = Some p' \<and> pty_ok p' \<and>
    (done_closed p \<longrightarrow> done_closed p') \<and> (closeOnce p \<longrightarrow> closeOnce p')"
  by (cases e) (auto simp: pty_ok_def pty_defs)

lemma pty_run_ok: "pty_ok p \<Longrightarrow> \<exists>p'. pty_run es p = Some p' \<and> pty_ok p' \<and>
    (done_closed p \<longrightarrow> done_closed p') \<and> (closeOnce p \<longrightarrow> closeOnce p')"
proof (induction es arbitrary: p)
  case Nil
  then show ?case by simp
next
  case (Cons e es)
  from pty_apply_ok [OF Cons.prems] obtain p1 where
    p1: "pty_apply e p = Some p1" "pty_ok p1" "done_closed p \<longrightarrow> done_closed p1" "closeOnce p \<longrightarrow> closeOnce p1"
    by blast
  with Cons.IH [OF p1(2)] show ?case by auto
qed

text \<open>What the session manager relies on: closing never fails, always signals \<open>done\<close>, and
  happens once.\<close>

locale closeable =
  fixes close :: "'p \<Rightarrow> 'p"
    and is_done :: "'p \<Rightarrow> bool"
    and ok :: "'p \<Rightarrow> bool"
  assumes close_ok: "ok p \<Longrightarrow> ok (close p)"
    and close_done: "ok p \<Longrightarrow> is_done (close p)"
    and close_idem: "ok p \<Longrightarrow> close (close p) = close p"
begin

lemma close_many: "ok p \<Longrightarrow> (close ^^ Suc n) p = close p"
  by (induction n) (simp_all add: close_idem)

lemma close_many_done: "ok p \<Longrightarrow> 0 < n \<Longrightarrow> is_done ((close ^^ n) p)"
  using close_many [of p "n - 1"] close_done [of p] by (cases n) simp_all

end

text \<open>\<open>pty_Close\<close> where it cannot panic.\<close>

definition pty_closed :: "sshPTY \<Rightarrow> sshPTY" where
  "pty_closed p = (case pty_Close p of Some p' \<Rightarrow> p' | None \<Rightarrow> p)"

lemma pty_Close_closed: "pty_ok p \<Longrightarrow> pty_Close p = Some (pty_closed p)"
  by (auto simp: pty_closed_def pty_ok_def pty_defs)

interpretation pty: closeable pty_closed done_closed pty_ok
  by unfold_locales (auto simp: pty_closed_def pty_ok_def pty_defs)

section \<open>Errors\<close>

datatype remote_error =
    BadKey string | DialErr string | HandshakeErr string | NewSessionErr | RequestPtyErr
  | StdinErr | StdoutErr | StartErr string | RunErr string

section \<open>Keys\<close>

definition loadKeyRef ::
  "(string \<Rightarrow> 'signer option) \<Rightarrow> string fsys \<Rightarrow> string \<Rightarrow> string \<Rightarrow> remote_error + 'signer option" where
  "loadKeyRef parse fs dataDir ref =
     (if contains_any ref [slash, backslash] \<or> ref = ''.'' \<or> ref = ''..'' then Inr None
      else case fs_read fs (path_join [dataDir, ref]) of
        RData raw \<Rightarrow>
          (case parse raw of None \<Rightarrow> Inl (BadKey (path_join [dataDir, ref])) | Some s \<Rightarrow> Inr (Some s))
      | _ \<Rightarrow> Inr None)"

section \<open>Trust on first use\<close>

datatype tofu_error = ReadKnownHosts | LineTooLong | KeyMismatch string | MkdirKnownHosts | OpenKnownHosts

text \<open>The scanner's limit of 64 KiB per line.\<close>

definition lines_fit :: "string \<Rightarrow> bool" where
  "lines_fit s \<longleftrightarrow> list_all (\<lambda>l. length l < 65536) (split_on NL s)"

definition add_known :: "(string, string) gomap \<Rightarrow> string \<Rightarrow> (string, string) gomap" where
  "add_known m l = (let fs = str_fields l in
     if length fs < 3 then m else gm_put (fs ! 0) (fs ! 2) m)"

definition readKnownHosts :: "string fsys \<Rightarrow> string \<Rightarrow> tofu_error + (string, string) gomap" where
  "readKnownHosts fs p =
     (case fs_read fs p of
        RNotExist \<Rightarrow> Inr []
      | RFail \<Rightarrow> Inl ReadKnownHosts
      | RData s \<Rightarrow> if lines_fit s then Inr (foldl add_known [] (scan_lines s)) else Inl LineTooLong)"

definition known_line :: "string \<Rightarrow> string \<Rightarrow> string \<Rightarrow> string" where
  "known_line host keyType b64 = host @ '' '' @ keyType @ '' '' @ b64 @ [NL]"

definition appendKnownHost ::
  "string fsys \<Rightarrow> string \<Rightarrow> string \<Rightarrow> string \<Rightarrow> string \<Rightarrow> tofu_error option \<times> string fsys" where
  "appendKnownHost fs p host keyType b64 =
     (if \<not> fs_mkdir fs (path_dir p) then (Some MkdirKnownHosts, fs)
      else let old = (case fs_files fs p of None \<Rightarrow> [] | Some f \<Rightarrow> f_data f) in
        case fs_write fs p (old @ known_line host keyType b64) 384 of
          None \<Rightarrow> (Some OpenKnownHosts, fs)
        | Some fs' \<Rightarrow> (None, fs'))"

definition tofuHostKey ::
  "string fsys \<Rightarrow> string \<Rightarrow> string \<Rightarrow> string \<Rightarrow> byte list \<Rightarrow> tofu_error option \<times> string fsys" where
  "tofuHostKey fs p hostname keyType blob =
     (case readKnownHosts fs p of
        Inl e \<Rightarrow> (Some e, fs)
      | Inr known \<Rightarrow>
         (case gm_get known hostname of
            Some got \<Rightarrow> (if got \<noteq> b64_encode blob then (Some (KeyMismatch hostname), fs) else (None, fs))
          | None \<Rightarrow> appendKnownHost fs p hostname keyType (b64_encode blob)))"

section \<open>The dialer\<close>

record 'signer sshDialer =
  d_dataDir :: string
  d_timeout :: int
  d_signer :: 'signer

definition NewDialer :: "string \<Rightarrow> int \<Rightarrow> 'signer \<Rightarrow> 'signer sshDialer" where
  "NewDialer dataDir timeout signer = \<lparr>d_dataDir = dataDir, d_timeout = timeout, d_signer = signer\<rparr>"

text \<open>The \<open>hostKeys\<close> callback \<open>NewDialer\<close> installs: it is given the dialled address and the host's key.\<close>

type_synonym host_key_callback = "string \<Rightarrow> string \<Rightarrow> byte list \<Rightarrow> string fsys \<Rightarrow> tofu_error option \<times> string fsys"

definition known_hosts :: "'signer sshDialer \<Rightarrow> string" where
  "known_hosts d = path_join [d_dataDir d, ''known_hosts'']"

definition hostKeys :: "'signer sshDialer \<Rightarrow> host_key_callback" where
  "hostKeys d hostname keyType blob fs = tofuHostKey fs (known_hosts d) hostname keyType blob"

record 'signer ClientConfig =
  CfgUser :: string
  CfgSigner :: 'signer
  HostKeyCallback :: host_key_callback
  CfgTimeout :: int

text \<open>The network and the SSH library, as one call meets them: \<open>NewClientConn\<close> is the handshake, which may
  call the host-key callback and so write \<open>known_hosts\<close>; \<open>ParseKey\<close> is \<open>ssh.ParsePrivateKey\<close>.\<close>

record 'signer ssh_env =
  ParseKey :: "string \<Rightarrow> 'signer option"
  dial_ok :: bool
  NewClientConn :: "'signer ClientConfig \<Rightarrow> string \<Rightarrow> string fsys \<Rightarrow> bool \<times> string fsys"
  session_ok :: bool
  pty_req_ok :: bool
  stdin_ok :: bool
  stdout_ok :: bool
  start_ok :: bool
  cmd_output :: "string option"

definition clientConfig :: "'signer ssh_env \<Rightarrow> 'signer sshDialer \<Rightarrow> string fsys \<Rightarrow> Host \<Rightarrow> remote_error + 'signer ClientConfig" where
  "clientConfig env d fs h =
     (let cfg = (\<lambda>signer. \<lparr>CfgUser = User h, CfgSigner = signer, HostKeyCallback = hostKeys d, CfgTimeout = d_timeout d\<rparr>) in
      if KeyRef h = [] then Inr (cfg (d_signer d))
      else case loadKeyRef (ParseKey env) fs (d_dataDir d) (KeyRef h) of
        Inl e \<Rightarrow> Inl e
      | Inr None \<Rightarrow> Inr (cfg (d_signer d))
      | Inr (Some s) \<Rightarrow> Inr (cfg s))"

section \<open>Opening connections\<close>

datatype resource = Client | Sess

datatype action =
    Opened resource | Closed resource | PtyReq int int | Exec string | ShellReq

definition remote_shellQuote :: "string \<Rightarrow> string" where
  "remote_shellQuote s = quote # replace_char quote [quote, backslash, quote, quote] s @ [quote]"

definition dial :: "'signer ssh_env \<Rightarrow> 'signer sshDialer \<Rightarrow> Host \<Rightarrow> string fsys
    \<Rightarrow> remote_error option \<times> action list \<times> string fsys" where
  "dial env d h fs =
     (case clientConfig env d fs h of Inl e \<Rightarrow> (Some e, [], fs)
      | Inr cfg \<Rightarrow>
         if \<not> dial_ok env then (Some (DialErr (Addr h)), [], fs)
         else case NewClientConn env cfg (Addr h) fs of
           (False, fs1) \<Rightarrow> (Some (HandshakeErr (Addr h)), [Opened Client, Closed Client], fs1)
         | (True, fs1) \<Rightarrow> (None, [Opened Client], fs1))"

definition startCmd :: "string \<Rightarrow> string" where
  "startCmd cwd = ''cd '' @ remote_shellQuote cwd @ '' && exec $SHELL -l''"

text \<open>\<open>Open\<close> from the new client on: its result and what it did to the connection.\<close>

definition open_pty :: "'signer ssh_env \<Rightarrow> OpenSpec \<Rightarrow> (remote_error + sshPTY) \<times> action list" where
  "open_pty env spec =
    (if \<not> session_ok env then (Inl NewSessionErr, [Closed Client])
     else
       let rows = (if Rows (SpecSize spec) = 0 then 24 else uint (Rows (SpecSize spec)));
           cols = (if Cols (SpecSize spec) = 0 then 80 else uint (Cols (SpecSize spec)));
           t = [Opened Sess, PtyReq rows cols];
           undo = [Closed Sess, Closed Client];
           req = (if Cwd spec = [] then ShellReq else Exec (startCmd (Cwd spec)))
       in if \<not> pty_req_ok env then (Inl RequestPtyErr, t @ undo)
          else if \<not> stdin_ok env then (Inl StdinErr, t @ undo)
          else if \<not> stdout_ok env then (Inl StdoutErr, t @ undo)
          else if \<not> start_ok env then (Inl (StartErr (Cwd spec)), t @ [req] @ undo)
          else (Inr new_pty, t @ [req]))"

definition remote_Open :: "'signer ssh_env \<Rightarrow> 'signer sshDialer \<Rightarrow> Host \<Rightarrow> OpenSpec \<Rightarrow> string fsys
    \<Rightarrow> (remote_error + sshPTY) \<times> action list \<times> string fsys" where
  "remote_Open env d h spec fs =
    (case dial env d h fs of (Some e, t, fs1) \<Rightarrow> (Inl e, t, fs1)
     | (None, t, fs1) \<Rightarrow> (case open_pty env spec of (r, t1) \<Rightarrow> (r, t @ t1, fs1)))"

text \<open>\<open>Run\<close> and \<open>Verify\<close> release what they opened when they return (\<open>defer\<close>).\<close>

definition remote_Run :: "'signer ssh_env \<Rightarrow> 'signer sshDialer \<Rightarrow> Host \<Rightarrow> string \<Rightarrow> string fsys
    \<Rightarrow> (remote_error + string) \<times> action list \<times> string fsys" where
  "remote_Run env d h cmd fs =
    (case dial env d h fs of (Some e, t, fs1) \<Rightarrow> (Inl e, t, fs1)
     | (None, t, fs1) \<Rightarrow>
       if \<not> session_ok env then (Inl NewSessionErr, t @ [Closed Client], fs1)
       else ((case cmd_output env of None \<Rightarrow> Inl (RunErr cmd) | Some out \<Rightarrow> Inr out),
             t @ [Opened Sess, Exec cmd, Closed Sess, Closed Client], fs1))"

definition remote_Verify :: "'signer ssh_env \<Rightarrow> 'signer sshDialer \<Rightarrow> Host \<Rightarrow> string fsys
    \<Rightarrow> remote_error option \<times> action list \<times> string fsys" where
  "remote_Verify env d h fs =
    (case dial env d h fs of (Some e, t, fs1) \<Rightarrow> (Some e, t, fs1)
     | (None, t, fs1) \<Rightarrow>
       if \<not> session_ok env then (Some NewSessionErr, t @ [Closed Client], fs1)
       else ((case cmd_output env of None \<Rightarrow> Some (RunErr ''true'') | Some _ \<Rightarrow> None),
             t @ [Opened Sess, Exec ''true'', Closed Sess, Closed Client], fs1))"

text \<open>The connections still open after a trace; a close without an open is refused.\<close>

fun held :: "resource list \<Rightarrow> action list \<Rightarrow> resource list option" where
  "held rs [] = Some rs"
| "held rs (Opened x # t) = held (x # rs) t"
| "held rs (Closed x # t) = (if x \<in> set rs then held (remove1 x rs) t else None)"
| "held rs (PtyReq r c # t) = held rs t"
| "held rs (Exec s # t) = held rs t"
| "held rs (ShellReq # t) = held rs t"

text \<open>What the SSH library documents of a handshake with a peer that proves possession of a host key: it
  calls the callback with the dialled address and that key, and succeeds only if the callback
  accepts; a handshake that fails earlier calls nothing.\<close>

definition presents :: "'signer ssh_env \<Rightarrow> string \<Rightarrow> byte list \<Rightarrow> bool" where
  "presents env keyType blob \<longleftrightarrow> (\<forall>cfg addr fs ok fs1. NewClientConn env cfg addr fs = (ok, fs1) \<longrightarrow>
     \<not> ok \<and> fs1 = fs \<or>
     (\<exists>e. HostKeyCallback cfg addr keyType blob fs = (e, fs1) \<and> (ok \<longrightarrow> e = None)))"

section \<open>Lemmas\<close>

lemma remote_shellQuote_eq: "remote_shellQuote s = shellQuote s"
  by (simp add: remote_shellQuote_def shellQuote_def)

lemma dial_trace:
  "dial env d h fs = (e, t, fs1) \<Longrightarrow> held [] t = Some (if e = None then [Client] else []) \<and>
     (e = None \<longrightarrow> t = [Opened Client]) \<and> Opened Sess \<notin> set t"
  by (auto simp: dial_def split: sum.splits if_splits prod.splits bool.splits)

lemma clientConfig_callback: "clientConfig env d fs h = Inr cfg \<Longrightarrow> HostKeyCallback cfg = hostKeys d"
  by (auto simp: clientConfig_def Let_def split: if_splits sum.splits option.splits)

text \<open>A successful \<open>dial\<close> to a peer with this key has had it accepted by the callback.\<close>

lemma dial_accepted:
  assumes "presents env kt blob" "dial env d h fs = (None, t, fs1)"
  shows "tofuHostKey fs (known_hosts d) (Addr h) kt blob = (None, fs1)"
proof -
  obtain cfg where "clientConfig env d fs h = Inr cfg" and conn: "NewClientConn env cfg (Addr h) fs = (True, fs1)"
    using assms(2) by (auto simp: dial_def split: sum.splits if_splits prod.splits bool.splits)
  from clientConfig_callback [OF this(1)] show ?thesis
    using assms(1) conn unfolding presents_def hostKeys_def by metis
qed

lemma dial_refused:
  assumes "presents env kt blob" "tofuHostKey fs (known_hosts d) (Addr h) kt blob = (Some e, fs)"
  shows "\<exists>e t. dial env d h fs = (Some e, t, fs)"
proof (cases "clientConfig env d fs h")
  case (Inl e)
  then show ?thesis by (simp add: dial_def)
next
  case (Inr cfg)
  obtain ok fs1 where conn: "NewClientConn env cfg (Addr h) fs = (ok, fs1)" by fastforce
  have "\<not> ok \<and> fs1 = fs"
    using assms conn clientConfig_callback [OF Inr] by (fastforce simp: presents_def hostKeys_def)
  then show ?thesis using Inr conn by (simp add: dial_def)
qed

lemma NL_not_plain: "plain w \<Longrightarrow> NL \<notin> set w"
  by (auto simp: plain_def list_all_iff NL_def code_of_def ascii_space_def)

lemma strip_cr_plain:
  assumes "plain w"
  shows "strip_cr (u @ w) = u @ w"
proof -
  have w: "w \<noteq> []" using assms by (simp add: plain_def)
  then have "\<not> ascii_space (code_of (last w))"
    using assms last_in_set [OF w] by (simp add: plain_def list_all_iff)
  then have "last w \<noteq> CHR 0x0D" by (auto simp: ascii_space_def code_of_def)
  then show ?thesis using w by (simp add: strip_cr_def)
qed

lemma b64_plain:
  assumes "bs \<noteq> []"
  shows "plain (b64_encode bs)"
proof -
  have "\<forall>c \<in> insert (CHR ''='') (set b64_alphabet). code_of c < 128 \<and> \<not> ascii_space (code_of c)"
    unfolding b64_alphabet_def code_of_def ascii_space_def by simp
  then have "list_all (\<lambda>c. code_of c < 128 \<and> \<not> ascii_space (code_of c)) (b64_encode bs)"
    using b64_chars [of bs] by (auto simp: list_all_iff)
  moreover have "b64_encode bs \<noteq> []"
    using assms b64_encode_inject [of bs "[]"] by (auto simp: b64_encode_def)
  ultimately show ?thesis by (simp add: plain_def)
qed

lemma lines_fit_append:
  assumes "ends_line s" "NL \<notin> set l" "lines_fit s" "length l < 65536"
  shows "lines_fit (s @ l @ [NL])"
proof (cases "s = []")
  case True
  then show ?thesis
    using assms split_on_append [of NL l "[]"] by (simp add: lines_fit_def split_on_none)
next
  case False
  then obtain s0 where s: "s = s0 @ [NL]"
    using assms(1) by (metis append_butlast_last_id ends_line_def)
  have "split_on NL (s @ l @ [NL]) = split_on NL s0 @ [l] @ [[]]"
    using split_on_append [of NL s0 "l @ [NL]"] split_on_append [of NL l "[]"] assms(2)
    by (simp add: s split_on_none)
  then show ?thesis
    using assms(3,4) split_on_append [of NL s0 "[]"] by (simp add: lines_fit_def s)
qed

text \<open>The text of \<open>known_hosts\<close>, empty when there is no file.\<close>

definition known_text :: "string fsys \<Rightarrow> string \<Rightarrow> string" where
  "known_text fs p = (case fs_files fs p of None \<Rightarrow> [] | Some f \<Rightarrow> f_data f)"

lemma readKnownHosts_text:
  "readKnownHosts fs p = Inr known \<longleftrightarrow>
     \<not> fs_unreadable fs p \<and> lines_fit (known_text fs p) \<and>
     known = foldl add_known [] (scan_lines (known_text fs p))"
  by (auto simp: readKnownHosts_def fs_read_def known_text_def lines_fit_def scan_lines_def
      split: option.splits if_splits)

lemma append_reads:
  assumes "readKnownHosts fs p = Inr known" "ends_line (known_text fs p)"
    and "plain host" "plain kt" "plain key" "length host + length kt + length key < 65000"
    and "appendKnownHost fs p host kt key = (None, fs')"
  shows "readKnownHosts fs' p = Inr (gm_put host key known) \<and> ends_line (known_text fs' p)"
proof -
  let ?l = "host @ '' '' @ kt @ '' '' @ key"
  have now: "known_text fs' p = known_text fs p @ ?l @ [NL]" and unr: "fs_unreadable fs' = fs_unreadable fs"
    using assms(7)
    by (auto simp: appendKnownHost_def known_text_def known_line_def fs_write_def Let_def
        split: option.splits if_splits)
  have nl: "NL \<notin> set ?l" using assms(3-5) NL_not_plain by (auto simp: NL_def)
  have "scan_lines (known_text fs' p) = scan_lines (known_text fs p) @ [?l]"
    unfolding now using scan_lines_append [OF assms(2) nl] strip_cr_plain [OF assms(5), of "host @ '' '' @ kt @ '' ''"]
    by simp
  moreover have "add_known m ?l = gm_put host key m" for m
    using fields_three [OF assms(3-5)] by (simp add: add_known_def)
  moreover have "lines_fit (known_text fs' p)"
    unfolding now using assms(1,6) by (intro lines_fit_append [OF assms(2) nl]) (auto simp: readKnownHosts_text)
  ultimately show ?thesis
    using assms(1) now unr by (auto simp: readKnownHosts_text ends_line_def)
qed

lemma tofu_after:
  assumes "readKnownHosts fs p = Inr known" "gm_get known host = Some (b64_encode blob)"
  shows "tofuHostKey fs p host kt blob' =
    (if blob' = blob then (None, fs) else (Some (KeyMismatch host), fs))"
  using assms by (auto simp: tofuHostKey_def b64_encode_inject)

section \<open>Properties\<close>

text \<open>Whatever happens to a PTY, and in whatever order (the session ends, \<open>Close\<close> is called
  any number of times, keepalives fail), no step closes the \<open>done\<close> channel twice, which would
  panic; once \<open>Close\<close> was called, \<open>done\<close> is closed and all three endpoints are released.\<close>

theorem pty_never_panics:
  "\<exists>p. pty_run es new_pty = Some p \<and>
     (CloseCalled \<in> set es \<longrightarrow> done_closed p \<and> \<not> stdin_open p \<and> \<not> sess_open p \<and> \<not> client_open p)"
proof -
  have "\<exists>p'. pty_run es p = Some p' \<and> pty_ok p' \<and> (CloseCalled \<in> set es \<longrightarrow> closeOnce p')"
    if "pty_ok p" for p
    using that
  proof (induction es arbitrary: p)
    case Nil
    then show ?case by simp
  next
    case (Cons e es)
    from pty_apply_ok [OF Cons.prems] obtain p1 where p1: "pty_apply e p = Some p1" "pty_ok p1" by blast
    from Cons.IH [OF p1(2)] obtain p2 where
      p2: "pty_run es p1 = Some p2" "pty_ok p2" "CloseCalled \<in> set es \<longrightarrow> closeOnce p2" by blast
    have "e = CloseCalled \<Longrightarrow> closeOnce p1"
      using p1(1) Cons.prems by (auto simp: pty_defs pty_ok_def split: if_splits)
    then show ?case
      using p1 p2 pty_run_ok [OF p1(2), of es] by auto
  qed
  from this [OF pty_ok_new] show ?thesis by (auto simp: pty_ok_def)
qed

theorem pty_never_panics_witness:
  "\<exists>p. pty_run [SessionEnded, CloseCalled, Keepalive False, CloseCalled] new_pty = Some p \<and> done_closed p"
  using pty_never_panics [of "[SessionEnded, CloseCalled, Keepalive False, CloseCalled]"] by auto

text \<open>C32: \<open>Open\<close>, \<open>Run\<close> and \<open>Verify\<close> leak no connection: on every path each close matches an open
  connection, after an error nothing is held, and after a success \<open>Open\<close> holds exactly the
  client and its session while \<open>Run\<close> and \<open>Verify\<close> hold nothing.\<close>

theorem dialer_no_leak:
  "held [] (fst (snd (remote_Open env d h spec fs))) =
     Some (case fst (remote_Open env d h spec fs) of Inl _ \<Rightarrow> [] | Inr _ \<Rightarrow> [Sess, Client]) \<and>
   held [] (fst (snd (remote_Run env d h cmd fs))) = Some [] \<and>
   held [] (fst (snd (remote_Verify env d h fs))) = Some []"
proof -
  obtain e t fs1 where dial: "dial env d h fs = (e, t, fs1)" by (rule prod_cases3)
  from dial_trace [OF this] dial show ?thesis
    by (cases e) (simp_all add: remote_Open_def open_pty_def remote_Run_def remote_Verify_def Let_def)
qed

text \<open>A per-host key is only ever read from a direct child of the data directory: the path
  has the elements of the directory followed by the bare file name, so a \<open>KeyRef\<close> cannot
  climb out of it.\<close>

theorem loadKeyRef_confined:
  assumes "loadKeyRef parse fs dataDir ref = Inr (Some s)" and "ref \<noteq> []" and "dataDir \<noteq> []"
  shows "slash \<notin> set ref \<and> ref \<noteq> ''.'' \<and> ref \<noteq> ''..'' \<and>
    (\<exists>raw. fs_read fs (path_render (path_rooted dataDir) (path_elems dataDir @ [ref])) = RData raw \<and>
       parse raw = Some s)"
proof -
  have ok: "slash \<notin> set ref" "ref \<notin> {'''', ''.'', ''..''}"
    using assms(1,2) by (auto simp: loadKeyRef_def contains_any_def split: if_splits)
  show ?thesis
    using assms ok path_join_child [OF assms(3) ok]
    by (auto simp: loadKeyRef_def split: if_splits read_result.splits option.splits)
qed

theorem loadKeyRef_confined_witness:
  "loadKeyRef Some (empty_fs\<lparr>fs_files := [''/d/k'' \<mapsto> \<lparr>f_data = ''pem'', f_perm = 384\<rparr>]\<rparr>) ''/d'' ''k'' = Inr (Some ''pem'') \<and>
   slash \<notin> set ''k''"
proof -
  let ?fs = "empty_fs\<lparr>fs_files := [''/d/k'' \<mapsto> \<lparr>f_data = ''pem'', f_perm = 384\<rparr>]\<rparr>"
  have "loadKeyRef Some ?fs ''/d'' ''k'' = Inr (Some ''pem'')"
    by (simp add: loadKeyRef_def contains_any_def slash_def backslash_def path_join_def path_clean_def
        path_render_def path_rooted_def has_prefix_def path_elems_def clean_elem_def fs_read_def empty_fs_def)
  with loadKeyRef_confined [OF this] show ?thesis by simp
qed

text \<open>Trust on first use.  When the callback accepts a host, the key is pinned for that host
  and every other pin stays as it was; from then on it accepts exactly that key for the host
  and reports a mismatch for any other, changing nothing.\<close>

lemma tofu_pins:
  assumes known: "readKnownHosts fs p = Inr known" and "ends_line (known_text fs p)"
    and "plain host" "plain kt" "blob \<noteq> []"
    and "length host + length kt + length (b64_encode blob) < 65000"
    and run: "tofuHostKey fs p host kt blob = (None, fs')"
  shows "\<exists>known'. readKnownHosts fs' p = Inr known' \<and>
      gm_get known' = (gm_get known)(host \<mapsto> b64_encode blob) \<and>
    ends_line (known_text fs' p) \<and>
    (\<forall>kt' blob'. tofuHostKey fs' p host kt' blob' =
       (if blob' = blob then (None, fs') else (Some (KeyMismatch host), fs')))"
proof (cases "gm_get known host")
  case (Some got)
  then have "got = b64_encode blob \<and> fs' = fs"
    using run known by (auto simp: tofuHostKey_def split: if_splits)
  then show ?thesis
    using assms(2) Some known by (auto simp: tofu_after fun_upd_idem)
next
  case None
  then have "appendKnownHost fs p host kt (b64_encode blob) = (None, fs')"
    using run known by (simp add: tofuHostKey_def)
  from append_reads [OF known assms(2-4) b64_plain [OF assms(5)] assms(6) this]
  have r: "readKnownHosts fs' p = Inr (gm_put host (b64_encode blob) known)"
    and e: "ends_line (known_text fs' p)" by auto
  have "gm_get (gm_put host (b64_encode blob) known) host = Some (b64_encode blob)"
    by (simp add: gm_get_put)
  from tofu_after [OF r this] r e show ?thesis by (auto simp: gm_get_put)
qed


text \<open>A peer with this key, on a network where everything else succeeds.\<close>

definition peer_env :: "string \<Rightarrow> byte list \<Rightarrow> string ssh_env" where
  "peer_env kt blob = \<lparr>ParseKey = Some, dial_ok = True,
     NewClientConn = (\<lambda>cfg addr fs. case HostKeyCallback cfg addr kt blob fs of (e, fs1) \<Rightarrow> (e = None, fs1)),
     session_ok = True, pty_req_ok = True, stdin_ok = True, stdout_ok = True, start_ok = True, cmd_output = Some ''''\<rparr>"

lemma peer_presents: "presents (peer_env kt blob) kt blob"
  by (auto simp: presents_def peer_env_def split: prod.splits)


end
