(* ===== verification/Session.thy ===== *)
theory Session
  imports Remote Config "HOL-Library.Sublist"
begin

text \<open>
  Package \<open>internal/session\<close> (\<open>session.go\<close>, \<open>scrollback.go\<close>, \<open>manager.go\<close>): live sessions,
  their scrollback and the manager that owns them.

  The manager keeps pointers, so \<open>m_heap\<close> is the list of the sessions ever created and the
  map from IDs holds indices into it.  One call of the code is a sequence of critical
  sections; each of them is one atomic action, and a goroutine that holds a pointer may run
  its next action at any time, also after the session has left the map.  The pump of a
  session is its program counter \<open>ls_pump\<close>, the reader it starts is \<open>ls_reader\<close>, and a
  subscriber's channel is its queue.  The fields after \<open>history\<close> comments record what
  happened and decide nothing.
\<close>

section \<open>Scrollback\<close>

record ringScrollback =
  sb_buf :: "byte list"
  sb_cap :: int

definition bytesPerLine :: int where "bytesPerLine = 256"

definition newRingScrollback :: "int \<Rightarrow> ringScrollback" where
  "newRingScrollback lines =
    (let c = wrap64 (lines * bytesPerLine) in
     \<lparr>sb_buf = [], sb_cap = (if c \<le> 0 then bytesPerLine else c)\<rparr>)"

definition sb_write :: "ringScrollback \<Rightarrow> byte list \<Rightarrow> ringScrollback" where
  "sb_write r p =
    (let b = sb_buf r @ p in
     if int (length b) > sb_cap r then r\<lparr>sb_buf := drop (nat (int (length b) - sb_cap r)) b\<rparr>
     else r\<lparr>sb_buf := b\<rparr>)"

definition Snapshot :: "ringScrollback \<Rightarrow> byte list" where "Snapshot r = sb_buf r"

definition Len :: "ringScrollback \<Rightarrow> int" where "Len r = int (length (sb_buf r))"

text \<open>What a scrollback buffer promises.\<close>

locale tail_buffer =
  fixes append :: "'b \<Rightarrow> byte list \<Rightarrow> 'b"
    and contents :: "'b \<Rightarrow> byte list"
    and cap :: "'b \<Rightarrow> nat"
    and ok :: "'b \<Rightarrow> bool"
  assumes append_contents: "ok b \<Longrightarrow> contents (append b p) = last_n (cap b) (contents b @ p)"
    and append_cap: "cap (append b p) = cap b"
    and append_ok: "ok b \<Longrightarrow> ok (append b p)"
begin

text \<open>The buffer holds the end of everything ever written to it.\<close>

definition tail_of :: "'b \<Rightarrow> byte list list \<Rightarrow> bool" where
  "tail_of b ps \<longleftrightarrow> ok b \<and> contents b = last_n (cap b) (concat ps)"

lemma tail_of_append: "tail_of b ps \<Longrightarrow> tail_of (append b p) (ps @ [p])"
  by (simp add: tail_of_def append_ok append_contents append_cap last_n_last_n_append)

lemma tail_of_foldl: "tail_of b ps \<Longrightarrow> tail_of (foldl append b qs) (ps @ qs)"
proof (induction qs arbitrary: b ps)
  case Nil
  then show ?case by simp
next
  case (Cons q qs)
  from Cons.IH [OF tail_of_append [OF Cons.prems]] show ?case by simp
qed

lemma tail_bounded: "tail_of b ps \<Longrightarrow> length (contents b) \<le> cap b"
  by (simp add: tail_of_def)

lemma tail_complete: "tail_of b ps \<Longrightarrow> length (concat ps) \<le> cap b \<Longrightarrow> contents b = concat ps"
  by (simp add: tail_of_def last_n_def)

end

lemma sb_cap_pos: "0 < sb_cap (newRingScrollback n)"
  by (simp add: newRingScrollback_def bytesPerLine_def Let_def)

lemma sb_cap_write [simp]: "sb_cap (sb_write r p) = sb_cap r"
  by (simp add: sb_write_def Let_def)

lemma sb_write_buf:
  "0 \<le> sb_cap r \<Longrightarrow> sb_buf (sb_write r p) = last_n (nat (sb_cap r)) (sb_buf r @ p)"
  by (auto simp: sb_write_def last_n_def Let_def nat_diff_distrib nat_int_add intro!: arg_cong2 [where f = drop])

definition ring_cap :: "ringScrollback \<Rightarrow> nat" where "ring_cap r = nat (sb_cap r)"

definition ring_ok :: "ringScrollback \<Rightarrow> bool" where "ring_ok r \<longleftrightarrow> 0 < sb_cap r"

interpretation ring: tail_buffer sb_write Snapshot ring_cap ring_ok
  by unfold_locales (simp_all add: Snapshot_def sb_write_buf ring_cap_def ring_ok_def)

lemma ring_new: "ring.tail_of (newRingScrollback n) []"
  using sb_cap_pos [of n]
  by (simp add: ring.tail_of_def ring_ok_def Snapshot_def newRingScrollback_def Let_def)

section \<open>Sessions and events\<close>

datatype SState = StateStarting | StateRunning | StateClosed | StateFailed

record Spec =
  SpecHost :: string
  SpecRoot :: string
  SpecTitle :: string
  ReqSize :: Size

record Session =
  SessID :: string
  SessHost :: string
  SessProject :: Key
  SessTitle :: string
  SessState :: SState
  SessSize :: Size
  SessCreated :: int

record SessionEvent =
  EvData :: "byte list"
  EvState :: SState
  EvStopped :: bool

definition stopped_event :: SessionEvent where
  "stopped_event = \<lparr>EvData = [], EvState = StateClosed, EvStopped = True\<rparr>"

definition data_event :: "byte list \<Rightarrow> SessionEvent" where
  "data_event bs = \<lparr>EvData = bs, EvState = StateRunning, EvStopped = False\<rparr>"

datatype session_error = UnknownHost string | OpenFailed remote_error | ErrNotFound string

section \<open>Channels\<close>

definition subBuffer :: nat where "subBuffer = 1024"

text \<open>History: \<open>ch_got\<close> is what the receiver took, \<open>ch_dropped\<close> counts the events it missed,
  \<open>ch_from\<close> the chunks sent before the subscription, \<open>ch_cancelled\<close> tells that the
  subscriber closed it.\<close>

record chan =
  ch_queue :: "SessionEvent list"
  ch_closed :: bool
  ch_got :: "SessionEvent list"
  ch_dropped :: nat
  ch_from :: nat
  ch_cancelled :: bool

definition new_chan :: "nat \<Rightarrow> chan" where
  "new_chan n = \<lparr>ch_queue = [], ch_closed = False, ch_got = [], ch_dropped = 0, ch_from = n,
     ch_cancelled = False\<rparr>"

text \<open>The channel a caller gets for a session that is gone: one \<open>Stopped\<close> event, closed.\<close>

definition gone_chan :: chan where
  "gone_chan = \<lparr>ch_queue = [stopped_event], ch_closed = True, ch_got = [], ch_dropped = 0, ch_from = 0,
     ch_cancelled = False\<rparr>"

text \<open>\<open>select { case ch <- ev: default: }\<close>: never waits.\<close>

definition offer :: "SessionEvent \<Rightarrow> chan \<Rightarrow> chan outcome" where
  "offer ev ch = (if ch_closed ch then Panic
     else if length (ch_queue ch) < subBuffer then Next (ch\<lparr>ch_queue := ch_queue ch @ [ev]\<rparr>)
     else Next (ch\<lparr>ch_dropped := ch_dropped ch + 1\<rparr>))"

text \<open>\<open>ch <- ev\<close>: waits while the buffer is full.\<close>

definition send :: "SessionEvent \<Rightarrow> chan \<Rightarrow> chan outcome" where
  "send ev ch = (if ch_closed ch then Panic
     else if length (ch_queue ch) < subBuffer then Next (ch\<lparr>ch_queue := ch_queue ch @ [ev]\<rparr>)
     else Blocked)"

definition close_chan :: "chan \<Rightarrow> chan outcome" where
  "close_chan ch = (if ch_closed ch then Panic else Next (ch\<lparr>ch_closed := True\<rparr>))"

definition recv :: "chan \<Rightarrow> chan outcome" where
  "recv ch = (case ch_queue ch of
     e # q \<Rightarrow> Next (ch\<lparr>ch_queue := q, ch_got := ch_got ch @ [e]\<rparr>)
   | [] \<Rightarrow> if ch_closed ch then Next ch else Blocked)"

section \<open>One live session\<close>

datatype pump_pc =
    PumpWaiting
  | PumpDecided bool
  | PumpNotifying "nat list" bool
  | PumpUnregister bool
  | PumpDone bool

datatype reader_pc = ReadIdle | ReadHave "byte list" | ReadStopped

text \<open>\<open>ls_subs\<close> maps a subscription to its channel in \<open>ls_chans\<close>.  History: \<open>ls_log\<close> is every
  chunk written to the scrollback, \<open>ls_sent\<close> every chunk broadcast.\<close>

record liveSession =
  ls_rec :: Session
  ls_pty :: sshPTY
  ls_sb :: ringScrollback
  ls_subs :: "(nat, nat) gomap"
  ls_nextSub :: nat
  ls_closed :: bool
  ls_intentional :: bool
  ls_pump :: pump_pc
  ls_reader :: reader_pc
  ls_chans :: "chan list"
  ls_log :: "byte list list"
  ls_sent :: "byte list list"

definition upd_chan :: "nat \<Rightarrow> (chan \<Rightarrow> chan outcome) \<Rightarrow> chan list \<Rightarrow> chan list outcome" where
  "upd_chan c f chs = (if c < length chs
     then bind_outcome (f (chs ! c)) (\<lambda>ch. Next (chs[c := ch])) else Blocked)"

definition broadcast :: "SessionEvent \<Rightarrow> liveSession \<Rightarrow> liveSession outcome" where
  "broadcast ev ls =
     bind_outcome (steps (\<lambda>c. upd_chan c (offer ev)) (map snd (ls_subs ls)) (ls_chans ls))
       (\<lambda>chs. Next (ls\<lparr>ls_chans := chs\<rparr>))"

text \<open>The body of the reader: a chunk goes to the scrollback, then to the subscribers.\<close>

definition reader_read :: "byte list \<Rightarrow> liveSession \<Rightarrow> liveSession outcome" where
  "reader_read bs ls = (if ls_reader ls = ReadIdle \<and> bs \<noteq> []
     then Next (ls\<lparr>ls_sb := sb_write (ls_sb ls) bs, ls_reader := ReadHave bs, ls_log := ls_log ls @ [bs]\<rparr>)
     else Blocked)"

definition reader_broadcast :: "liveSession \<Rightarrow> liveSession outcome" where
  "reader_broadcast ls = (case ls_reader ls of
     ReadHave bs \<Rightarrow> broadcast (data_event bs) (ls\<lparr>ls_reader := ReadIdle, ls_sent := ls_sent ls @ [bs]\<rparr>)
   | _ \<Rightarrow> Blocked)"

definition reader_stop :: "liveSession \<Rightarrow> liveSession outcome" where
  "reader_stop ls = (if ls_reader ls = ReadIdle then Next (ls\<lparr>ls_reader := ReadStopped\<rparr>) else Blocked)"

text \<open>
  \<open>pump\<close> and \<open>finalize\<close>: wait for the PTY or the reader to end, read \<open>intentional\<close>, mark the
  session closed and take its subscribers, notify and close each of them, close the PTY.
  Leaving the maps and calling the hook is the manager's step.
\<close>

fun pump_step :: "liveSession \<Rightarrow> liveSession outcome" where
  "pump_step ls =
    (case ls_pump ls of
       PumpWaiting \<Rightarrow>
         if done_closed (ls_pty ls) \<or> ls_reader ls = ReadStopped
         then Next (ls\<lparr>ls_pump := PumpDecided (ls_intentional ls)\<rparr>) else Blocked
     | PumpDecided b \<Rightarrow>
         if ls_closed ls then Next (ls\<lparr>ls_pump := PumpDone b\<rparr>)
         else Next (ls\<lparr>ls_closed := True, ls_rec := (ls_rec ls)\<lparr>SessState := StateClosed\<rparr>,
                ls_subs := [], ls_pump := PumpNotifying (map snd (ls_subs ls)) b\<rparr>)
     | PumpNotifying (c # cs) b \<Rightarrow>
         bind_outcome (upd_chan c (\<lambda>ch. bind_outcome (send stopped_event ch) close_chan) (ls_chans ls))
           (\<lambda>chs. Next (ls\<lparr>ls_chans := chs, ls_pump := PumpNotifying cs b\<rparr>))
     | PumpNotifying [] b \<Rightarrow>
         (case pty_Close (ls_pty ls) of None \<Rightarrow> Panic
          | Some p \<Rightarrow> Next (ls\<lparr>ls_pty := p, ls_pump := PumpUnregister b\<rparr>))
     | _ \<Rightarrow> Blocked)"

definition subscribe_live :: "liveSession \<Rightarrow> liveSession \<times> nat option" where
  "subscribe_live ls =
     (if ls_closed ls then (ls, None)
      else (ls\<lparr>ls_nextSub := ls_nextSub ls + 1, ls_chans := ls_chans ls @ [new_chan (length (ls_sent ls))],
              ls_subs := gm_put (ls_nextSub ls) (length (ls_chans ls)) (ls_subs ls)\<rparr>,
            Some (ls_nextSub ls)))"

definition cancel_live :: "nat \<Rightarrow> liveSession \<Rightarrow> liveSession outcome" where
  "cancel_live subID ls = (case gm_get (ls_subs ls) subID of
     None \<Rightarrow> Next ls
   | Some c \<Rightarrow> bind_outcome (upd_chan c (\<lambda>ch. close_chan (ch\<lparr>ch_cancelled := True\<rparr>)) (ls_chans ls))
       (\<lambda>chs. Next (ls\<lparr>ls_subs := gm_del subID (ls_subs ls), ls_chans := chs\<rparr>)))"

text \<open>Every critical section that touches one session.\<close>

datatype live_action =
    LRead "byte list" | LBroadcast | LReadErr | LPump | LIntentional | LPty pty_event
  | LSubscribe | LCancel nat | LRecv nat | LSize Size | LTitle string

fun live_step :: "live_action \<Rightarrow> liveSession \<Rightarrow> liveSession outcome" where
  "live_step (LRead bs) ls = reader_read bs ls"
| "live_step LBroadcast ls = reader_broadcast ls"
| "live_step LReadErr ls = reader_stop ls"
| "live_step LPump ls = pump_step ls"
| "live_step LIntentional ls = Next (ls\<lparr>ls_intentional := True\<rparr>)"
| "live_step (LPty e) ls =
     (case pty_apply e (ls_pty ls) of None \<Rightarrow> Panic | Some p \<Rightarrow> Next (ls\<lparr>ls_pty := p\<rparr>))"
| "live_step LSubscribe ls = Next (fst (subscribe_live ls))"
| "live_step (LCancel n) ls = cancel_live n ls"
| "live_step (LRecv c) ls =
     bind_outcome (upd_chan c recv (ls_chans ls)) (\<lambda>chs. Next (ls\<lparr>ls_chans := chs\<rparr>))"
| "live_step (LSize s) ls = Next (ls\<lparr>ls_rec := (ls_rec ls)\<lparr>SessSize := s\<rparr>\<rparr>)"
| "live_step (LTitle t) ls = Next (ls\<lparr>ls_rec := (ls_rec ls)\<lparr>SessTitle := t\<rparr>\<rparr>)"

declare pump_step.simps [simp del]

section \<open>The manager\<close>

text \<open>History: \<open>m_hooks\<close> lists the calls of the host-down hook, with the session they are for.\<close>

record manager =
  m_heap :: "liveSession list"
  m_sessions :: "(string, nat) gomap"
  m_byKey :: "(Key, string) gomap"
  m_hook :: bool
  m_hooks :: "(nat \<times> string) list"

definition NewManager :: manager where
  "NewManager = \<lparr>m_heap = [], m_sessions = [], m_byKey = [], m_hook = False, m_hooks = []\<rparr>"

definition SetHostDownHook :: "bool \<Rightarrow> manager \<Rightarrow> manager" where
  "SetHostDownHook b m = m\<lparr>m_hook := b\<rparr>"

definition spec_key :: "Spec \<Rightarrow> Key" where
  "spec_key spec = \<lparr>KeyHost = SpecHost spec, KeyRoot = SpecRoot spec\<rparr>"

definition new_session :: "string \<Rightarrow> Spec \<Rightarrow> int \<Rightarrow> Session" where
  "new_session i spec now =
     \<lparr>SessID = i, SessHost = SpecHost spec, SessProject = spec_key spec, SessTitle = SpecTitle spec,
      SessState = StateStarting, SessSize = ReqSize spec, SessCreated = now\<rparr>"

definition new_live :: "Session \<Rightarrow> sshPTY \<Rightarrow> int \<Rightarrow> liveSession" where
  "new_live r pty lines =
     \<lparr>ls_rec = r, ls_pty = pty, ls_sb = newRingScrollback lines, ls_subs = [], ls_nextSub = 0,
      ls_closed = False, ls_intentional = False, ls_pump = PumpWaiting, ls_reader = ReadIdle,
      ls_chans = [], ls_log = [], ls_sent = []\<rparr>"

text \<open>The locked end of \<open>Create\<close>.\<close>

definition register_live :: "liveSession \<Rightarrow> manager \<Rightarrow> manager" where
  "register_live ls m =
     m\<lparr>m_heap := m_heap m @ [ls],
       m_sessions := gm_put (SessID (ls_rec ls)) (length (m_heap m)) (m_sessions m),
       m_byKey := gm_put (SessProject (ls_rec ls)) (SessID (ls_rec ls)) (m_byKey m)\<rparr>"

definition unregister :: "nat \<Rightarrow> manager \<Rightarrow> manager outcome" where
  "unregister i m =
     (if i < length (m_heap m) then
        let ls = m_heap m ! i in
        (case ls_pump ls of
           PumpUnregister intentional \<Rightarrow>
             Next (m\<lparr>m_heap := (m_heap m)[i := ls\<lparr>ls_pump := PumpDone intentional\<rparr>],
                     m_sessions := gm_del (SessID (ls_rec ls)) (m_sessions m),
                     m_byKey := gm_del (SessProject (ls_rec ls)) (m_byKey m),
                     m_hooks := (if \<not> intentional \<and> m_hook m
                       then m_hooks m @ [(i, SessHost (ls_rec ls))] else m_hooks m)\<rparr>)
         | _ \<Rightarrow> Blocked)
      else Blocked)"

definition on_live :: "nat \<Rightarrow> (liveSession \<Rightarrow> liveSession outcome) \<Rightarrow> manager \<Rightarrow> manager outcome" where
  "on_live i f m = (if i < length (m_heap m)
     then bind_outcome (f (m_heap m ! i)) (\<lambda>ls. Next (m\<lparr>m_heap := (m_heap m)[i := ls]\<rparr>)) else Blocked)"

datatype sm_action =
    Register string Spec int int sshPTY | OnLive nat live_action | Unregister nat | HookSet bool

fun sm_step :: "sm_action \<Rightarrow> manager \<Rightarrow> manager outcome" where
  "sm_step (Register i spec now lines pty) m =
     Next (register_live (new_live ((new_session i spec now)\<lparr>SessState := StateRunning\<rparr>) pty lines) m)"
| "sm_step (OnLive i a) m = on_live i (live_step a) m"
| "sm_step (Unregister i) m = unregister i m"
| "sm_step (HookSet b) m = Next (SetHostDownHook b m)"

abbreviation "sm_run \<equiv> steps sm_step"

section \<open>The operations the server calls\<close>

text \<open>\<open>List\<close> sorts by creation time, then by ID.\<close>

datatype stamp = Stamp int string

instantiation stamp :: linorder
begin

fun less_eq_stamp :: "stamp \<Rightarrow> stamp \<Rightarrow> bool" where
  "less_eq_stamp (Stamp t i) (Stamp t' i') \<longleftrightarrow> (if t \<noteq> t' then t < t' else i \<le> i')"

definition less_stamp :: "stamp \<Rightarrow> stamp \<Rightarrow> bool" where
  "less_stamp a b \<longleftrightarrow> a \<le> b \<and> \<not> b \<le> (a :: stamp)"

instance
proof
  fix a b c :: stamp
  show "a < b \<longleftrightarrow> a \<le> b \<and> \<not> b \<le> a" by (rule less_stamp_def)
  show "a \<le> a" by (cases a) simp
  show "a \<le> b \<Longrightarrow> b \<le> c \<Longrightarrow> a \<le> c" by (cases a; cases b; cases c) (auto split: if_splits)
  show "a \<le> b \<Longrightarrow> b \<le> a \<Longrightarrow> a = b" by (cases a; cases b) (auto split: if_splits)
  show "a \<le> b \<or> b \<le> a" by (cases a; cases b) auto
qed

end

definition stamp_of :: "Session \<Rightarrow> stamp" where
  "stamp_of s = Stamp (SessCreated s) (SessID s)"

definition session_at :: "manager \<Rightarrow> nat \<Rightarrow> Session" where
  "session_at m i = ls_rec (m_heap m ! i)"

definition manager_List :: "manager \<Rightarrow> Session list" where
  "manager_List m = sort_key stamp_of (map (session_at m) (map snd (m_sessions m)))"

definition manager_Get :: "manager \<Rightarrow> string \<Rightarrow> Session option" where
  "manager_Get m i = map_option (session_at m) (gm_get (m_sessions m) i)"

definition manager_Find :: "manager \<Rightarrow> Key \<Rightarrow> string option" where
  "manager_Find m k = gm_get (m_byKey m) k"

definition lookup :: "manager \<Rightarrow> string \<Rightarrow> session_error + nat" where
  "lookup m i = (case gm_get (m_sessions m) i of None \<Rightarrow> Inl (ErrNotFound i) | Some p \<Rightarrow> Inr p)"

text \<open>\<open>get\<close> is \<open>registry.Get\<close> and \<open>opn\<close> the dialer's \<open>Open\<close>; \<open>i\<close> is the random ID.\<close>

definition manager_Create ::
  "(string \<Rightarrow> Host option) \<Rightarrow> (Host \<Rightarrow> OpenSpec \<Rightarrow> remote_error + sshPTY) \<Rightarrow> int \<Rightarrow> string \<Rightarrow> int
     \<Rightarrow> manager \<Rightarrow> Spec \<Rightarrow> (session_error + string) \<times> manager" where
  "manager_Create get opn lines i now m spec =
    (case get (SpecHost spec) of
       None \<Rightarrow> (Inl (UnknownHost (SpecHost spec)), m)
     | Some host \<Rightarrow>
        (case opn host \<lparr>Cwd = SpecRoot spec, SpecSize = ReqSize spec\<rparr> of
           Inl e \<Rightarrow> (Inl (OpenFailed e), m)
         | Inr pty \<Rightarrow>
             let r = (new_session i spec now)\<lparr>SessState := StateRunning\<rparr>
             in (Inr i, register_live (new_live r pty lines) m)))"

definition upd_live :: "nat \<Rightarrow> (liveSession \<Rightarrow> liveSession) \<Rightarrow> manager \<Rightarrow> manager" where
  "upd_live p f m = m\<lparr>m_heap := (m_heap m)[p := f (m_heap m ! p)]\<rparr>"

text \<open>Mark the teardown as asked for, then close the PTY.\<close>

definition end_live :: "liveSession \<Rightarrow> liveSession" where
  "end_live ls = ls\<lparr>ls_intentional := True, ls_pty := pty_closed (ls_pty ls)\<rparr>"

definition manager_Close :: "manager \<Rightarrow> string \<Rightarrow> session_error option \<times> manager" where
  "manager_Close m i =
    (case gm_get (m_sessions m) i of
       None \<Rightarrow> (Some (ErrNotFound i), m)
     | Some p \<Rightarrow> (None, upd_live p end_live m))"

definition host_targets :: "manager \<Rightarrow> string \<Rightarrow> nat list" where
  "host_targets m h = filter (\<lambda>p. SessHost (session_at m p) = h) (map snd (m_sessions m))"

definition manager_CloseHost :: "manager \<Rightarrow> string \<Rightarrow> string list \<times> manager" where
  "manager_CloseHost m h =
    (map (\<lambda>p. SessID (session_at m p)) (host_targets m h),
     foldl (\<lambda>m p. upd_live p end_live m) m (host_targets m h))"

definition manager_Write :: "manager \<Rightarrow> string \<Rightarrow> byte list \<Rightarrow> (session_error + nat option) \<times> manager" where
  "manager_Write m i bs =
    (case lookup m i of Inl e \<Rightarrow> (Inl e, m)
     | Inr p \<Rightarrow> (case pty_Write (ls_pty (m_heap m ! p)) bs of
         (n, pty) \<Rightarrow> (Inr n, upd_live p (\<lambda>ls. ls\<lparr>ls_pty := pty\<rparr>) m)))"

text \<open>\<open>Resize\<close>: \<open>Inr False\<close> is the PTY's own error; the record keeps the new size even then.\<close>

definition manager_Resize :: "manager \<Rightarrow> string \<Rightarrow> Size \<Rightarrow> (session_error + bool) \<times> manager" where
  "manager_Resize m i s =
    (case lookup m i of Inl e \<Rightarrow> (Inl e, m)
     | Inr p \<Rightarrow> (case pty_Resize (ls_pty (m_heap m ! p)) s of
         (b, pty) \<Rightarrow> (Inr b, upd_live p (\<lambda>ls. ls\<lparr>ls_rec := (ls_rec ls)\<lparr>SessSize := s\<rparr>, ls_pty := pty\<rparr>) m)))"

definition manager_Rename :: "manager \<Rightarrow> string \<Rightarrow> string \<Rightarrow> session_error option \<times> manager" where
  "manager_Rename m i t =
    (case gm_get (m_sessions m) i of None \<Rightarrow> (Some (ErrNotFound i), m)
     | Some p \<Rightarrow> (None, upd_live p (\<lambda>ls. ls\<lparr>ls_rec := (ls_rec ls)\<lparr>SessTitle := t\<rparr>\<rparr>) m))"

definition manager_Scrollback :: "manager \<Rightarrow> string \<Rightarrow> byte list option" where
  "manager_Scrollback m i =
    (case lookup m i of Inl _ \<Rightarrow> None | Inr p \<Rightarrow> Some (Snapshot (ls_sb (m_heap m ! p))))"

datatype subscription = Gone chan | Live nat nat

definition manager_Subscribe :: "manager \<Rightarrow> string \<Rightarrow> subscription \<times> manager" where
  "manager_Subscribe m i =
    (case lookup m i of Inl _ \<Rightarrow> (Gone gone_chan, m)
     | Inr p \<Rightarrow> (case subscribe_live (m_heap m ! p) of
         (ls, None) \<Rightarrow> (Gone gone_chan, m)
       | (ls, Some n) \<Rightarrow> (Live p n, upd_live p (\<lambda>_. ls) m)))"

definition newID :: "byte list \<Rightarrow> string" where "newID b = hex_encode (take 8 b)"

section \<open>The invariant of a session\<close>

definition hist :: "chan \<Rightarrow> SessionEvent list" where
  "hist ch = ch_got ch @ ch_queue ch"

text \<open>The chunks a subscriber was given.\<close>

definition delivered :: "chan \<Rightarrow> byte list list" where
  "delivered ch = map EvData (filter (\<lambda>e. \<not> EvStopped e) (hist ch))"

definition ends_stopped :: "chan \<Rightarrow> bool" where
  "ends_stopped ch \<longleftrightarrow> (\<exists>es. hist ch = es @ [stopped_event] \<and> list_all (\<lambda>e. \<not> EvStopped e) es)"

definition never_stopped :: "chan \<Rightarrow> bool" where
  "never_stopped ch \<longleftrightarrow> list_all (\<lambda>e. \<not> EvStopped e) (hist ch)"

definition chan_ok :: "byte list list \<Rightarrow> chan \<Rightarrow> bool" where
  "chan_ok sent ch \<longleftrightarrow>
     length (ch_queue ch) \<le> subBuffer \<and> ch_from ch \<le> length sent \<and>
     subseq (delivered ch) (drop (ch_from ch) sent) \<and>
     (ch_dropped ch = 0 \<longrightarrow> prefix (delivered ch) (drop (ch_from ch) sent)) \<and>
     (if ch_closed ch \<and> \<not> ch_cancelled ch then ends_stopped ch else never_stopped ch) \<and>
     (ch_cancelled ch \<longrightarrow> ch_closed ch)"

fun pending :: "reader_pc \<Rightarrow> byte list list" where
  "pending (ReadHave bs) = [bs]"
| "pending ReadIdle = []"
| "pending ReadStopped = []"

definition pump_refs :: "pump_pc \<Rightarrow> nat list" where
  "pump_refs pc = (case pc of PumpNotifying cs _ \<Rightarrow> cs | _ \<Rightarrow> [])"

definition sub_chans :: "liveSession \<Rightarrow> nat list" where
  "sub_chans ls = map snd (ls_subs ls)"

definition refs :: "liveSession \<Rightarrow> nat list" where
  "refs ls = sub_chans ls @ pump_refs (ls_pump ls)"

definition before_close :: "pump_pc \<Rightarrow> bool" where
  "before_close pc \<longleftrightarrow> (case pc of PumpWaiting \<Rightarrow> True | PumpDecided _ \<Rightarrow> True | _ \<Rightarrow> False)"

definition after_close :: "pump_pc \<Rightarrow> bool" where
  "after_close pc \<longleftrightarrow> (case pc of PumpUnregister _ \<Rightarrow> True | PumpDone _ \<Rightarrow> True | _ \<Rightarrow> False)"

text \<open>Subscriptions name distinct channels; the open channels are exactly those that a
  subscription or the pump still refers to.\<close>

definition chans_ok :: "liveSession \<Rightarrow> bool" where
  "chans_ok ls \<longleftrightarrow>
     ls_nextSub ls = length (ls_chans ls) \<and>
     gm_wf (ls_subs ls) \<and> (\<forall>e \<in> set (ls_subs ls). fst e = snd e) \<and>
     distinct (refs ls) \<and>
     (\<forall>c. c \<in> set (refs ls) \<longleftrightarrow> c < length (ls_chans ls) \<and> \<not> ch_closed (ls_chans ls ! c))"

definition streams_ok :: "liveSession \<Rightarrow> bool" where
  "streams_ok ls \<longleftrightarrow>
     ls_log ls = ls_sent ls @ pending (ls_reader ls) \<and>
     ring.tail_of (ls_sb ls) (ls_sent ls @ pending (ls_reader ls)) \<and>
     (\<forall>c < length (ls_chans ls). chan_ok (ls_sent ls) (ls_chans ls ! c)) \<and>
     (\<forall>c \<in> set (sub_chans ls). ch_dropped (ls_chans ls ! c) = 0 \<longrightarrow>
        delivered (ls_chans ls ! c) = drop (ch_from (ls_chans ls ! c)) (ls_sent ls))"

definition phase_ok :: "liveSession \<Rightarrow> bool" where
  "phase_ok ls \<longleftrightarrow>
     pty_ok (ls_pty ls) \<and>
     (ls_closed ls \<longleftrightarrow> \<not> before_close (ls_pump ls)) \<and>
     (ls_closed ls \<longrightarrow> ls_subs ls = []) \<and>
     SessState (ls_rec ls) = (if ls_closed ls then StateClosed else StateRunning) \<and>
     (after_close (ls_pump ls) \<longrightarrow> closeOnce (ls_pty ls)) \<and>
     (ls_pump ls \<noteq> PumpWaiting \<longrightarrow> done_closed (ls_pty ls) \<or> ls_reader ls = ReadStopped)"

definition live_ok :: "liveSession \<Rightarrow> bool" where
  "live_ok ls \<longleftrightarrow> chans_ok ls \<and> streams_ok ls \<and> phase_ok ls"

lemmas live_ok_defs = live_ok_def chans_ok_def streams_ok_def phase_ok_def refs_def sub_chans_def
lemmas pc_defs = pump_refs_def before_close_def after_close_def
lemmas chan_defs = chan_ok_def delivered_def ends_stopped_def never_stopped_def hist_def

subsection \<open>Channels\<close>

lemma chan_ok_new: "chan_ok sent (new_chan (length sent))"
  by (simp add: chan_defs new_chan_def subBuffer_def)

lemma new_chan_simps [simp]:
  "\<not> ch_closed (new_chan n)" "ch_from (new_chan n) = n"
  by (simp_all add: new_chan_def)

lemma delivered_new [simp]: "delivered (new_chan n) = []"
  by (simp add: delivered_def hist_def new_chan_def)

lemma chan_ok_more: "chan_ok sent ch \<Longrightarrow> chan_ok (sent @ [bs]) ch"
  by (auto simp: chan_ok_def intro: prefix_order.trans subseq_order.trans)

text \<open>What \<open>offer\<close> does to an open channel.\<close>

definition offered :: "SessionEvent \<Rightarrow> chan \<Rightarrow> chan" where
  "offered ev ch = (if length (ch_queue ch) < subBuffer then ch\<lparr>ch_queue := ch_queue ch @ [ev]\<rparr>
     else ch\<lparr>ch_dropped := ch_dropped ch + 1\<rparr>)"

lemma offer_open: "\<not> ch_closed ch \<Longrightarrow> offer ev ch = Next (offered ev ch)"
  by (simp add: offer_def offered_def)

lemma offered_simps [simp]:
  "ch_closed (offered ev ch) = ch_closed ch" "ch_from (offered ev ch) = ch_from ch"
  "ch_cancelled (offered ev ch) = ch_cancelled ch"
  by (simp_all add: offered_def)

lemma delivered_offered:
  "delivered (offered (data_event bs) ch) =
     (if length (ch_queue ch) < subBuffer then delivered ch @ [bs] else delivered ch)"
  by (simp add: delivered_def hist_def offered_def data_event_def)

lemma chan_ok_offered:
  assumes "chan_ok sent ch" "\<not> ch_closed ch"
    and "ch_dropped ch = 0 \<longrightarrow> delivered ch = drop (ch_from ch) sent"
  shows "chan_ok (sent @ [bs]) (offered (data_event bs) ch) \<and>
    (ch_dropped (offered (data_event bs) ch) = 0 \<longrightarrow>
       delivered (offered (data_event bs) ch) = drop (ch_from ch) (sent @ [bs]))"
proof (cases "length (ch_queue ch) < subBuffer")
  case True
  then have "never_stopped (offered (data_event bs) ch)"
    using assms(1,2) by (auto simp: chan_ok_def never_stopped_def hist_def offered_def data_event_def)
  then show ?thesis
    using assms True delivered_offered [of bs ch]
    by (auto simp: chan_ok_def offered_def list_emb_append_mono)
next
  case False
  then have "never_stopped (offered (data_event bs) ch)"
    using assms(1,2) by (auto simp: chan_ok_def never_stopped_def hist_def offered_def)
  then show ?thesis
    using assms False delivered_offered [of bs ch] chan_ok_more [OF assms(1), of bs]
    by (auto simp: chan_ok_def offered_def)
qed

lemma upd_chan_Next:
  "upd_chan c f chs = Next chs' \<longleftrightarrow> c < length chs \<and> (\<exists>ch. f (chs ! c) = Next ch \<and> chs' = chs[c := ch])"
  by (auto simp: upd_chan_def)

lemma upd_chan_Panic: "upd_chan c f chs = Panic \<longleftrightarrow> c < length chs \<and> f (chs ! c) = Panic"
  by (cases "f (chs ! c)") (auto simp: upd_chan_def)

lemma offer_all:
  assumes "distinct cs" "\<forall>c \<in> set cs. c < length chs \<and> \<not> ch_closed (chs ! c)"
  shows "\<exists>chs'. steps (\<lambda>c. upd_chan c (offer ev)) cs chs = Next chs' \<and> length chs' = length chs \<and>
    (\<forall>c < length chs. chs' ! c = (if c \<in> set cs then offered ev (chs ! c) else chs ! c))"
  using assms
proof (induction cs arbitrary: chs)
  case Nil
  then show ?case by simp
next
  case (Cons c cs)
  let ?chs = "chs[c := offered ev (chs ! c)]"
  have step: "upd_chan c (offer ev) chs = Next ?chs"
    using Cons.prems by (simp add: upd_chan_Next offer_open)
  have "\<forall>d \<in> set cs. d < length ?chs \<and> \<not> ch_closed (?chs ! d)"
    using Cons.prems by (auto simp: nth_list_update)
  from Cons.IH [OF _ this] Cons.prems obtain chs' where
    "steps (\<lambda>c. upd_chan c (offer ev)) cs ?chs = Next chs'" "length chs' = length chs"
    "\<forall>d < length chs. chs' ! d = (if d \<in> set cs then offered ev (?chs ! d) else ?chs ! d)"
    by auto
  then show ?case
    using step Cons.prems by (auto simp: nth_list_update)
qed

lemma recv_ok: "chan_ok sent ch \<Longrightarrow> recv ch = Next ch' \<Longrightarrow>
    chan_ok sent ch' \<and> hist ch' = hist ch \<and> ch_closed ch' = ch_closed ch \<and>
    ch_dropped ch' = ch_dropped ch \<and> ch_from ch' = ch_from ch"
proof -
  assume ok: "chan_ok sent ch" and run: "recv ch = Next ch'"
  have "hist ch' = hist ch" "length (ch_queue ch') \<le> length (ch_queue ch)" "ch_closed ch' = ch_closed ch"
    "ch_dropped ch' = ch_dropped ch" "ch_from ch' = ch_from ch" "ch_cancelled ch' = ch_cancelled ch"
    using run by (auto simp: recv_def hist_def split: list.splits if_splits)
  moreover from this have "delivered ch' = delivered ch" "ends_stopped ch' = ends_stopped ch"
    "never_stopped ch' = never_stopped ch"
    by (simp_all add: delivered_def ends_stopped_def never_stopped_def)
  ultimately show ?thesis using ok by (simp add: chan_ok_def)
qed

lemma recv_no_panic: "recv ch \<noteq> Panic"
  by (auto simp: recv_def split: list.splits)

definition cancelled :: "chan \<Rightarrow> chan" where
  "cancelled ch = ch\<lparr>ch_cancelled := True, ch_closed := True\<rparr>"

lemma cancel_ok: "\<not> ch_closed ch \<Longrightarrow> close_chan (ch\<lparr>ch_cancelled := True\<rparr>) = Next (cancelled ch)"
  by (simp add: close_chan_def cancelled_def)

lemma chan_ok_cancelled: "chan_ok sent ch \<Longrightarrow> \<not> ch_closed ch \<Longrightarrow> chan_ok sent (cancelled ch)"
  by (auto simp: chan_defs cancelled_def)

definition notified :: "chan \<Rightarrow> chan" where
  "notified ch = ch\<lparr>ch_queue := ch_queue ch @ [stopped_event], ch_closed := True\<rparr>"

lemma notify_eq:
  "\<not> ch_closed ch \<Longrightarrow> bind_outcome (send stopped_event ch) close_chan =
     (if length (ch_queue ch) < subBuffer then Next (notified ch) else Blocked)"
  by (simp add: send_def close_chan_def notified_def)

lemma chan_ok_notified:
  "chan_ok sent ch \<Longrightarrow> \<not> ch_closed ch \<Longrightarrow> length (ch_queue ch) < subBuffer \<Longrightarrow> chan_ok sent (notified ch)"
  by (auto simp: chan_defs notified_def stopped_event_def)

subsection \<open>Steps of a session\<close>

lemma live_ok_refs:
  "live_ok ls \<Longrightarrow> c \<in> set (refs ls) \<longleftrightarrow> c < length (ls_chans ls) \<and> \<not> ch_closed (ls_chans ls ! c)"
  by (simp add: live_ok_def chans_ok_def)

lemma new_live_ok:
  "pty_ok pty \<Longrightarrow> SessState r = StateRunning \<Longrightarrow> live_ok (new_live r pty lines)"
  by (simp add: live_ok_defs pc_defs new_live_def ring_new)

lemma read_ok:
  assumes "live_ok ls" "reader_read bs ls = Next ls'"
  shows "live_ok ls'"
proof -
  have idle: "ls_reader ls = ReadIdle"
    and ls': "ls' = ls\<lparr>ls_sb := sb_write (ls_sb ls) bs, ls_reader := ReadHave bs, ls_log := ls_log ls @ [bs]\<rparr>"
    using assms(2) by (simp_all add: reader_read_def split: if_splits)
  have "chans_ok ls'"
    using assms(1) by (simp add: ls' live_ok_def chans_ok_def refs_def sub_chans_def)
  moreover have "streams_ok ls'"
    using assms(1) idle by (simp add: ls' live_ok_def streams_ok_def sub_chans_def ring.tail_of_append)
  moreover have "phase_ok ls'"
    using assms(1) idle by (simp add: ls' live_ok_def phase_ok_def)
  ultimately show ?thesis by (simp add: live_ok_def)
qed

lemma stop_ok:
  assumes "live_ok ls" "reader_stop ls = Next ls'"
  shows "live_ok ls'"
proof -
  have idle: "ls_reader ls = ReadIdle" and ls': "ls' = ls\<lparr>ls_reader := ReadStopped\<rparr>"
    using assms(2) by (simp_all add: reader_stop_def split: if_splits)
  have "chans_ok ls'"
    using assms(1) by (simp add: ls' live_ok_def chans_ok_def refs_def sub_chans_def)
  moreover have "streams_ok ls'"
    using assms(1) idle by (simp add: ls' live_ok_def streams_ok_def sub_chans_def)
  moreover have "phase_ok ls'"
    using assms(1) by (simp add: ls' live_ok_def phase_ok_def)
  ultimately show ?thesis by (simp add: live_ok_def)
qed

lemma broadcast_eq:
  assumes "live_ok ls" "ls_reader ls = ReadHave bs"
  shows "\<exists>chs. reader_broadcast ls = Next (ls\<lparr>ls_reader := ReadIdle, ls_sent := ls_sent ls @ [bs], ls_chans := chs\<rparr>) \<and>
    length chs = length (ls_chans ls) \<and>
    (\<forall>c < length chs. chs ! c = (if c \<in> set (sub_chans ls) then offered (data_event bs) (ls_chans ls ! c)
       else ls_chans ls ! c))"
proof -
  have "distinct (sub_chans ls)" "\<forall>c \<in> set (sub_chans ls). c < length (ls_chans ls) \<and> \<not> ch_closed (ls_chans ls ! c)"
    using assms(1) live_ok_refs [OF assms(1)] by (auto simp: live_ok_def chans_ok_def refs_def)
  from offer_all [OF this, of "data_event bs"] obtain chs where
    "steps (\<lambda>c. upd_chan c (offer (data_event bs))) (sub_chans ls) (ls_chans ls) = Next chs"
    "length chs = length (ls_chans ls)"
    "\<forall>c < length (ls_chans ls). chs ! c = (if c \<in> set (sub_chans ls)
       then offered (data_event bs) (ls_chans ls ! c) else ls_chans ls ! c)" by blast
  then show ?thesis
    using assms(2) by (intro exI [of _ chs]) (simp add: reader_broadcast_def broadcast_def sub_chans_def)
qed

lemma broadcast_ok:
  assumes ok: "live_ok ls" and run: "reader_broadcast ls = Next ls'"
  shows "live_ok ls'"
proof -
  obtain bs where bs: "ls_reader ls = ReadHave bs"
    using run by (auto simp: reader_broadcast_def split: reader_pc.splits)
  from broadcast_eq [OF ok bs] obtain chs where
    ls': "ls' = ls\<lparr>ls_reader := ReadIdle, ls_sent := ls_sent ls @ [bs], ls_chans := chs\<rparr>"
    and len: "length chs = length (ls_chans ls)"
    and nth: "\<And>c. c < length chs \<Longrightarrow> chs ! c = (if c \<in> set (sub_chans ls)
       then offered (data_event bs) (ls_chans ls ! c) else ls_chans ls ! c)"
    using run by auto
  have subs: "c < length (ls_chans ls) \<and> \<not> ch_closed (ls_chans ls ! c)" if "c \<in> set (sub_chans ls)" for c
    using live_ok_refs [OF ok, of c] that by (simp add: refs_def)
  have same: "ch_closed (chs ! c) = ch_closed (ls_chans ls ! c)" if "c < length chs" for c
    using nth [OF that] by simp
  have "chans_ok ls'"
    using ok len same by (auto simp: ls' live_ok_def chans_ok_def refs_def sub_chans_def)
  moreover have "phase_ok ls'"
    using ok bs by (simp add: ls' live_ok_def phase_ok_def)
  moreover have "streams_ok ls'"
  proof -
    have st: "streams_ok ls" using ok by (simp add: live_ok_def)
    have chan: "chan_ok (ls_sent ls) (ls_chans ls ! c)" if "c < length (ls_chans ls)" for c
      using st that by (simp add: streams_ok_def)
    have new: "chan_ok (ls_sent ls @ [bs]) (chs ! c) \<and> (ch_dropped (chs ! c) = 0 \<longrightarrow>
        delivered (chs ! c) = drop (ch_from (chs ! c)) (ls_sent ls @ [bs]))" if "c \<in> set (sub_chans ls)" for c
      using chan_ok_offered [OF chan, of c bs] subs [OF that] st that len nth [of c]
      by (simp add: streams_ok_def)
    have old: "chan_ok (ls_sent ls @ [bs]) (chs ! c)" if "c < length chs" for c
      using new [of c] chan_ok_more [OF chan, of c bs] nth [OF that] that len
      by (cases "c \<in> set (sub_chans ls)") simp_all
    show ?thesis
      using st bs new old len by (simp add: ls' streams_ok_def sub_chans_def)
  qed
  ultimately show ?thesis by (simp add: live_ok_def)
qed

lemma subscribe_ok:
  assumes "live_ok ls"
  shows "live_ok (fst (subscribe_live ls))"
proof (cases "ls_closed ls")
  case True
  then show ?thesis using assms by (simp add: subscribe_live_def)
next
  case open_: False
  let ?n = "length (ls_chans ls)" and ?new = "new_chan (length (ls_sent ls))"
  define ls' where "ls' = fst (subscribe_live ls)"
  have next_: "ls_nextSub ls = ?n" and key: "\<forall>e \<in> set (ls_subs ls). fst e = snd e"
    using assms by (simp_all add: live_ok_def chans_ok_def)
  have fresh: "?n \<notin> set (refs ls)" using live_ok_refs [OF assms] by simp
  then have "?n \<notin> fst ` set (ls_subs ls)"
    using key by (force simp: refs_def sub_chans_def)
  then have put: "gm_put ?n ?n (ls_subs ls) = ls_subs ls @ [(?n, ?n)]"
    by (rule gm_put_new)
  have ls': "ls' = ls\<lparr>ls_nextSub := ?n + 1, ls_chans := ls_chans ls @ [?new], ls_subs := ls_subs ls @ [(?n, ?n)]\<rparr>"
    using open_ next_ put by (simp add: ls'_def subscribe_live_def)
  have "gm_wf (ls_subs ls @ [(?n, ?n)])"
    using gm_wf_put [of "ls_subs ls" ?n ?n] assms put by (simp add: live_ok_def chans_ok_def)
  moreover have "\<And>c. c \<in> set (refs ls') \<longleftrightarrow> c = ?n \<or> c \<in> set (refs ls)"
    by (auto simp: ls' refs_def sub_chans_def)
  ultimately have "chans_ok ls'"
    using assms fresh live_ok_refs [OF assms] key
    by (auto simp: ls' live_ok_def chans_ok_def refs_def sub_chans_def nth_append less_Suc_eq)
  moreover have "streams_ok ls'"
    using assms chan_ok_new [of "ls_sent ls"] live_ok_refs [OF assms]
    by (auto simp: ls' live_ok_def streams_ok_def sub_chans_def refs_def nth_append less_Suc_eq)
  moreover have "phase_ok ls'"
    using assms open_ by (simp add: ls' live_ok_def phase_ok_def)
  ultimately show ?thesis by (simp add: live_ok_def ls'_def)
qed

lemma live_update:
  assumes "live_ok ls" "c < length (ls_chans ls)" "chan_ok (ls_sent ls) ch"
    and "ch_closed ch = ch_closed (ls_chans ls ! c)"
    and "delivered ch = delivered (ls_chans ls ! c)" "ch_dropped ch = ch_dropped (ls_chans ls ! c)"
    and "ch_from ch = ch_from (ls_chans ls ! c)"
  shows "live_ok (ls\<lparr>ls_chans := (ls_chans ls)[c := ch]\<rparr>)"
proof -
  let ?ls = "ls\<lparr>ls_chans := (ls_chans ls)[c := ch]\<rparr>"
  have "chans_ok ?ls"
    using assms by (auto simp: live_ok_def chans_ok_def refs_def sub_chans_def nth_list_update)
  moreover have "streams_ok ?ls"
    using assms by (auto simp: live_ok_def streams_ok_def sub_chans_def nth_list_update)
  moreover have "phase_ok ?ls"
    using assms(1) by (simp add: live_ok_def phase_ok_def)
  ultimately show ?thesis by (simp add: live_ok_def)
qed

text \<open>Closing an open channel and dropping the one reference to it.\<close>

lemma live_close:
  assumes "live_ok ls" and c: "c \<in> set (refs ls)" and ch: "chan_ok (ls_sent ls) ch" "ch_closed ch"
    and subs: "gm_wf subs" "set subs \<subseteq> set (ls_subs ls)"
    and refs: "distinct (map snd subs @ pump_refs pc)" "set (map snd subs @ pump_refs pc) = set (refs ls) - {c}"
    and pc: "before_close pc = before_close (ls_pump ls)" "after_close pc = after_close (ls_pump ls)"
      "pc = PumpWaiting \<longleftrightarrow> ls_pump ls = PumpWaiting"
  shows "live_ok (ls\<lparr>ls_chans := (ls_chans ls)[c := ch], ls_subs := subs, ls_pump := pc\<rparr>)"
proof -
  let ?ls = "ls\<lparr>ls_chans := (ls_chans ls)[c := ch], ls_subs := subs, ls_pump := pc\<rparr>"
  have "d \<in> set (refs ?ls) \<longleftrightarrow> d < length (ls_chans ls) \<and> \<not> ch_closed ((ls_chans ls)[c := ch] ! d)" for d
    using live_ok_refs [OF assms(1)] refs(2) c ch(2)
    by (cases "d = c") (simp_all add: refs_def sub_chans_def)
  then have "chans_ok ?ls"
    using assms(1) subs refs(1)
    by (auto simp: live_ok_def chans_ok_def refs_def sub_chans_def)
  moreover have "streams_ok ?ls"
  proof -
    have "\<forall>e \<in> set subs. e \<in> set (ls_subs ls) \<and> snd e \<noteq> c"
      using subs(2) refs(2) by force
    moreover have "c < length (ls_chans ls)" using live_ok_refs [OF assms(1)] c by simp
    ultimately show ?thesis
      using assms(1) ch(1)
      by (auto simp: live_ok_def streams_ok_def sub_chans_def nth_list_update)
  qed
  moreover have "phase_ok ?ls"
    using assms(1) pc subs(2) by (auto simp: live_ok_def phase_ok_def)
  ultimately show ?thesis by (simp add: live_ok_def)
qed

lemma cancel_step:
  assumes ok: "live_ok ls"
  shows "\<exists>ls'. cancel_live n ls = Next ls' \<and> live_ok ls'"
proof (cases "gm_get (ls_subs ls) n")
  case None
  then show ?thesis using ok by (simp add: cancel_live_def)
next
  case (Some c)
  let ?ch = "cancelled (ls_chans ls ! c)" and ?subs = "gm_del n (ls_subs ls)"
  have wf: "gm_wf (ls_subs ls)" and keys: "\<forall>e \<in> set (ls_subs ls). fst e = snd e"
    and dist: "distinct (refs ls)"
    using ok by (simp_all add: live_ok_def chans_ok_def)
  from map_of_SomeD [OF Some] have mem: "(n, c) \<in> set (ls_subs ls)" and n: "n = c"
    using keys by auto
  then have c: "c \<in> set (refs ls)" by (force simp: refs_def sub_chans_def)
  have live: "c < length (ls_chans ls)" "\<not> ch_closed (ls_chans ls ! c)"
    using live_ok_refs [OF ok] c by auto
  have ls': "cancel_live n ls = Next (ls\<lparr>ls_chans := (ls_chans ls)[c := ?ch], ls_subs := ?subs, ls_pump := ls_pump ls\<rparr>)"
    using Some live by (simp add: cancel_live_def upd_chan_def cancel_ok)
  have sub: "map snd ?subs = filter (\<lambda>x. x \<noteq> c) (sub_chans ls)"
    using keys n unfolding sub_chans_def
    by (induction "ls_subs ls") (auto simp: AList.delete_eq filter_map comp_def intro!: arg_cong [where f = "map snd"] filter_cong)
  have "c \<notin> set (pump_refs (ls_pump ls))"
    using dist mem by (force simp: refs_def sub_chans_def)
  then have "live_ok (ls\<lparr>ls_chans := (ls_chans ls)[c := ?ch], ls_subs := ?subs, ls_pump := ls_pump ls\<rparr>)"
    using dist wf sub live ok chan_ok_cancelled
    by (intro live_close [OF ok c])
      (auto simp: cancelled_def live_ok_def streams_ok_def refs_def AList.delete_eq)
  with ls' show ?thesis by blast
qed

lemma recv_step:
  assumes ok: "live_ok ls"
  shows "live_step (LRecv c) ls \<noteq> Panic \<and> (\<forall>ls'. live_step (LRecv c) ls = Next ls' \<longrightarrow> live_ok ls')"
proof -
  have "live_ok ls'" if run: "live_step (LRecv c) ls = Next ls'" for ls'
  proof -
    from run obtain ch where c: "c < length (ls_chans ls)" "recv (ls_chans ls ! c) = Next ch"
      and ls': "ls' = ls\<lparr>ls_chans := (ls_chans ls)[c := ch]\<rparr>"
      by (auto simp: upd_chan_Next)
    have "chan_ok (ls_sent ls) (ls_chans ls ! c)"
      using ok c(1) by (simp add: live_ok_def streams_ok_def)
    from recv_ok [OF this c(2)] show ?thesis
      unfolding ls' using c(1) by (intro live_update [OF ok]) (simp_all add: delivered_def)
  qed
  moreover have "live_step (LRecv c) ls \<noteq> Panic"
    using recv_no_panic by (cases "upd_chan c recv (ls_chans ls)") (auto simp: upd_chan_Panic)
  ultimately show ?thesis by blast
qed

lemma pump_notify:
  assumes ok: "live_ok ls" and pc: "ls_pump ls = PumpNotifying (c # cs) b"
  shows "c < length (ls_chans ls) \<and> \<not> ch_closed (ls_chans ls ! c) \<and>
    pump_step ls = (if length (ch_queue (ls_chans ls ! c)) < subBuffer
      then Next (ls\<lparr>ls_chans := (ls_chans ls)[c := notified (ls_chans ls ! c)], ls_pump := PumpNotifying cs b\<rparr>)
      else Blocked)"
proof -
  have "c \<in> set (refs ls)" by (simp add: refs_def pc pump_refs_def)
  then have "c < length (ls_chans ls) \<and> \<not> ch_closed (ls_chans ls ! c)"
    using live_ok_refs [OF ok] by simp
  then show ?thesis
    by (simp add: pump_step.simps pc upd_chan_def notify_eq)
qed

lemma pump_ok:
  assumes ok: "live_ok ls"
  shows "pump_step ls \<noteq> Panic \<and> (\<forall>ls'. pump_step ls = Next ls' \<longrightarrow> live_ok ls')"
proof (cases "ls_pump ls")
  case PumpWaiting
  then show ?thesis
    using ok by (auto simp: pump_step.simps live_ok_defs pc_defs)
next
  case (PumpDecided b)
  then have "\<not> ls_closed ls" using ok by (simp add: live_ok_def phase_ok_def before_close_def)
  then show ?thesis
    using ok PumpDecided by (auto simp: pump_step.simps live_ok_defs pc_defs)
next
  case (PumpNotifying cs b)
  show ?thesis
  proof (cases cs)
    case Nil
    have pty: "pty_ok (ls_pty ls)" using ok by (simp add: live_ok_def phase_ok_def)
    have "pump_step ls = Next (ls\<lparr>ls_pty := pty_closed (ls_pty ls), ls_pump := PumpUnregister b\<rparr>)"
      using PumpNotifying Nil pty_Close_closed [OF pty] by (simp add: pump_step.simps)
    moreover have "closeOnce (pty_closed (ls_pty ls))"
      using pty by (auto simp: pty_closed_def pty_ok_def pty_defs)
    ultimately show ?thesis
      using ok PumpNotifying Nil pty.close_ok [OF pty] pty.close_done [OF pty]
      by (auto simp: live_ok_defs pc_defs)
  next
    case (Cons c cs')
    note pc = PumpNotifying [unfolded Cons]
    from pump_notify [OF ok pc] have live: "c < length (ls_chans ls)" "\<not> ch_closed (ls_chans ls ! c)"
      and step: "pump_step ls = (if length (ch_queue (ls_chans ls ! c)) < subBuffer
        then Next (ls\<lparr>ls_chans := (ls_chans ls)[c := notified (ls_chans ls ! c)], ls_pump := PumpNotifying cs' b\<rparr>)
        else Blocked)" by auto
    have chan: "chan_ok (ls_sent ls) (ls_chans ls ! c)"
      using ok live(1) by (simp add: live_ok_def streams_ok_def)
    have subs: "ls_subs ls = []" and dist: "distinct (refs ls)"
      using ok pc by (simp_all add: live_ok_def phase_ok_def chans_ok_def before_close_def)
    have "live_ok (ls\<lparr>ls_chans := (ls_chans ls)[c := notified (ls_chans ls ! c)],
        ls_subs := ls_subs ls, ls_pump := PumpNotifying cs' b\<rparr>)"
      if "length (ch_queue (ls_chans ls ! c)) < subBuffer"
      using chan_ok_notified [OF chan live(2) that] dist subs pc
      by (intro live_close [OF ok])
        (auto simp: notified_def refs_def sub_chans_def pump_refs_def before_close_def after_close_def)
    then show ?thesis by (simp add: step)
  qed
next
  case (PumpUnregister b)
  then show ?thesis by (simp add: pump_step.simps)
next
  case (PumpDone b)
  then show ?thesis by (simp add: pump_step.simps)
qed

lemma live_step_ok:
  assumes ok: "live_ok ls"
  shows "live_step a ls \<noteq> Panic \<and> (\<forall>ls'. live_step a ls = Next ls' \<longrightarrow> live_ok ls')"
proof (cases a)
  case (LRead bs)
  then show ?thesis using read_ok [OF ok, of bs] by (auto simp: reader_read_def)
next
  case LBroadcast
  have "reader_broadcast ls \<noteq> Panic"
    using broadcast_eq [OF ok] by (cases "ls_reader ls") (force simp: reader_broadcast_def)+
  then show ?thesis using LBroadcast broadcast_ok [OF ok] by auto
next
  case LReadErr
  then show ?thesis using stop_ok [OF ok] by (auto simp: reader_stop_def)
next
  case LPump
  then show ?thesis using pump_ok [OF ok] by simp
next
  case LIntentional
  then show ?thesis using ok by (simp add: live_ok_defs)
next
  case (LPty e)
  have "pty_ok (ls_pty ls)" using ok by (simp add: live_ok_def phase_ok_def)
  from pty_apply_ok [OF this, of e] obtain p where
    p: "pty_apply e (ls_pty ls) = Some p" "pty_ok p" "done_closed (ls_pty ls) \<longrightarrow> done_closed p"
      "closeOnce (ls_pty ls) \<longrightarrow> closeOnce p" by blast
  have "chans_ok (ls\<lparr>ls_pty := p\<rparr>)"
    using ok by (simp add: live_ok_def chans_ok_def refs_def sub_chans_def)
  moreover have "streams_ok (ls\<lparr>ls_pty := p\<rparr>)"
    using ok by (simp add: live_ok_def streams_ok_def sub_chans_def)
  moreover have "phase_ok (ls\<lparr>ls_pty := p\<rparr>)"
    using ok p by (auto simp: live_ok_def phase_ok_def)
  ultimately show ?thesis using LPty p(1) by (simp add: live_ok_def)
next
  case LSubscribe
  then show ?thesis using subscribe_ok [OF ok] by simp
next
  case (LCancel n)
  then show ?thesis using cancel_step [OF ok, of n] by auto
next
  case (LRecv c)
  then show ?thesis using recv_step [OF ok, of c] by simp
next
  case (LSize s)
  then show ?thesis using ok by (simp add: live_ok_defs)
next
  case (LTitle t)
  then show ?thesis using ok by (simp add: live_ok_defs)
qed

text \<open>What no step of a session changes.\<close>

definition ident :: "liveSession \<Rightarrow> string \<times> string \<times> Key \<times> int" where
  "ident ls = (SessID (ls_rec ls), SessHost (ls_rec ls), SessProject (ls_rec ls), SessCreated (ls_rec ls))"

lemma upd_chans_ident:
  "bind_outcome x (\<lambda>chs. Next (ls\<lparr>ls_chans := chs\<rparr>)) = Next ls' \<Longrightarrow> ident ls' = ident ls \<and> ls_pump ls' = ls_pump ls"
  by (auto simp: ident_def)

lemma pump_ident: "pump_step ls = Next ls' \<Longrightarrow> ident ls' = ident ls"
  by (auto simp: pump_step.simps ident_def split: pump_pc.splits list.splits if_splits option.splits)

lemma live_step_ident: "live_step a ls = Next ls' \<Longrightarrow> ident ls' = ident ls"
proof (cases a)
  case LPump
  then show "live_step a ls = Next ls' \<Longrightarrow> ?thesis" by (simp add: pump_ident)
qed (auto simp: ident_def reader_read_def reader_broadcast_def broadcast_def reader_stop_def
      subscribe_live_def cancel_live_def split: if_splits reader_pc.splits option.splits)

definition is_done :: "liveSession \<Rightarrow> bool" where
  "is_done ls \<longleftrightarrow> (case ls_pump ls of PumpDone _ \<Rightarrow> True | _ \<Rightarrow> False)"

lemma live_step_pump: "live_step a ls = Next ls' \<Longrightarrow> a \<noteq> LPump \<Longrightarrow> ls_pump ls' = ls_pump ls"
  by (cases a) (auto simp: reader_read_def reader_broadcast_def broadcast_def reader_stop_def
      subscribe_live_def cancel_live_def split: if_splits reader_pc.splits option.splits)

lemma pump_not_done:
  "live_ok ls \<Longrightarrow> pump_step ls = Next ls' \<Longrightarrow> \<not> is_done ls \<and> \<not> is_done ls'"
  by (auto simp: pump_step.simps is_done_def live_ok_def phase_ok_def before_close_def
      split: pump_pc.splits list.splits if_splits option.splits)

lemma live_step_done:
  "live_ok ls \<Longrightarrow> live_step a ls = Next ls' \<Longrightarrow> is_done ls' = is_done ls"
  by (cases "a = LPump") (auto dest: pump_not_done live_step_pump simp: is_done_def)

lemma live_step_stays:
  "live_ok ls \<Longrightarrow> live_step a ls = Next ls' \<Longrightarrow> ls_pump ls = PumpDone b \<Longrightarrow> ls_pump ls' = PumpDone b"
  using pump_not_done [of ls ls'] live_step_pump [of a ls ls'] by (cases "a = LPump") (auto simp: is_done_def)

section \<open>The invariant of the manager\<close>

definition ids :: "manager \<Rightarrow> string list" where
  "ids m = map (\<lambda>ls. SessID (ls_rec ls)) (m_heap m)"

definition maps_ok :: "manager \<Rightarrow> bool" where
  "maps_ok m \<longleftrightarrow>
     distinct (ids m) \<and> gm_wf (m_sessions m) \<and> gm_wf (m_byKey m) \<and>
     (\<forall>i p. gm_get (m_sessions m) i = Some p \<longleftrightarrow>
        p < length (m_heap m) \<and> SessID (session_at m p) = i \<and> \<not> is_done (m_heap m ! p)) \<and>
     (\<forall>k i. gm_get (m_byKey m) k = Some i \<longrightarrow>
        (\<exists>p. gm_get (m_sessions m) i = Some p \<and> SessProject (session_at m p) = k))"

definition hooks_ok :: "manager \<Rightarrow> bool" where
  "hooks_ok m \<longleftrightarrow> distinct (map fst (m_hooks m)) \<and>
     (\<forall>e \<in> set (m_hooks m). fst e < length (m_heap m) \<and>
        ls_pump (m_heap m ! fst e) = PumpDone False \<and> SessHost (session_at m (fst e)) = snd e)"

definition mgr_ok :: "manager \<Rightarrow> bool" where
  "mgr_ok m \<longleftrightarrow> (\<forall>p < length (m_heap m). live_ok (m_heap m ! p)) \<and> maps_ok m \<and> hooks_ok m"

text \<open>
  What the environment guarantees of a new session: the dialer returns a PTY in a good state,
  and the random ID of 64 bits was not drawn before.
\<close>

definition admissible :: "sm_action \<Rightarrow> manager \<Rightarrow> bool" where
  "admissible a m = (case a of Register i _ _ _ pty \<Rightarrow> i \<notin> set (ids m) \<and> pty_ok pty | _ \<Rightarrow> True)"

inductive mgr_reach :: "manager \<Rightarrow> bool" where
  mgr_init: "mgr_reach NewManager"
| mgr_step: "mgr_reach m \<Longrightarrow> admissible a m \<Longrightarrow> sm_step a m = Next m' \<Longrightarrow> mgr_reach m'"

lemma mgr_ok_new: "mgr_ok NewManager"
  by (simp add: mgr_ok_def maps_ok_def hooks_ok_def NewManager_def ids_def)

lemma mgr_key:
  "mgr_ok m \<Longrightarrow> gm_get (m_byKey m) k = Some i \<Longrightarrow>
     \<exists>p. gm_get (m_sessions m) i = Some p \<and> SessProject (session_at m p) = k"
  unfolding mgr_ok_def maps_ok_def by blast

lemma mgr_sess:
  "mgr_ok m \<Longrightarrow> gm_get (m_sessions m) i = Some p \<longleftrightarrow>
     p < length (m_heap m) \<and> SessID (session_at m p) = i \<and> \<not> is_done (m_heap m ! p)"
  unfolding mgr_ok_def maps_ok_def by blast

text \<open>Replacing one session by a state of the same identity.\<close>

lemma mgr_ok_update:
  assumes ok: "mgr_ok m" and p: "p < length (m_heap m)"
    and ls: "live_ok ls" "ident ls = ident (m_heap m ! p)" "is_done ls = is_done (m_heap m ! p)"
    and stays: "\<And>b. ls_pump (m_heap m ! p) = PumpDone b \<Longrightarrow> ls_pump ls = PumpDone b"
  shows "mgr_ok (m\<lparr>m_heap := (m_heap m)[p := ls]\<rparr>)"
proof -
  let ?m = "m\<lparr>m_heap := (m_heap m)[p := ls]\<rparr>"
  have id: "SessID (ls_rec ls) = SessID (session_at m p)"
    and at: "SessID (session_at ?m q) = SessID (session_at m q)"
      "SessHost (session_at ?m q) = SessHost (session_at m q)"
      "SessProject (session_at ?m q) = SessProject (session_at m q)" for q
    using ls(2) p by (cases "p = q"; simp add: ident_def session_at_def)+
  have "ids ?m = ids m"
    using id p by (simp add: ids_def map_update session_at_def list_update_same_conv)
  moreover have "is_done (m_heap ?m ! q) = is_done (m_heap m ! q)" for q
    using ls(3) p by (cases "p = q") simp_all
  ultimately have "maps_ok ?m"
    using ok at unfolding mgr_ok_def maps_ok_def by (simp add: at) metis
  moreover have "hooks_ok ?m"
    using ok at stays p by (auto simp: mgr_ok_def hooks_ok_def nth_list_update)
  ultimately show ?thesis
    using ok ls(1) using p by (auto simp: mgr_ok_def nth_list_update)
qed

lemma mgr_ok_live:
  assumes "mgr_ok m" "on_live p (live_step a) m = Next m'"
  shows "mgr_ok m'"
proof -
  from assms(2) obtain ls where p: "p < length (m_heap m)"
    and ls: "live_step a (m_heap m ! p) = Next ls" and m': "m' = m\<lparr>m_heap := (m_heap m)[p := ls]\<rparr>"
    by (auto simp: on_live_def split: if_splits)
  have ok: "live_ok (m_heap m ! p)" using assms(1) p by (simp add: mgr_ok_def)
  show ?thesis
    unfolding m' using live_step_ok [OF ok] live_step_ident [OF ls] live_step_done [OF ok ls]
      live_step_stays [OF ok ls] ls
    by (intro mgr_ok_update [OF assms(1) p]) auto
qed

lemma mgr_ok_register:
  assumes ok: "mgr_ok m" and fresh: "SessID (ls_rec ls) \<notin> set (ids m)"
    and ls: "live_ok ls" "\<not> is_done ls"
  shows "mgr_ok (register_live ls m)"
proof -
  let ?m = "register_live ls m" and ?n = "length (m_heap m)"
  have at: "session_at ?m p = (if p = ?n then ls_rec ls else session_at m p)"
    "m_heap ?m ! p = (if p = ?n then ls else m_heap m ! p)" if "p \<le> ?n" for p
    using that by (auto simp: register_live_def session_at_def nth_append)
  have len: "length (m_heap ?m) = Suc ?n" by (simp add: register_live_def)
  have old: "SessID (session_at m p) \<noteq> SessID (ls_rec ls)" if "p < ?n" for p
    using fresh that unfolding ids_def session_at_def by (metis (mono_tags, lifting) length_map nth_map nth_mem)
  have sess: "gm_get (m_sessions m) i = Some p \<longleftrightarrow>
      p < ?n \<and> SessID (session_at m p) = i \<and> \<not> is_done (m_heap m ! p)" for i p
    using ok by (simp add: mgr_ok_def maps_ok_def)
  have "gm_get (m_sessions ?m) i = Some p \<longleftrightarrow>
      p < Suc ?n \<and> SessID (session_at ?m p) = i \<and> \<not> is_done (m_heap ?m ! p)" for i p
  proof (cases "p = ?n")
    case True
    then show ?thesis
      using at [of p] ls(2) sess [of i p] by (auto simp: register_live_def gomap_simps)
  next
    case False
    then show ?thesis
      using at [of p] sess [of i p] old [of p] by (auto simp: register_live_def gomap_simps less_Suc_eq)
  qed
  moreover have "\<exists>p. gm_get (m_sessions ?m) i = Some p \<and> SessProject (session_at ?m p) = k"
    if k: "gm_get (m_byKey ?m) k = Some i" for k i
  proof (cases "k = SessProject (ls_rec ls)")
    case True
    then have "i = SessID (ls_rec ls)" using k by (simp add: register_live_def gomap_simps)
    then show ?thesis
      using True at [of ?n] by (intro exI [of _ ?n]) (simp add: register_live_def gomap_simps)
  next
    case False
    then have "gm_get (m_byKey m) k = Some i" using k by (simp add: register_live_def gomap_simps)
    then obtain p where p: "gm_get (m_sessions m) i = Some p" "SessProject (session_at m p) = k"
      using mgr_key [OF ok] by blast
    then have "p < ?n" "i \<noteq> SessID (ls_rec ls)" using sess [of i p] old [of p] by auto
    then show ?thesis
      using p at [of p] by (intro exI [of _ p]) (simp add: register_live_def gomap_simps)
  qed
  moreover have "distinct (ids ?m)" "gm_wf (m_sessions ?m)" "gm_wf (m_byKey ?m)"
    using ok fresh by (simp_all add: mgr_ok_def maps_ok_def ids_def register_live_def)
  ultimately have "maps_ok ?m" by (simp add: maps_ok_def len)
  moreover have "hooks_ok ?m"
    using ok at by (auto simp: mgr_ok_def hooks_ok_def register_live_def nth_append session_at_def)
  moreover have "live_ok (m_heap ?m ! p)" if "p < Suc ?n" for p
    using ok ls(1) at [of p] that by (auto simp: mgr_ok_def less_Suc_eq)
  ultimately show ?thesis by (simp add: mgr_ok_def len)
qed

lemma unregister_eq:
  "unregister p m = Next m' \<longleftrightarrow> p < length (m_heap m) \<and> (\<exists>b. ls_pump (m_heap m ! p) = PumpUnregister b \<and>
     m' = m\<lparr>m_heap := (m_heap m)[p := (m_heap m ! p)\<lparr>ls_pump := PumpDone b\<rparr>],
            m_sessions := gm_del (SessID (session_at m p)) (m_sessions m),
            m_byKey := gm_del (SessProject (session_at m p)) (m_byKey m),
            m_hooks := (if \<not> b \<and> m_hook m then m_hooks m @ [(p, SessHost (session_at m p))] else m_hooks m)\<rparr>)"
  by (auto simp: unregister_def Let_def session_at_def split: pump_pc.splits)

lemma done_live_ok: "live_ok ls \<Longrightarrow> ls_pump ls = PumpUnregister b \<Longrightarrow> live_ok (ls\<lparr>ls_pump := PumpDone b\<rparr>)"
  by (auto simp: live_ok_defs pc_defs)

lemma mgr_ok_unregister:
  assumes ok: "mgr_ok m" and run: "unregister p m = Next m'"
  shows "mgr_ok m'"
proof -
  obtain b where p: "p < length (m_heap m)" "ls_pump (m_heap m ! p) = PumpUnregister b" and
    m': "m' = m\<lparr>m_heap := (m_heap m)[p := (m_heap m ! p)\<lparr>ls_pump := PumpDone b\<rparr>],
            m_sessions := gm_del (SessID (session_at m p)) (m_sessions m),
            m_byKey := gm_del (SessProject (session_at m p)) (m_byKey m),
            m_hooks := (if \<not> b \<and> m_hook m then m_hooks m @ [(p, SessHost (session_at m p))] else m_hooks m)\<rparr>"
    using run unfolding unregister_eq by blast
  have at: "session_at m' q = session_at m q" for q
    using p by (cases "p = q") (simp_all add: m' session_at_def)
  have dn: "is_done (m_heap m' ! q) \<longleftrightarrow> q = p \<or> is_done (m_heap m ! q)" for q
    using p by (cases "p = q") (simp_all add: m' is_done_def)
  have mids: "ids m' = ids m"
    using p by (simp add: m' ids_def map_update list_update_same_conv)
  have sess: "gm_get (m_sessions m) i = Some q \<longleftrightarrow>
      q < length (m_heap m) \<and> SessID (session_at m q) = i \<and> \<not> is_done (m_heap m ! q)" for i q
    using ok by (simp add: mgr_ok_def maps_ok_def)
  have inj: "q = p" if "q < length (m_heap m)" "SessID (session_at m q) = SessID (session_at m p)" for q
    using ok p(1) that by (auto simp: mgr_ok_def maps_ok_def ids_def session_at_def distinct_conv_nth)
  have "gm_get (m_sessions m') i = Some q \<longleftrightarrow>
      q < length (m_heap m') \<and> SessID (session_at m' q) = i \<and> \<not> is_done (m_heap m' ! q)" for i q
    using sess [of i q] inj [of q] unfolding dn at by (auto simp: m' gomap_simps)
  moreover have "\<exists>q. gm_get (m_sessions m') i = Some q \<and> SessProject (session_at m' q) = k"
    if k: "gm_get (m_byKey m') k = Some i" for k i
  proof -
    have "k \<noteq> SessProject (session_at m p)" "gm_get (m_byKey m) k = Some i"
      using k by (auto simp: m' gomap_simps split: if_splits)
    then obtain q where q: "gm_get (m_sessions m) i = Some q" "SessProject (session_at m q) = k" "q \<noteq> p"
      using mgr_key [OF ok] by blast
    then have "i \<noteq> SessID (session_at m p)" using sess [of i q] inj [of q] by auto
    then show ?thesis unfolding at using q by (intro exI [of _ q]) (simp add: m' gomap_simps)
  qed
  ultimately have "maps_ok m'"
    using ok mids by (simp add: mgr_ok_def maps_ok_def m')
  moreover have "hooks_ok m'"
  proof -
    have fresh: "p \<notin> fst ` set (m_hooks m)" using ok p(2) by (auto simp: mgr_ok_def hooks_ok_def)
    have old: "fst e < length (m_heap m) \<and> ls_pump (m_heap m ! fst e) = PumpDone False \<and>
        SessHost (session_at m (fst e)) = snd e" if "e \<in> set (m_hooks m)" for e
      using ok that by (simp add: mgr_ok_def hooks_ok_def)
    have "fst e < length (m_heap m') \<and> ls_pump (m_heap m' ! fst e) = PumpDone False \<and>
        SessHost (session_at m' (fst e)) = snd e" if "e \<in> set (m_hooks m')" for e
    proof (cases "e \<in> set (m_hooks m)")
      case True
      then have "fst e \<noteq> p" using fresh by force
      then show ?thesis using old [OF True] by (simp add: at) (simp add: m')
    next
      case False
      then have "e = (p, SessHost (session_at m p)) \<and> \<not> b" using that by (auto simp: m' split: if_splits)
      then show ?thesis using p by (simp add: at) (simp add: m')
    qed
    moreover have "distinct (map fst (m_hooks m'))"
      using ok fresh by (simp add: m' mgr_ok_def hooks_ok_def)
    ultimately show ?thesis by (simp add: hooks_ok_def)
  qed
  moreover have "live_ok (m_heap m' ! q)" if "q < length (m_heap m')" for q
    using ok p that done_live_ok by (cases "p = q") (auto simp: m' mgr_ok_def)
  ultimately show ?thesis by (simp add: mgr_ok_def)
qed

lemma ls_rec_new [simp]: "ls_rec (new_live r pty lines) = r"
  by (simp add: new_live_def)

lemma new_pump [simp]: "ls_pump (new_live r pty lines) = PumpWaiting"
  by (simp add: new_live_def)

lemma mgr_ok_register_new:
  assumes "mgr_ok m" "i \<notin> set (ids m)" "pty_ok pty"
    and "m' = register_live (new_live ((new_session i spec now)\<lparr>SessState := StateRunning\<rparr>) pty lines) m"
  shows "mgr_ok m'"
  unfolding assms(4)
proof (rule mgr_ok_register [OF assms(1)])
  let ?r = "(new_session i spec now)\<lparr>SessState := StateRunning\<rparr>"
  show "SessID (ls_rec (new_live ?r pty lines)) \<notin> set (ids m)"
    using assms(2) by (simp add: new_session_def)
  show "live_ok (new_live ?r pty lines)" by (rule new_live_ok [OF assms(3)]) simp
  show "\<not> is_done (new_live ?r pty lines)" by (simp add: is_done_def)
qed

lemma sm_step_ok:
  assumes "mgr_ok m" "admissible a m" "sm_step a m = Next m'"
  shows "mgr_ok m'"
proof (cases a)
  case (Register i spec now lines pty)
  then show ?thesis
    using assms by (intro mgr_ok_register_new [OF assms(1), of i pty _ spec now lines]) (auto simp: admissible_def)
next
  case (OnLive p la)
  then show ?thesis using assms mgr_ok_live by simp
next
  case (Unregister p)
  then show ?thesis using assms mgr_ok_unregister by simp
next
  case (HookSet b)
  have "ids (m\<lparr>m_hook := b\<rparr>) = ids m" "session_at (m\<lparr>m_hook := b\<rparr>) = session_at m"
    by (simp_all add: ids_def session_at_def fun_eq_iff)
  then have "maps_ok (m\<lparr>m_hook := b\<rparr>) = maps_ok m" "hooks_ok (m\<lparr>m_hook := b\<rparr>) = hooks_ok m"
    unfolding maps_ok_def hooks_ok_def by simp_all
  then show ?thesis
    using assms HookSet by (auto simp: SetHostDownHook_def mgr_ok_def)
qed

lemma mgr_reach_ok: "mgr_reach m \<Longrightarrow> mgr_ok m"
  by (induction rule: mgr_reach.induct) (auto intro: mgr_ok_new sm_step_ok)

text \<open>A run of admissible actions stays reachable: how a concrete state is shown to be one.\<close>

fun adm_run :: "sm_action list \<Rightarrow> manager \<Rightarrow> bool" where
  "adm_run [] m = True"
| "adm_run (a # as) m = (admissible a m \<and> (case sm_step a m of Next m' \<Rightarrow> adm_run as m' | _ \<Rightarrow> False))"

lemma mgr_reach_run: "mgr_reach m \<Longrightarrow> adm_run as m \<Longrightarrow> sm_run as m = Next m' \<Longrightarrow> mgr_reach m'"
proof (induction as arbitrary: m)
  case Nil
  then show ?case by simp
next
  case (Cons a as)
  then show ?case by (auto intro: mgr_step split: outcome.splits)
qed

section \<open>What the server relies on\<close>

lemma mgr_ok_sessions:
  assumes "mgr_ok m" "p \<in> set (map snd (m_sessions m))"
  shows "p < length (m_heap m) \<and> gm_get (m_sessions m) (SessID (session_at m p)) = Some p"
proof -
  have "gm_wf (m_sessions m)" using assms(1) by (simp add: mgr_ok_def maps_ok_def)
  then obtain i where "gm_get (m_sessions m) i = Some p"
    using assms(2) by (auto simp: gm_wf_def)
  then show ?thesis using mgr_sess [OF assms(1)] by auto
qed

lemma sessions_keyed: "mgr_ok m \<Longrightarrow> gm_keyed (\<lambda>p. SessID (session_at m p)) (m_sessions m)"
proof -
  assume ok: "mgr_ok m"
  then have wf: "gm_wf (m_sessions m)" by (simp add: mgr_ok_def maps_ok_def)
  have "SessID (session_at m (snd e)) = fst e" if "e \<in> set (m_sessions m)" for e
    using mgr_sess [OF ok, of "fst e" "snd e"] gm_mem_iff [OF wf, of "fst e" "snd e"] that by simp
  with wf show ?thesis by (simp add: gm_keyed_def)
qed

lemma manager_List_get:
  assumes "mgr_ok m"
  shows "s \<in> set (manager_List m) \<longleftrightarrow> manager_Get m (SessID s) = Some s"
proof -
  have "gm_wf (m_sessions m)" using assms by (simp add: mgr_ok_def maps_ok_def)
  then have "s \<in> set (manager_List m) \<longleftrightarrow> (\<exists>i p. gm_get (m_sessions m) i = Some p \<and> s = session_at m p)"
    by (auto simp: manager_List_def image_iff gm_mem_iff [symmetric] Bex_def)
  also have "\<dots> \<longleftrightarrow> manager_Get m (SessID s) = Some s"
    using mgr_sess [OF assms] by (auto simp: manager_Get_def)
  finally show ?thesis .
qed

lemma manager_List_distinct:
  assumes "mgr_ok m"
  shows "distinct (map SessID (manager_List m))"
proof -
  have "distinct (map SessID (map (session_at m) (map snd (m_sessions m))))"
    using gm_keyed_distinct [OF sessions_keyed [OF assms]] by (simp add: comp_def)
  then show ?thesis by (simp add: manager_List_def distinct_map del: map_map)
qed

lemma stamp_of_inj: "stamp_of s = stamp_of t \<Longrightarrow> SessID s = SessID t"
  by (simp add: stamp_of_def)

lemma manager_List_same_map:
  assumes "mgr_ok m" "same_map (m_sessions m) sess"
  shows "manager_List (m\<lparr>m_sessions := sess\<rparr>) = manager_List m"
proof -
  let ?xs = "map (session_at m) (map snd (m_sessions m))"
  have "session_at (m\<lparr>m_sessions := sess\<rparr>) = session_at m" by (simp add: fun_eq_iff session_at_def)
  moreover have "mset ?xs = mset (map (session_at m) (map snd sess))"
    using same_map_values [OF assms(2)] by (metis mset_map)
  moreover have "inj_on SessID (set ?xs)"
    using manager_List_distinct [OF assms(1)] by (simp add: manager_List_def distinct_map)
  then have "inj_on stamp_of (set ?xs)"
    using stamp_of_inj unfolding inj_on_def by blast
  ultimately show ?thesis
    unfolding manager_List_def
    using sort_key_eq_mset [of ?xs "map (session_at m) (map snd sess)" stamp_of] by (simp del: map_map)
qed

lemma end_live_simps [simp]: "ls_rec (end_live ls) = ls_rec ls" "ls_pump (end_live ls) = ls_pump ls"
  by (simp_all add: end_live_def)

lemma end_fold:
  "distinct ps \<Longrightarrow> \<forall>p \<in> set ps. p < length (m_heap m) \<Longrightarrow>
   foldl (\<lambda>m p. upd_live p end_live m) m ps =
     m\<lparr>m_heap := map (\<lambda>p. if p \<in> set ps then end_live (m_heap m ! p) else m_heap m ! p) [0 ..< length (m_heap m)]\<rparr>"
proof (induction ps arbitrary: m)
  case Nil
  then show ?case by (simp add: map_nth)
next
  case (Cons p ps)
  have "foldl (\<lambda>m p. upd_live p end_live m) (upd_live p end_live m) ps = (upd_live p end_live m)
    \<lparr>m_heap := map (\<lambda>q. if q \<in> set ps then end_live (m_heap (upd_live p end_live m) ! q)
        else m_heap (upd_live p end_live m) ! q) [0 ..< length (m_heap m)]\<rparr>"
    using Cons.IH [of "upd_live p end_live m"] Cons.prems by (simp add: upd_live_def)
  then show ?case
    using Cons.prems by (auto simp: upd_live_def nth_list_update intro!: map_cong)
qed

lemma host_targets_ok:
  assumes "mgr_ok m"
  shows "distinct (host_targets m h) \<and> (\<forall>p \<in> set (host_targets m h). p < length (m_heap m))"
proof -
  have "distinct (map snd (m_sessions m))"
    using gm_keyed_distinct [OF sessions_keyed [OF assms]] unfolding distinct_map by blast
  then show ?thesis
    using mgr_ok_sessions [OF assms] by (auto simp: host_targets_def)
qed

lemma CloseHost_heap:
  assumes "mgr_ok m"
  shows "snd (manager_CloseHost m h) = m\<lparr>m_heap := map (\<lambda>p. if p \<in> set (host_targets m h)
     then end_live (m_heap m ! p) else m_heap m ! p) [0 ..< length (m_heap m)]\<rparr>"
  using end_fold [of "host_targets m h" m] host_targets_ok [OF assms, of h]
  by (simp add: manager_CloseHost_def)

lemma CloseHost_records:
  assumes "mgr_ok m"
  shows "manager_List (snd (manager_CloseHost m h)) = manager_List m \<and>
    manager_Get (snd (manager_CloseHost m h)) = manager_Get m"
proof -
  let ?m = "snd (manager_CloseHost m h)"
  have "session_at ?m p = session_at m p" if "p \<in> set (map snd (m_sessions m))" for p
    using mgr_ok_sessions [OF assms that] by (simp add: CloseHost_heap [OF assms] session_at_def)
  moreover have "m_sessions ?m = m_sessions m" by (simp add: CloseHost_heap [OF assms])
  ultimately have "map (session_at ?m) (map snd (m_sessions ?m)) = map (session_at m) (map snd (m_sessions m))"
    and "manager_Get ?m i = manager_Get m i" for i
    by (force simp: manager_Get_def dest!: map_of_SomeD split: option.splits intro!: option.map_cong)+
  then show ?thesis by (simp add: manager_List_def fun_eq_iff)
qed

lemma CloseHost_ids:
  assumes "mgr_ok m"
  shows "set (fst (manager_CloseHost m h)) = SessID ` {s \<in> set (manager_List m). SessHost s = h}"
  by (auto simp: manager_CloseHost_def host_targets_def manager_List_def image_iff)

locale session_store =
  fixes list :: "'m \<Rightarrow> Session list"
    and get :: "'m \<Rightarrow> string \<Rightarrow> Session option"
    and closeHost :: "'m \<Rightarrow> string \<Rightarrow> string list \<times> 'm"
    and wf :: "'m \<Rightarrow> bool"
  assumes list_get: "wf m \<Longrightarrow> s \<in> set (list m) \<longleftrightarrow> get m (SessID s) = Some s"
    and close_ids: "wf m \<Longrightarrow> set (fst (closeHost m h)) = SessID ` {s \<in> set (list m). SessHost s = h}"
    and close_list: "wf m \<Longrightarrow> list (snd (closeHost m h)) = list m"
begin

lemma get_id: "wf m \<Longrightarrow> s \<in> set (list m) \<Longrightarrow> t \<in> set (list m) \<Longrightarrow> SessID s = SessID t \<Longrightarrow> s = t"
  by (metis list_get option.inject)

lemma closed_iff:
  "wf m \<Longrightarrow> i \<in> set (fst (closeHost m h)) \<longleftrightarrow> (\<exists>s. get m (SessID s) = Some s \<and> SessHost s = h \<and> SessID s = i)"
  by (auto simp: close_ids list_get image_iff)

text \<open>Closing a host names the sessions of that host and no other.\<close>

lemma closed_host:
  "wf m \<Longrightarrow> s \<in> set (list m) \<Longrightarrow> SessID s \<in> set (fst (closeHost m h)) \<longleftrightarrow> SessHost s = h"
  using get_id by (fastforce simp: close_ids)

end

interpretation sm: session_store manager_List manager_Get manager_CloseHost mgr_ok
  by unfold_locales (simp_all add: manager_List_get CloseHost_ids CloseHost_records)

section \<open>A concrete run\<close>

definition demo_spec :: Spec where
  "demo_spec = \<lparr>SpecHost = ''h'', SpecRoot = ''/p'', SpecTitle = [], ReqSize = \<lparr>Rows = 24, Cols = 80\<rparr>\<rparr>"

text \<open>One session with one subscriber, and a chunk of output.\<close>

definition demo :: "sm_action list" where
  "demo = [HookSet True, Register ''a'' demo_spec 5 10 new_pty, OnLive 0 LSubscribe,
     OnLive 0 (LRead [7]), OnLive 0 LBroadcast]"

definition demo_state :: manager where
  "demo_state = (case sm_run demo NewManager of Next m \<Rightarrow> m | _ \<Rightarrow> NewManager)"

lemma demo_reach: "mgr_reach demo_state"
proof (rule mgr_reach_run [OF mgr_init])
  show "adm_run demo NewManager" by code_simp
  show "sm_run demo NewManager = Next demo_state" by code_simp
qed

section \<open>Properties\<close>

lemma mgr_no_panic:
  assumes "mgr_ok m"
  shows "sm_step a m \<noteq> Panic"
proof (cases a)
  case (OnLive p la)
  show ?thesis
  proof (cases "p < length (m_heap m)")
    case True
    then have "live_step la (m_heap m ! p) \<noteq> Panic"
      using live_step_ok assms by (simp add: mgr_ok_def)
    then show ?thesis
      using OnLive True by (cases "live_step la (m_heap m ! p)") (simp_all add: on_live_def)
  next
    case False
    then show ?thesis using OnLive by (simp add: on_live_def)
  qed
next
  case (Unregister p)
  then show ?thesis by (simp add: unregister_def Let_def split: pump_pc.splits)
qed simp_all

text \<open>C1: the session manager never panics.  In every state that any interleaving of readers,
  pumps, subscribers, cancellations, closes and PTY events reaches, the next critical section
  sends on no closed channel and closes none twice.\<close>

theorem manager_never_panics:
  assumes "mgr_reach m"
  shows "sm_step a m \<noteq> Panic"
  using mgr_no_panic [OF mgr_reach_ok [OF assms]] .

theorem manager_never_panics_witness: "sm_step (OnLive 0 (LCancel 0)) demo_state \<noteq> Panic"
  by (rule manager_never_panics [OF demo_reach])

text \<open>C18: the two indexes of the manager are sound in every reachable state: a session is filed
  under its own ID, and the (host, root) index leads to a registered session of that very
  project.\<close>

theorem manager_index:
  assumes "mgr_reach m"
  shows "(manager_Get m i = Some s \<longrightarrow> SessID s = i) \<and>
    (manager_Find m k = Some i \<longrightarrow> (\<exists>s. manager_Get m i = Some s \<and> SessProject s = k))"
proof -
  note ok = mgr_reach_ok [OF assms]
  show ?thesis
    using mgr_sess [OF ok] mgr_key [OF ok, of k i] by (auto simp: manager_Get_def manager_Find_def)
qed

theorem manager_index_witness: "\<exists>s. manager_Get demo_state ''a'' = Some s \<and> SessProject s = spec_key demo_spec"
proof -
  have "manager_Find demo_state (spec_key demo_spec) = Some ''a''" by code_simp
  with manager_index [OF demo_reach] show ?thesis by blast
qed

text \<open>\<open>List\<close> returns each registered session once, sorted by creation time and then ID, and the
  random order in which Go visits the map does not show.\<close>

theorem manager_List_spec:
  assumes "mgr_reach m"
  shows "sorted (map stamp_of (manager_List m)) \<and> distinct (map SessID (manager_List m)) \<and>
    (\<forall>s. s \<in> set (manager_List m) \<longleftrightarrow> manager_Get m (SessID s) = Some s) \<and>
    (\<forall>sess. same_map (m_sessions m) sess \<longrightarrow> manager_List (m\<lparr>m_sessions := sess\<rparr>) = manager_List m)"
proof -
  note ok = mgr_reach_ok [OF assms]
  have "sorted (map stamp_of (manager_List m))" by (simp add: manager_List_def)
  then show ?thesis
    using manager_List_distinct [OF ok] sm.list_get [OF ok] manager_List_same_map [OF ok] by blast
qed

theorem manager_List_spec_witness: "distinct (map SessID (manager_List demo_state))"
  using manager_List_spec [OF demo_reach] by blast

text \<open>C2: what a subscriber sees.  The chunks it was given are a subsequence of the output since
  it subscribed, and while it is subscribed and never fell 1024 events behind they are all
  of it; a channel that the manager closed ends with exactly one \<open>Stopped\<close> event, and any
  other carries none.\<close>

theorem subscriber_stream:
  assumes "mgr_reach m" and p: "p < length (m_heap m)" and ls: "ls = m_heap m ! p"
    and c: "c < length (ls_chans ls)" and ch: "ch = ls_chans ls ! c"
  shows "subseq (delivered ch) (drop (ch_from ch) (ls_sent ls)) \<and>
    (c \<in> set (sub_chans ls) \<and> ch_dropped ch = 0 \<longrightarrow> delivered ch = drop (ch_from ch) (ls_sent ls)) \<and>
    (if ch_closed ch \<and> \<not> ch_cancelled ch then ends_stopped ch else never_stopped ch)"
proof -
  have "live_ok ls" using mgr_reach_ok [OF assms(1)] p by (simp add: mgr_ok_def ls)
  then have "streams_ok ls" by (simp add: live_ok_def)
  then show ?thesis using c unfolding ch streams_ok_def chan_ok_def by blast
qed

theorem subscriber_stream_witness:
  "delivered (ls_chans (m_heap demo_state ! 0) ! 0) = drop 0 (ls_sent (m_heap demo_state ! 0))"
proof -
  have facts: "0 < length (m_heap demo_state)" "0 < length (ls_chans (m_heap demo_state ! 0))"
    "0 \<in> set (sub_chans (m_heap demo_state ! 0))" "ch_dropped (ls_chans (m_heap demo_state ! 0) ! 0) = 0"
    "ch_from (ls_chans (m_heap demo_state ! 0) ! 0) = 0"
    by code_simp+
  from subscriber_stream [OF demo_reach facts(1) refl facts(2) refl] facts(3-5) show ?thesis by simp
qed

text \<open>C26: the scrollback of a session is the end of everything it ever printed, within the bound
  set by the configuration, and all of it as long as that fits.\<close>

theorem scrollback_tail:
  assumes "mgr_reach m" and "manager_Scrollback m i = Some b"
  shows "\<exists>p. gm_get (m_sessions m) i = Some p \<and>
    b = last_n (nat (sb_cap (ls_sb (m_heap m ! p)))) (concat (ls_log (m_heap m ! p))) \<and>
    int (length b) \<le> sb_cap (ls_sb (m_heap m ! p)) \<and>
    (int (length (concat (ls_log (m_heap m ! p)))) \<le> sb_cap (ls_sb (m_heap m ! p)) \<longrightarrow>
       b = concat (ls_log (m_heap m ! p)))"
proof -
  note ok = mgr_reach_ok [OF assms(1)]
  obtain p where get: "gm_get (m_sessions m) i = Some p" and b: "b = Snapshot (ls_sb (m_heap m ! p))"
    using assms(2) by (auto simp: manager_Scrollback_def lookup_def split: option.splits)
  have "streams_ok (m_heap m ! p)"
    using ok mgr_sess [OF ok] get by (simp add: mgr_ok_def live_ok_def)
  then have tail: "ring.tail_of (ls_sb (m_heap m ! p)) (ls_log (m_heap m ! p))"
    by (simp add: streams_ok_def)
  then have cap: "0 < sb_cap (ls_sb (m_heap m ! p))"
    by (simp add: ring.tail_of_def ring_ok_def)
  have "b = last_n (nat (sb_cap (ls_sb (m_heap m ! p)))) (concat (ls_log (m_heap m ! p)))"
    using tail by (simp add: ring.tail_of_def ring_cap_def b)
  then show ?thesis
    using get cap ring.tail_bounded [OF tail] ring.tail_complete [OF tail]
    by (auto simp: b ring_cap_def le_nat_iff)
qed

theorem scrollback_tail_witness:
  "manager_Scrollback demo_state ''a'' = Some [7] \<and>
   [7] = last_n (nat (sb_cap (ls_sb (m_heap demo_state ! 0)))) (concat (ls_log (m_heap demo_state ! 0)))"
proof -
  have s: "manager_Scrollback demo_state ''a'' = Some [7]"
    and g: "gm_get (m_sessions demo_state) ''a'' = Some 0" by code_simp+
  from scrollback_tail [OF demo_reach s] g s show ?thesis by auto
qed

end
