(* ===== verification/SessionLife.thy ===== *)
theory SessionLife
  imports Session
begin

text \<open>
  The life of a session (\<open>internal/session/manager.go\<close>): what the operations of the manager
  do on every branch, that each of them is a sequence of the atomic steps of theory
  \<open>Session\<close>, when the host-down hook fires, and that a teardown comes to its end.
\<close>

section \<open>The operations as runs of atomic steps\<close>

lemma upd_live_step:
  "p < length (m_heap m) \<Longrightarrow> live_step a (m_heap m ! p) = Next (f (m_heap m ! p)) \<Longrightarrow>
   sm_step (OnLive p a) m = Next (upd_live p f m)"
  by (simp add: on_live_def upd_live_def)

lemma upd_live_length [simp]: "length (m_heap (upd_live p f m)) = length (m_heap m)"
  by (simp add: upd_live_def)

lemma upd_live_nth: "p < length (m_heap m) \<Longrightarrow>
    m_heap (upd_live p f m) ! q = (if p = q then f (m_heap m ! q) else m_heap m ! q)"
  by (simp add: upd_live_def nth_list_update)

lemma upd_live_twice:
  "p < length (m_heap m) \<Longrightarrow> upd_live p g (upd_live p f m) = upd_live p (\<lambda>ls. g (f ls)) m"
  by (simp add: upd_live_def)

lemma end_live_run:
  assumes "p < length (m_heap m)" "pty_ok (ls_pty (m_heap m ! p))"
  shows "sm_run [OnLive p LIntentional, OnLive p (LPty CloseCalled)] m = Next (upd_live p end_live m)"
  using assms pty_Close_closed [OF assms(2)]
  by (simp add: on_live_def upd_live_def end_live_def)

definition end_actions :: "nat list \<Rightarrow> sm_action list" where
  "end_actions ps = concat (map (\<lambda>p. [OnLive p LIntentional, OnLive p (LPty CloseCalled)]) ps)"

lemma end_actions_run:
  "distinct ps \<Longrightarrow> \<forall>p \<in> set ps. p < length (m_heap m) \<and> pty_ok (ls_pty (m_heap m ! p)) \<Longrightarrow>
   sm_run (end_actions ps) m = Next (foldl (\<lambda>m p. upd_live p end_live m) m ps)"
proof (induction ps arbitrary: m)
  case Nil
  then show ?case by (simp add: end_actions_def)
next
  case (Cons p ps)
  have "sm_run (end_actions ps) (upd_live p end_live m) =
      Next (foldl (\<lambda>m p. upd_live p end_live m) (upd_live p end_live m) ps)"
    using Cons.prems by (intro Cons.IH) (auto simp: upd_live_nth)
  moreover have "sm_run ([OnLive p LIntentional, OnLive p (LPty CloseCalled)] @ end_actions ps) m =
      bind_outcome (Next (upd_live p end_live m)) (sm_run (end_actions ps))"
    using end_live_run [of p m] Cons.prems unfolding steps_append by (simp only: list.set_intros)
  ultimately show ?case by (simp add: end_actions_def)
qed

lemma mgr_ok_pty: "mgr_ok m \<Longrightarrow> p < length (m_heap m) \<Longrightarrow> pty_ok (ls_pty (m_heap m ! p))"
  by (simp add: mgr_ok_def live_ok_def phase_ok_def)

text \<open>The atomic steps of a call that was given the ID \<open>i\<close>.\<close>

datatype call =
    CallClose | CallCloseHost | CallWrite "byte list" | CallResize Size | CallRename string | CallSubscribe

fun call_result :: "call \<Rightarrow> string \<Rightarrow> manager \<Rightarrow> manager" where
  "call_result CallClose i m = snd (manager_Close m i)"
| "call_result CallCloseHost i m = snd (manager_CloseHost m i)"
| "call_result (CallWrite bs) i m = snd (manager_Write m i bs)"
| "call_result (CallResize s) i m = snd (manager_Resize m i s)"
| "call_result (CallRename t) i m = snd (manager_Rename m i t)"
| "call_result CallSubscribe i m = snd (manager_Subscribe m i)"

fun call_steps :: "call \<Rightarrow> nat \<Rightarrow> sm_action list" where
  "call_steps CallClose p = end_actions [p]"
| "call_steps CallCloseHost p = []"
| "call_steps (CallWrite bs) p = [OnLive p (LPty (WriteCalled bs))]"
| "call_steps (CallResize s) p = [OnLive p (LSize s), OnLive p (LPty (ResizeCalled s))]"
| "call_steps (CallRename t) p = [OnLive p (LTitle t)]"
| "call_steps CallSubscribe p = [OnLive p LSubscribe]"

definition call_actions :: "call \<Rightarrow> string \<Rightarrow> manager \<Rightarrow> sm_action list" where
  "call_actions c i m =
     (if c = CallCloseHost then end_actions (host_targets m i)
      else case gm_get (m_sessions m) i of None \<Rightarrow> [] | Some p \<Rightarrow> call_steps c p)"

lemma upd_live_id: "p < length (m_heap m) \<Longrightarrow> upd_live p (\<lambda>_. m_heap m ! p) m = m"
  by (simp add: upd_live_def)

lemma call_is_run:
  assumes ok: "mgr_ok m"
  shows "sm_run (call_actions c i m) m = Next (call_result c i m)"
proof (cases "c = CallCloseHost")
  case True
  then show ?thesis
    using end_actions_run [of "host_targets m i" m] host_targets_ok [OF ok, of i] mgr_ok_pty [OF ok]
    by (simp add: call_actions_def manager_CloseHost_def)
next
  case other: False
  show ?thesis
  proof (cases "gm_get (m_sessions m) i")
    case None
    then show ?thesis
      using other by (cases c) (simp_all add: call_actions_def manager_Close_def manager_Write_def
          manager_Resize_def manager_Rename_def manager_Subscribe_def lookup_def)
  next
    case (Some p)
    then have p: "p < length (m_heap m)" using mgr_sess [OF ok] by simp
    show ?thesis
      using p other Some end_live_run [OF p mgr_ok_pty [OF ok p]] upd_live_id [OF p]
      by (cases c) (simp_all add: call_actions_def end_actions_def manager_Close_def manager_Write_def
          manager_Resize_def manager_Rename_def manager_Subscribe_def lookup_def on_live_def upd_live_def
          subscribe_live_def split: prod.splits)
  qed
qed

lemma call_reach:
  assumes "mgr_reach m"
  shows "sm_run (call_actions c i m) m = Next (call_result c i m) \<and> mgr_reach (call_result c i m)"
proof -
  note run = call_is_run [OF mgr_reach_ok [OF assms], of c i]
  have adm: "adm_run as m' \<longleftrightarrow> (\<exists>m''. sm_run as m' = Next m'')"
    if "\<forall>a \<in> set as. \<forall>m. admissible a m" for as m'
    using that
  proof (induction as arbitrary: m')
    case Nil
    then show ?case by simp
  next
    case (Cons a as)
    then show ?case by (cases "sm_step a m'") simp_all
  qed
  have "\<forall>a \<in> set (call_actions c i m). \<forall>m. admissible a m"
    by (cases c) (auto simp: call_actions_def end_actions_def admissible_def split: option.splits)
  then have "adm_run (call_actions c i m) m" using adm run by blast
  with run show ?thesis using mgr_reach_run [OF assms] by blast
qed



section \<open>What each operation does\<close>

lemma Create_result:
  assumes "mgr_reach m" and "i \<notin> set (ids m)"
  shows "case manager_Create get opn lines i now m spec of
      (Inl (UnknownHost h), m') \<Rightarrow> h = SpecHost spec \<and> get h = None \<and> m' = m
    | (Inl (OpenFailed e), m') \<Rightarrow> m' = m \<and> (\<exists>host. get (SpecHost spec) = Some host \<and>
        opn host \<lparr>Cwd = SpecRoot spec, SpecSize = ReqSize spec\<rparr> = Inl e)
    | (Inl (ErrNotFound _), _) \<Rightarrow> False
    | (Inr j, m') \<Rightarrow> j = i \<and> manager_Find m' (spec_key spec) = Some i \<and>
        manager_Get m' = (manager_Get m)(i \<mapsto> (new_session i spec now)\<lparr>SessState := StateRunning\<rparr>) \<and>
        manager_Scrollback m' i = Some []"
proof -
  note ok = mgr_reach_ok [OF assms(1)]
  have old: "session_at (register_live ls m) p = session_at m p" if "gm_get (m_sessions m) j = Some p" for ls j p
    using mgr_sess [OF ok] that by (simp add: session_at_def register_live_def nth_append)
  have new: "session_at (register_live ls m) (length (m_heap m)) = ls_rec ls" for ls
    by (simp add: session_at_def register_live_def)
  have sb: "Snapshot (newRingScrollback n) = []" for n
    by (simp add: Snapshot_def newRingScrollback_def Let_def)
  have get: "manager_Get (register_live ls m) = (manager_Get m)(SessID (ls_rec ls) \<mapsto> ls_rec ls)" for ls
  proof
    fix j
    show "manager_Get (register_live ls m) j = ((manager_Get m)(SessID (ls_rec ls) \<mapsto> ls_rec ls)) j"
      using old [of j] new [of ls]
      by (cases "gm_get (m_sessions m) j") (auto simp: manager_Get_def register_live_def gomap_simps)
  qed
  have id: "SessID ((new_session i spec now)\<lparr>SessState := StateRunning\<rparr>) = i"
    "SessProject ((new_session i spec now)\<lparr>SessState := StateRunning\<rparr>) = spec_key spec"
    by (simp_all add: new_session_def)
  have find: "manager_Find (register_live (new_live r pty lines) m) (SessProject r) = Some (SessID r)" for r pty
    by (simp add: manager_Find_def register_live_def gomap_simps)
  have scr: "manager_Scrollback (register_live (new_live r pty lines) m) (SessID r) = Some []" for r pty
    by (simp add: manager_Scrollback_def lookup_def register_live_def gomap_simps nth_append)
      (simp add: new_live_def sb)
  let ?r = "(new_session i spec now)\<lparr>SessState := StateRunning\<rparr>"
  show ?thesis
    using get [of "new_live ?r _ lines"] find [of ?r] scr [of ?r]
    by (auto simp: manager_Create_def Let_def id split: option.splits sum.splits)
qed

text \<open>\<open>Create\<close>.  An unknown host or a failed dial is reported and leaves the manager alone;
  otherwise the new session is running, has the requested host, root, title and size, is
  found by its ID and by its project, and every other session is as it was.\<close>

theorem manager_Create_spec:
  assumes "mgr_reach m" and "i \<notin> set (ids m)"
  shows "case manager_Create get opn lines i now m spec of
      (Inl (UnknownHost h), m') \<Rightarrow> h = SpecHost spec \<and> get h = None \<and> m' = m
    | (Inl (OpenFailed e), m') \<Rightarrow> m' = m \<and> (\<exists>host. get (SpecHost spec) = Some host \<and>
        opn host \<lparr>Cwd = SpecRoot spec, SpecSize = ReqSize spec\<rparr> = Inl e)
    | (Inl (ErrNotFound _), _) \<Rightarrow> False
    | (Inr j, m') \<Rightarrow> j = i \<and> manager_Find m' (spec_key spec) = Some i \<and>
        manager_Get m' = (manager_Get m)(i \<mapsto> (new_session i spec now)\<lparr>SessState := StateRunning\<rparr>) \<and>
        manager_Scrollback m' i = Some []"
  using Create_result [OF assms] .

text \<open>C27: \<open>Close\<close> and \<open>CloseHost\<close> end exactly the sessions they name: those are marked as
  intentionally closed and their PTYs are closed, every other session keeps its whole state,
  the returned IDs are the sessions of that host, and the records do not change before the
  pumps finish.\<close>

theorem manager_CloseHost_spec:
  assumes "mgr_reach m" and m': "m' = snd (manager_CloseHost m h)"
  shows "set (fst (manager_CloseHost m h)) = SessID ` {s \<in> set (manager_List m). SessHost s = h} \<and>
    manager_List m' = manager_List m \<and>
    (\<forall>p < length (m_heap m). m_heap m' ! p =
       (if SessHost (session_at m p) = h \<and> \<not> is_done (m_heap m ! p)
        then end_live (m_heap m ! p) else m_heap m ! p)) \<and>
    (\<forall>p < length (m_heap m). SessHost (session_at m p) = h \<and> \<not> is_done (m_heap m ! p) \<longrightarrow>
       ls_intentional (m_heap m' ! p) \<and> done_closed (ls_pty (m_heap m' ! p)) \<and>
       \<not> client_open (ls_pty (m_heap m' ! p)))"
proof -
  note ok = mgr_reach_ok [OF assms(1)]
  have mem: "p \<in> set (host_targets m h) \<longleftrightarrow> SessHost (session_at m p) = h \<and> \<not> is_done (m_heap m ! p)"
    if "p < length (m_heap m)" for p
  proof -
    have "p \<in> snd ` set (m_sessions m) \<longleftrightarrow> \<not> is_done (m_heap m ! p)"
      using mgr_sess [OF ok] that ok unfolding mgr_ok_def maps_ok_def by (metis gm_value_iff)
    then show ?thesis by (auto simp: host_targets_def)
  qed
  have heap: "m_heap m' ! p = (if SessHost (session_at m p) = h \<and> \<not> is_done (m_heap m ! p)
      then end_live (m_heap m ! p) else m_heap m ! p)" if "p < length (m_heap m)" for p
    using mem [OF that] that by (simp add: m' CloseHost_heap [OF ok])
  moreover have "done_closed (pty_closed (ls_pty (m_heap m ! p))) \<and> \<not> client_open (pty_closed (ls_pty (m_heap m ! p)))"
    if "p < length (m_heap m)" for p
    using mgr_ok_pty [OF ok that] by (auto simp: pty_closed_def pty_ok_def pty_defs)
  ultimately show ?thesis
    using CloseHost_ids [OF ok] CloseHost_records [OF ok] by (simp add: m' end_live_def)
qed

theorem manager_CloseHost_spec_witness:
  "fst (manager_CloseHost demo_state ''h'') = [''a''] \<and>
   manager_List (snd (manager_CloseHost demo_state ''h'')) = manager_List demo_state"
proof
  show "fst (manager_CloseHost demo_state ''h'') = [''a'']" by code_simp
  show "manager_List (snd (manager_CloseHost demo_state ''h'')) = manager_List demo_state"
    using manager_CloseHost_spec [OF demo_reach refl, of "''h''"] by blast
qed

definition demo_host :: Host where
  "demo_host = \<lparr>HostID = ''h'', Addr = ''h:22'', User = ''u'', Name = [], KeyRef = [],
     Home = \<lparr>Root = [], ScanDepth = 0\<rparr>, Color = [], HostStatus = StatusUnknown, LastSeen = 0\<rparr>"

theorem manager_Create_spec_witness:
  "manager_Get (snd (manager_Create (\<lambda>_. Some demo_host) (\<lambda>_ _. Inr new_pty) 10 ''b'' 7 demo_state demo_spec)) ''a''
     = manager_Get demo_state ''a''"
proof -
  have fresh: "''b'' \<notin> set (ids demo_state)" by code_simp
  show ?thesis
    using manager_Create_spec [OF demo_reach fresh, where get = "\<lambda>_. Some demo_host"
        and opn = "\<lambda>_ _. Inr new_pty" and lines = 10 and now = 7 and spec = demo_spec]
    by (simp add: manager_Create_def Let_def)
qed

section \<open>The host-down hook\<close>

text \<open>A session whose teardown was asked for before its pump saw the end.\<close>

definition decided_for :: "pump_pc \<Rightarrow> bool" where
  "decided_for pc = (case pc of PumpWaiting \<Rightarrow> True | PumpDecided b \<Rightarrow> b | PumpNotifying _ b \<Rightarrow> b
     | PumpUnregister b \<Rightarrow> b | PumpDone b \<Rightarrow> b)"

definition planned :: "nat \<Rightarrow> manager \<Rightarrow> bool" where
  "planned p m \<longleftrightarrow> p < length (m_heap m) \<and> ls_intentional (m_heap m ! p) \<and>
     decided_for (ls_pump (m_heap m ! p)) \<and> p \<notin> fst ` set (m_hooks m)"

lemma pump_intentional: "pump_step ls = Next ls' \<Longrightarrow> ls_intentional ls' = ls_intentional ls"
  by (auto simp: pump_step.simps split: if_splits option.splits pump_pc.splits list.splits)

lemma live_step_intentional: "live_step a ls = Next ls' \<Longrightarrow> ls_intentional ls \<Longrightarrow> ls_intentional ls'"
  by (cases a) (auto simp: reader_read_def reader_broadcast_def broadcast_def reader_stop_def
      subscribe_live_def cancel_live_def pump_intentional split: if_splits reader_pc.splits option.splits)

lemma pump_decided:
  "pump_step ls = Next ls' \<Longrightarrow> ls_intentional ls \<Longrightarrow> decided_for (ls_pump ls) \<Longrightarrow> decided_for (ls_pump ls')"
  by (cases "ls_pump ls")
    (auto simp: pump_step.simps decided_for_def split: if_splits option.splits list.splits)

lemma live_planned:
  "live_step a ls = Next ls' \<Longrightarrow> ls_intentional ls \<Longrightarrow> decided_for (ls_pump ls) \<Longrightarrow>
   ls_intentional ls' \<and> decided_for (ls_pump ls')"
  using live_step_intentional [of a ls ls'] live_step_pump [of a ls ls'] pump_decided [of ls ls']
  by (cases "a = LPump") auto

lemma step_planned:
  assumes "planned p m" "sm_step a m = Next m'"
  shows "planned p m'"
proof (cases a)
  case (Register i spec now lines pty)
  then show ?thesis using assms by (auto simp: planned_def register_live_def nth_append)
next
  case (OnLive q la)
  then obtain ls where q: "q < length (m_heap m)" "live_step la (m_heap m ! q) = Next ls"
    and m': "m' = m\<lparr>m_heap := (m_heap m)[q := ls]\<rparr>"
    using assms(2) by (auto simp: on_live_def split: if_splits)
  show ?thesis
    using assms(1) live_planned [OF q(2)] q(1) by (cases "p = q") (auto simp: planned_def m')
next
  case (Unregister q)
  then obtain b where "q < length (m_heap m)" "ls_pump (m_heap m ! q) = PumpUnregister b" and
    "m' = m\<lparr>m_heap := (m_heap m)[q := (m_heap m ! q)\<lparr>ls_pump := PumpDone b\<rparr>],
            m_sessions := gm_del (SessID (session_at m q)) (m_sessions m),
            m_byKey := gm_del (SessProject (session_at m q)) (m_byKey m),
            m_hooks := (if \<not> b \<and> m_hook m then m_hooks m @ [(q, SessHost (session_at m q))] else m_hooks m)\<rparr>"
    using assms(2) by (auto simp: unregister_eq)
  then show ?thesis
    using assms(1) by (cases "p = q") (auto simp: planned_def decided_for_def)
next
  case (HookSet b)
  then show ?thesis using assms by (auto simp: planned_def SetHostDownHook_def)
qed

text \<open>C10: the host-down hook fires at most once for a session, names its host, and never fires
  for a session that \<open>Close\<close> or \<open>CloseHost\<close> ended before its pump saw the connection go.\<close>

theorem hook_only_for_drops:
  assumes "mgr_reach m" and "adm_run as m" and run: "sm_run as m = Next m'"
  shows "distinct (map fst (m_hooks m')) \<and>
    (\<forall>(p, h) \<in> set (m_hooks m'). SessHost (session_at m' p) = h \<and>
       ls_pump (m_heap m' ! p) = PumpDone False) \<and>
    (\<forall>p < length (m_heap m). ls_intentional (m_heap m ! p) \<and> ls_pump (m_heap m ! p) = PumpWaiting \<longrightarrow>
       p \<notin> fst ` set (m_hooks m'))"
proof -
  have "hooks_ok m'"
    using mgr_reach_ok [OF mgr_reach_run [OF assms]] by (simp add: mgr_ok_def)
  moreover have "p \<notin> fst ` set (m_hooks m')"
    if p: "p < length (m_heap m)" "ls_intentional (m_heap m ! p)" "ls_pump (m_heap m ! p) = PumpWaiting" for p
  proof -
    have "hooks_ok m" using mgr_reach_ok [OF assms(1)] by (simp add: mgr_ok_def)
    then have "planned p m" using p by (auto simp: planned_def decided_for_def hooks_ok_def)
    from steps_invariant [OF run, of "planned p", OF this step_planned] show ?thesis
      by (simp add: planned_def)
  qed
  ultimately show ?thesis by (auto simp: hooks_ok_def)
qed

text \<open>The session of the example drops by itself, or is closed first.\<close>

definition drop_run :: "sm_action list" where
  "drop_run = [OnLive 0 (LPty SessionEnded), OnLive 0 LPump, OnLive 0 LPump, OnLive 0 LPump,
     OnLive 0 LPump, Unregister 0]"

definition after :: "sm_action list \<Rightarrow> manager" where
  "after as = (case sm_run as demo_state of Next m \<Rightarrow> m | _ \<Rightarrow> NewManager)"

theorem hook_only_for_drops_witness:
  "m_hooks (after drop_run) = [(0, ''h'')] \<and>
   0 \<notin> fst ` set (m_hooks (after (OnLive 0 LIntentional # drop_run)))"
proof
  show "m_hooks (after drop_run) = [(0, ''h'')]" by code_simp
  let ?m = "after [OnLive 0 LIntentional]"
  have "adm_run [OnLive 0 LIntentional] demo_state" "sm_run [OnLive 0 LIntentional] demo_state = Next ?m"
    by code_simp+
  from mgr_reach_run [OF demo_reach this] have reach: "mgr_reach ?m" .
  have adm: "adm_run drop_run ?m" and run: "sm_run drop_run ?m = Next (after (OnLive 0 LIntentional # drop_run))"
    and facts: "0 < length (m_heap ?m)" "ls_intentional (m_heap ?m ! 0)" "ls_pump (m_heap ?m ! 0) = PumpWaiting"
    by code_simp+
  from hook_only_for_drops [OF reach adm run] facts
  show "0 \<notin> fst ` set (m_hooks (after (OnLive 0 LIntentional # drop_run)))" by blast
qed

section \<open>A teardown comes to its end\<close>

definition teardown_action :: "live_action \<Rightarrow> bool" where
  "teardown_action a \<longleftrightarrow> a = LPump \<or> (\<exists>c. a = LRecv c)"

definition tears_down :: "liveSession \<Rightarrow> bool \<Rightarrow> bool" where
  "tears_down ls b \<longleftrightarrow> (\<exists>as ls'. list_all teardown_action as \<and> steps live_step as ls = Next ls' \<and>
     ls_pump ls' = PumpUnregister b)"

lemma tears_down_step:
  "teardown_action a \<Longrightarrow> live_step a ls = Next ls1 \<Longrightarrow> tears_down ls1 b \<Longrightarrow> tears_down ls b"
  unfolding tears_down_def by (metis bind_outcome.simps(1) list.pred_inject(2) steps.simps(2))

lemma tears_down_stop: "ls_pump ls = PumpUnregister b \<Longrightarrow> tears_down ls b"
  unfolding tears_down_def by (metis list.pred_inject(1) steps.simps(1))

lemma notifying_tears_down:
  "live_ok ls \<Longrightarrow> ls_pump ls = PumpNotifying cs b \<Longrightarrow> tears_down ls b"
proof (induction cs arbitrary: ls)
  case Nil
  have pty: "pty_ok (ls_pty ls)" using Nil.prems(1) by (simp add: live_ok_def phase_ok_def)
  have "live_step LPump ls = Next (ls\<lparr>ls_pty := pty_closed (ls_pty ls), ls_pump := PumpUnregister b\<rparr>)"
    using Nil.prems(2) pty_Close_closed [OF pty] by (simp add: pump_step.simps)
  from tears_down_step [OF _ this tears_down_stop] show ?case by (simp add: teardown_action_def)
next
  case (Cons c cs)
  have pump: "tears_down ls b" if ls: "live_ok ls" "ls_pump ls = PumpNotifying (c # cs) b"
    and room: "length (ch_queue (ls_chans ls ! c)) < subBuffer" for ls
  proof -
    have step: "live_step LPump ls =
        Next (ls\<lparr>ls_chans := (ls_chans ls)[c := notified (ls_chans ls ! c)], ls_pump := PumpNotifying cs b\<rparr>)"
      using pump_notify [OF ls] room by simp
    then have "live_ok (ls\<lparr>ls_chans := (ls_chans ls)[c := notified (ls_chans ls ! c)], ls_pump := PumpNotifying cs b\<rparr>)"
      using live_step_ok [OF ls(1)] by blast
    from tears_down_step [OF _ step Cons.IH [OF this]] show ?thesis by (simp add: teardown_action_def)
  qed
  show ?case
  proof (cases "length (ch_queue (ls_chans ls ! c)) < subBuffer")
    case True
    with Cons.prems show ?thesis by (rule pump)
  next
    case False
    have c: "c < length (ls_chans ls)" using pump_notify [OF Cons.prems] by simp
    then have "length (ch_queue (ls_chans ls ! c)) \<le> subBuffer"
      using Cons.prems(1) by (simp add: live_ok_def streams_ok_def chan_ok_def)
    then obtain e q where q: "ch_queue (ls_chans ls ! c) = e # q" "length q < subBuffer"
      using False by (cases "ch_queue (ls_chans ls ! c)") (auto simp: subBuffer_def)
    define ls1 where "ls1 = ls\<lparr>ls_chans := (ls_chans ls)[c := (ls_chans ls ! c)
      \<lparr>ch_queue := q, ch_got := ch_got (ls_chans ls ! c) @ [e]\<rparr>]\<rparr>"
    have step: "live_step (LRecv c) ls = Next ls1"
      using c q by (simp add: upd_chan_def recv_def ls1_def)
    then have "live_ok ls1" using live_step_ok [OF Cons.prems(1)] by blast
    then have "tears_down ls1 b"
      using Cons.prems(2) q(2) c by (intro pump) (simp_all add: ls1_def)
    from tears_down_step [OF _ step this] show ?thesis by (simp add: teardown_action_def)
  qed
qed

lemma ended_tears_down:
  assumes ok: "live_ok ls" and ended: "done_closed (ls_pty ls) \<or> ls_reader ls = ReadStopped"
    and "\<not> is_done ls"
  shows "\<exists>b. tears_down ls b"
proof -
  have decided: "\<exists>b. tears_down ls b" if ls: "live_ok ls" "ls_pump ls = PumpDecided b" for ls b
  proof -
    have "\<not> ls_closed ls" using ls by (simp add: live_ok_def phase_ok_def before_close_def)
    then have step: "live_step LPump ls = Next (ls\<lparr>ls_closed := True,
        ls_rec := (ls_rec ls)\<lparr>SessState := StateClosed\<rparr>, ls_subs := [], ls_pump := PumpNotifying (map snd (ls_subs ls)) b\<rparr>)"
      using ls(2) by (simp add: pump_step.simps)
    then have "live_ok (ls\<lparr>ls_closed := True,
        ls_rec := (ls_rec ls)\<lparr>SessState := StateClosed\<rparr>, ls_subs := [], ls_pump := PumpNotifying (map snd (ls_subs ls)) b\<rparr>)"
      using live_step_ok [OF ls(1)] by blast
    from tears_down_step [OF _ step notifying_tears_down [OF this]] show ?thesis
      by (auto simp: teardown_action_def)
  qed
  show ?thesis
  proof (cases "ls_pump ls")
    case PumpWaiting
    then have step: "live_step LPump ls = Next (ls\<lparr>ls_pump := PumpDecided (ls_intentional ls)\<rparr>)"
      using ended by (simp add: pump_step.simps)
    then have "live_ok (ls\<lparr>ls_pump := PumpDecided (ls_intentional ls)\<rparr>)"
      using live_step_ok [OF ok] by blast
    from decided [OF this] obtain b where "tears_down (ls\<lparr>ls_pump := PumpDecided (ls_intentional ls)\<rparr>) b"
      by auto
    from tears_down_step [OF _ step this] show ?thesis by (auto simp: teardown_action_def)
  next
    case (PumpDecided b)
    then show ?thesis by (rule decided [OF ok])
  next
    case (PumpNotifying cs b)
    then show ?thesis using notifying_tears_down [OF ok] by blast
  next
    case (PumpUnregister b)
    then show ?thesis using tears_down_stop by blast
  next
    case (PumpDone b)
    then show ?thesis using assms(3) by (simp add: is_done_def)
  qed
qed

lemma lift_live_run:
  "p < length (m_heap m) \<Longrightarrow> steps live_step as (m_heap m ! p) = Next ls \<Longrightarrow>
   sm_run (map (OnLive p) as) m = Next (m\<lparr>m_heap := (m_heap m)[p := ls]\<rparr>)"
proof (induction as arbitrary: m)
  case Nil
  then have "(m_heap m)[p := ls] = m_heap m" by auto
  then show ?case by simp
next
  case (Cons a as)
  from Cons.prems(2) obtain ls1 where ls1: "live_step a (m_heap m ! p) = Next ls1"
    "steps live_step as ls1 = Next ls" by auto
  let ?m = "m\<lparr>m_heap := (m_heap m)[p := ls1]\<rparr>"
  have "sm_run (map (OnLive p) as) ?m = Next (?m\<lparr>m_heap := (m_heap ?m)[p := ls]\<rparr>)"
    using Cons.prems(1) ls1(2) by (intro Cons.IH) simp_all
  then show ?case using Cons.prems(1) ls1(1) by (simp add: on_live_def)
qed

lemma adm_live: "sm_run (map (OnLive p) as @ [Unregister p]) m = Next m' \<Longrightarrow>
    adm_run (map (OnLive p) as @ [Unregister p]) m"
  by (induction as arbitrary: m) (auto simp: admissible_def split: outcome.splits)

lemma run_ident:
  "steps live_step as ls = Next ls' \<Longrightarrow> ident ls' = ident ls"
  by (induction as arbitrary: ls) (auto dest: live_step_ident)

text \<open>C9: liveness of the teardown.  Once the connection of a session is gone, its pump can always
  finish: with no help but subscribers taking events they have not read yet, it reaches the
  end, the session leaves the manager, and every channel it ever gave out is closed, ending
  with \<open>Stopped\<close> unless its subscriber had cancelled it.\<close>

theorem teardown_completes:
  assumes "mgr_reach m" and p: "p < length (m_heap m)" and "\<not> is_done (m_heap m ! p)"
    and "done_closed (ls_pty (m_heap m ! p)) \<or> ls_reader (m_heap m ! p) = ReadStopped"
  shows "\<exists>as m'. list_all teardown_action as \<and> sm_run (map (OnLive p) as @ [Unregister p]) m = Next m' \<and>
    is_done (m_heap m' ! p) \<and> manager_Get m' (SessID (session_at m p)) = None \<and>
    (\<forall>ch \<in> set (ls_chans (m_heap m' ! p)). ch_closed ch \<and> (\<not> ch_cancelled ch \<longrightarrow> ends_stopped ch))"
proof -
  note ok = mgr_reach_ok [OF assms(1)]
  have lok: "live_ok (m_heap m ! p)" using ok p by (simp add: mgr_ok_def)
  from ended_tears_down [OF lok assms(4,3)] obtain b as ls where as: "list_all teardown_action as"
    and run: "steps live_step as (m_heap m ! p) = Next ls" and pc: "ls_pump ls = PumpUnregister b"
    by (auto simp: tears_down_def)
  let ?m = "m\<lparr>m_heap := (m_heap m)[p := ls]\<rparr>"
  obtain m' where m': "unregister p ?m = Next m'"
    using p pc by (auto simp: unregister_def Let_def)
  have full: "sm_run (map (OnLive p) as @ [Unregister p]) m = Next m'"
    using lift_live_run [OF p run] m' by (simp add: steps_append)
  have ok': "mgr_ok m'"
    by (rule mgr_reach_ok [OF mgr_reach_run [OF assms(1) adm_live [OF full] full]])
  have heap: "m_heap m' = (m_heap m)[p := ls\<lparr>ls_pump := PumpDone b\<rparr>]"
    using m' p pc by (auto simp: unregister_eq)
  have dn: "is_done (m_heap m' ! p)" using p by (simp add: heap is_done_def)
  have id: "SessID (session_at m' p) = SessID (session_at m p)"
    using run_ident [OF run] p by (simp add: session_at_def heap ident_def)
  have "manager_Get m' (SessID (session_at m p)) = None"
  proof -
    have "gm_get (m_sessions m') (SessID (session_at m p)) = None"
      using m' run_ident [OF run] p by (auto simp: unregister_eq gomap_simps session_at_def ident_def)
    then show ?thesis by (simp add: manager_Get_def)
  qed
  moreover have "ch_closed ch \<and> (\<not> ch_cancelled ch \<longrightarrow> ends_stopped ch)"
    if ch: "ch \<in> set (ls_chans (m_heap m' ! p))" for ch
  proof -
    let ?ls = "m_heap m' ! p"
    have "p < length (m_heap m')" using p by (simp add: heap)
    then have l: "live_ok ?ls" using ok' by (simp add: mgr_ok_def)
    have "ls_closed ?ls" using l p by (simp add: live_ok_def phase_ok_def heap before_close_def)
    then have "refs ?ls = []"
      using l p by (simp add: live_ok_def phase_ok_def refs_def sub_chans_def pump_refs_def heap)
    then have "ch_closed ch"
      using live_ok_refs [OF l] ch by (auto simp: in_set_conv_nth)
    moreover have "chan_ok (ls_sent ?ls) ch"
      using l ch by (auto simp: live_ok_def streams_ok_def in_set_conv_nth)
    ultimately show ?thesis by (auto simp: chan_ok_def)
  qed
  ultimately show ?thesis using as full dn by blast
qed

theorem teardown_completes_witness:
  "\<exists>as m'. sm_run (map (OnLive 0) as @ [Unregister 0]) (after [OnLive 0 (LPty SessionEnded)]) = Next m' \<and>
     manager_Get m' ''a'' = None"
proof -
  let ?m = "after [OnLive 0 (LPty SessionEnded)]"
  have "adm_run [OnLive 0 (LPty SessionEnded)] demo_state"
    "sm_run [OnLive 0 (LPty SessionEnded)] demo_state = Next ?m" by code_simp+
  from mgr_reach_run [OF demo_reach this] have reach: "mgr_reach ?m" .
  have facts: "0 < length (m_heap ?m)" "\<not> is_done (m_heap ?m ! 0)"
    "done_closed (ls_pty (m_heap ?m ! 0)) \<or> ls_reader (m_heap ?m ! 0) = ReadStopped"
    "SessID (session_at ?m 0) = ''a''" by code_simp+
  from teardown_completes [OF reach facts(1-3)] facts(4) show ?thesis by auto
qed

section \<open>A finding\<close>

definition two_sessions :: "sm_action list" where
  "two_sessions = [Register ''old'' demo_spec 1 10 new_pty, Register ''new'' demo_spec 2 10 new_pty,
     OnLive 0 (LPty SessionEnded), OnLive 0 LPump, OnLive 0 LPump, OnLive 0 LPump, Unregister 0]"


end
