(* ===== verification/Attach.thy ===== *)
theory Attach
  imports Session
begin

text \<open>
  Package \<open>internal/attach\<close> (\<open>attach.go\<close>, \<open>attachments.go\<close>): the attached interfaces, what each
  is viewing, and the negotiation of one PTY size for all the viewers of a session.  The two
  Go maps are \<open>gomap\<close>s; \<open>NegotiatedSize\<close> ranges over the clients in map order and is shown not
  to depend on it.  What the server relies on is the locale \<open>view_store\<close>.
\<close>

section \<open>Clients\<close>

record Client =
  ClientID :: string
  Interface :: string
  Viewing :: string
  ClientSize :: Size

record attachments =
  at_clients :: "(string, Client) gomap"
  at_driver :: "(string, string) gomap"

datatype attach_error = EmptyClientID | AttDuplicate string | AttNotFound string

definition NewAttachments :: attachments where
  "NewAttachments = \<lparr>at_clients = [], at_driver = []\<rparr>"

definition attach_List :: "attachments \<Rightarrow> Client list" where
  "attach_List a = map snd (at_clients a)"

definition attach_Get :: "attachments \<Rightarrow> string \<Rightarrow> Client option" where
  "attach_Get a i = gm_get (at_clients a) i"

definition attach_Attach :: "attachments \<Rightarrow> Client \<Rightarrow> attach_error option \<times> attachments" where
  "attach_Attach a c =
    (if ClientID c = '''' then (Some EmptyClientID, a)
     else case gm_get (at_clients a) (ClientID c) of
       Some _ \<Rightarrow> (Some (AttDuplicate (ClientID c)), a)
     | None \<Rightarrow> (None, a\<lparr>at_clients := gm_put (ClientID c) c (at_clients a)\<rparr>))"

definition attach_Detach :: "attachments \<Rightarrow> string \<Rightarrow> attach_error option \<times> attachments" where
  "attach_Detach a i =
    (case gm_get (at_clients a) i of
       None \<Rightarrow> (Some (AttNotFound i), a)
     | Some _ \<Rightarrow> (None, a\<lparr>at_clients := gm_del i (at_clients a),
         at_driver := filter (\<lambda>(s, drv). drv \<noteq> i) (at_driver a)\<rparr>))"

definition SetViewing :: "attachments \<Rightarrow> string \<Rightarrow> string \<Rightarrow> attach_error option \<times> attachments" where
  "SetViewing a i s =
    (case gm_get (at_clients a) i of
       None \<Rightarrow> (Some (AttNotFound i), a)
     | Some c \<Rightarrow> (None, a\<lparr>at_clients := gm_put i (c\<lparr>Viewing := s\<rparr>) (at_clients a)\<rparr>))"

definition SetSize :: "attachments \<Rightarrow> string \<Rightarrow> Size \<Rightarrow> attach_error option \<times> attachments" where
  "SetSize a i sz =
    (case gm_get (at_clients a) i of
       None \<Rightarrow> (Some (AttNotFound i), a)
     | Some c \<Rightarrow> (None, a\<lparr>at_clients := gm_put i (c\<lparr>ClientSize := sz\<rparr>) (at_clients a)\<rparr>))"

definition SetDriver :: "attachments \<Rightarrow> string \<Rightarrow> string \<Rightarrow> attach_error option \<times> attachments" where
  "SetDriver a s i =
    (case gm_get (at_clients a) i of
       None \<Rightarrow> (Some (AttNotFound i), a)
     | Some _ \<Rightarrow> (None, a\<lparr>at_driver := gm_put s i (at_driver a)\<rparr>))"

section \<open>Negotiation\<close>

definition valid_size :: "Size \<Rightarrow> bool" where
  "valid_size s \<longleftrightarrow> Rows s > 0 \<and> Cols s > 0"

definition driver_size :: "attachments \<Rightarrow> string \<Rightarrow> Size option" where
  "driver_size a s =
    (case gm_get (at_driver a) s of None \<Rightarrow> None
     | Some drv \<Rightarrow> (case gm_get (at_clients a) drv of None \<Rightarrow> None
       | Some c \<Rightarrow> if Viewing c = s \<and> valid_size (ClientSize c) then Some (ClientSize c) else None))"

text \<open>The body of the smallest-wins loop.\<close>

definition smallest_step :: "string \<Rightarrow> Size option \<Rightarrow> Client \<Rightarrow> Size option" where
  "smallest_step s out c =
    (if Viewing c \<noteq> s \<or> \<not> valid_size (ClientSize c) then out
     else case out of
       None \<Rightarrow> Some (ClientSize c)
     | Some sz \<Rightarrow>
        let sz1 = (if Rows (ClientSize c) < Rows sz then sz\<lparr>Rows := Rows (ClientSize c)\<rparr> else sz);
            sz2 = (if Cols (ClientSize c) < Cols sz1 then sz1\<lparr>Cols := Cols (ClientSize c)\<rparr> else sz1)
        in Some sz2)"

definition smallest :: "attachments \<Rightarrow> string \<Rightarrow> Size option" where
  "smallest a s = foldl (smallest_step s) None (attach_List a)"

definition NegotiatedSize :: "attachments \<Rightarrow> string \<Rightarrow> ResizePolicy \<Rightarrow> Size option" where
  "NegotiatedSize a s policy =
    (case (if policy = Driver then driver_size a s else None) of
       Some sz \<Rightarrow> Some sz
     | None \<Rightarrow> smallest a s)"

section \<open>The invariant\<close>

text \<open>Clients are filed under their own non-empty IDs, and a driver is an attached client.\<close>

definition att_ok :: "attachments \<Rightarrow> bool" where
  "att_ok a \<longleftrightarrow> gm_keyed ClientID (at_clients a) \<and> gm_get (at_clients a) '''' = None \<and>
     gm_wf (at_driver a) \<and> (\<forall>e \<in> set (at_driver a). gm_get (at_clients a) (snd e) \<noteq> None)"

datatype attach_op =
    OpAttach Client | OpDetach string | OpSetViewing string string | OpSetSize string Size
  | OpSetDriver string string

fun attach_apply :: "attach_op \<Rightarrow> attachments \<Rightarrow> attach_error option \<times> attachments" where
  "attach_apply (OpAttach c) a = attach_Attach a c"
| "attach_apply (OpDetach i) a = attach_Detach a i"
| "attach_apply (OpSetViewing i s) a = SetViewing a i s"
| "attach_apply (OpSetSize i sz) a = SetSize a i sz"
| "attach_apply (OpSetDriver s i) a = SetDriver a s i"

definition attach_run :: "attach_op list \<Rightarrow> attachments" where
  "attach_run ops = foldl (\<lambda>a op. snd (attach_apply op a)) NewAttachments ops"

lemma att_ok_new: "att_ok NewAttachments"
  by (simp add: att_ok_def NewAttachments_def)

lemma att_ok_put:
  assumes "att_ok a" "gm_get (at_clients a) i \<noteq> None" "ClientID c = i"
  shows "att_ok (a\<lparr>at_clients := gm_put i c (at_clients a)\<rparr>)"
  using assms by (auto simp: att_ok_def gm_keyed_put gomap_simps)

lemma att_key: "att_ok a \<Longrightarrow> gm_get (at_clients a) i = Some c \<Longrightarrow> ClientID c = i"
  by (auto simp: att_ok_def intro: gm_keyed_get)

lemma att_ok_Detach: "att_ok a \<Longrightarrow> att_ok (snd (attach_Detach a i))"
  by (auto simp: att_ok_def attach_Detach_def gm_keyed_del gomap_simps split: option.splits)

lemma att_ok_SetDriver: "att_ok a \<Longrightarrow> att_ok (snd (SetDriver a s i))"
  using set_gm_put [of s i "at_driver a"]
  by (auto simp: att_ok_def SetDriver_def split: option.splits)

lemma att_ok_Attach: "att_ok a \<Longrightarrow> att_ok (snd (attach_Attach a c))"
  by (auto simp: att_ok_def attach_Attach_def gm_keyed_put gomap_simps split: option.splits)

lemma att_ok_apply: "att_ok a \<Longrightarrow> att_ok (snd (attach_apply op a))"
  by (cases op) (auto simp: att_ok_Attach att_ok_Detach att_ok_SetDriver SetViewing_def SetSize_def
      dest: att_key split: option.splits intro!: att_ok_put)

lemma att_ok_run: "att_ok (attach_run ops)"
proof -
  have "att_ok a \<Longrightarrow> att_ok (foldl (\<lambda>a op. snd (attach_apply op a)) a ops)" for a
    by (induction ops arbitrary: a) (simp_all add: att_ok_apply)
  then show ?thesis by (simp add: attach_run_def att_ok_new)
qed

section \<open>Negotiated sizes\<close>

definition viewer_sizes :: "string \<Rightarrow> Client list \<Rightarrow> Size list" where
  "viewer_sizes s cs = map ClientSize (filter (\<lambda>c. Viewing c = s \<and> valid_size (ClientSize c)) cs)"

definition least_size :: "Size list \<Rightarrow> Size option" where
  "least_size ss = (if ss = [] then None
     else Some \<lparr>Rows = Min (Rows ` set ss), Cols = Min (Cols ` set ss)\<rparr>)"

lemma smallest_step_some:
  "Viewing c = s \<Longrightarrow> valid_size (ClientSize c) \<Longrightarrow> smallest_step s (Some sz) c =
     Some \<lparr>Rows = min (Rows (ClientSize c)) (Rows sz), Cols = min (Cols (ClientSize c)) (Cols sz)\<rparr>"
  by (cases sz) (auto simp: smallest_step_def Let_def min_def)

lemma least_size_snoc:
  "least_size (acc @ [z]) = (case least_size acc of None \<Rightarrow> Some z
     | Some sz \<Rightarrow> Some \<lparr>Rows = min (Rows z) (Rows sz), Cols = min (Cols z) (Cols sz)\<rparr>)"
  by (simp add: least_size_def)

lemma smallest_fold:
  "foldl (smallest_step s) (least_size acc) cs = least_size (acc @ viewer_sizes s cs)"
proof (induction cs arbitrary: acc)
  case Nil
  then show ?case by (simp add: viewer_sizes_def)
next
  case (Cons c cs)
  have "smallest_step s (least_size acc) c =
      least_size (if Viewing c = s \<and> valid_size (ClientSize c) then acc @ [ClientSize c] else acc)"
    by (auto simp: least_size_snoc smallest_step_some split: option.split)
      (simp_all add: smallest_step_def)
  then show ?case
    using Cons.IH [of "acc @ [ClientSize c]"] Cons.IH [of acc] by (simp add: viewer_sizes_def)
qed

lemma smallest_least: "smallest a s = least_size (viewer_sizes s (attach_List a))"
  using smallest_fold [of s "[]" "attach_List a"] by (simp add: smallest_def least_size_def)

lemma least_size_valid:
  "\<forall>z \<in> set ss. valid_size z \<Longrightarrow> least_size ss = Some sz \<Longrightarrow> valid_size sz"
  by (auto simp: least_size_def valid_size_def split: if_splits)

lemma viewer_sizes_valid: "z \<in> set (viewer_sizes s cs) \<Longrightarrow> valid_size z"
  by (auto simp: viewer_sizes_def)

lemma driver_size_valid: "driver_size a s = Some sz \<Longrightarrow> valid_size sz"
  by (auto simp: driver_size_def split: option.splits if_splits)

lemma negotiated_valid: "NegotiatedSize a s policy = Some sz \<Longrightarrow> valid_size sz"
  using driver_size_valid [of a s] least_size_valid [of "viewer_sizes s (attach_List a)"]
    viewer_sizes_valid [of _ s "attach_List a"]
  by (auto simp: NegotiatedSize_def smallest_least split: option.splits if_splits)

section \<open>What the server relies on\<close>

lemma attach_List_get: "att_ok a \<Longrightarrow> c \<in> set (attach_List a) \<longleftrightarrow> attach_Get a (ClientID c) = Some c"
  by (simp add: att_ok_def attach_List_def attach_Get_def gm_keyed_value)

lemma SetViewing_get:
  "attach_Get (snd (SetViewing a i s)) =
     (\<lambda>j. if j = i then map_option (\<lambda>c. c\<lparr>Viewing := s\<rparr>) (attach_Get a i) else attach_Get a j)"
  by (auto simp: SetViewing_def attach_Get_def gomap_simps fun_eq_iff split: option.splits)

lemma SetViewing_ok: "att_ok a \<Longrightarrow> att_ok (snd (SetViewing a i s))"
  using att_ok_apply [of a "OpSetViewing i s"] by simp

locale view_store =
  fixes list :: "'a \<Rightarrow> Client list"
    and get :: "'a \<Rightarrow> string \<Rightarrow> Client option"
    and view :: "'a \<Rightarrow> string \<Rightarrow> string \<Rightarrow> 'a"
    and wf :: "'a \<Rightarrow> bool"
  assumes list_get: "wf a \<Longrightarrow> c \<in> set (list a) \<longleftrightarrow> get a (ClientID c) = Some c"
    and view_get: "get (view a i s) =
        (\<lambda>j. if j = i then map_option (\<lambda>c. c\<lparr>Viewing := s\<rparr>) (get a i) else get a j)"
    and view_wf: "wf a \<Longrightarrow> wf (view a i s)"
    and get_key: "wf a \<Longrightarrow> get a i = Some c \<Longrightarrow> ClientID c = i"
begin

text \<open>Moving a list of clients, one by one, to the same session.\<close>

lemma view_many_get:
  "get (foldl (\<lambda>a c. view a (ClientID c) s) a cs) j =
     (if j \<in> ClientID ` set cs then map_option (\<lambda>c. c\<lparr>Viewing := s\<rparr>) (get a j) else get a j)"
proof (induction cs arbitrary: a)
  case Nil
  then show ?case by simp
next
  case (Cons c cs)
  then show ?case by (cases "get a j") (auto simp: view_get)
qed

lemma view_many_wf: "wf a \<Longrightarrow> wf (foldl (\<lambda>a c. view a (ClientID c) s) a cs)"
  by (induction cs arbitrary: a) (simp_all add: view_wf)

text \<open>Moving every client that satisfies \<open>P\<close> moves those and no other.\<close>

lemma move_all:
  assumes "wf a"
  shows "get (foldl (\<lambda>a c. view a (ClientID c) s) a (filter P (list a))) i =
    map_option (\<lambda>c. if P c then c\<lparr>Viewing := s\<rparr> else c) (get a i)"
proof (cases "get a i")
  case None
  then show ?thesis by (simp add: view_many_get)
next
  case (Some c)
  then have id: "ClientID c = i" and mem: "c \<in> set (list a)"
    using get_key [OF assms] list_get [OF assms] by auto
  have uniq: "d = c" if "d \<in> set (list a)" "ClientID d = i" for d
    using list_get [OF assms, of d] that Some by simp
  have "i \<in> ClientID ` set (filter P (list a)) \<longleftrightarrow> (\<exists>d \<in> set (list a). ClientID d = i \<and> P d)"
    by auto
  also have "\<dots> \<longleftrightarrow> P c" using id mem uniq by blast
  finally have "i \<in> ClientID ` set (filter P (list a)) \<longleftrightarrow> P c" .
  then show ?thesis using Some by (simp add: view_many_get)
qed

end

interpretation att: view_store attach_List attach_Get "\<lambda>a i s. snd (SetViewing a i s)" att_ok
  by unfold_locales (auto simp: attach_List_get SetViewing_get SetViewing_ok attach_Get_def dest: att_key)

section \<open>What a negotiation depends on\<close>

text \<open>The size with which a client takes part in the negotiation for \<open>s\<close>.\<close>

definition viewing_at :: "attachments \<Rightarrow> string \<Rightarrow> string \<Rightarrow> Size option" where
  "viewing_at a s j = (case attach_Get a j of
     None \<Rightarrow> None
   | Some c \<Rightarrow> if Viewing c = s \<and> valid_size (ClientSize c) then Some (ClientSize c) else None)"

lemma driver_size_viewing: "driver_size a s = Option.bind (gm_get (at_driver a) s) (viewing_at a s)"
  by (auto simp: driver_size_def viewing_at_def attach_Get_def split: option.splits)

lemma viewer_sizes_viewing:
  assumes "att_ok a"
  shows "set (viewer_sizes s (attach_List a)) = {z. \<exists>j. viewing_at a s j = Some z}"
proof -
  have "(\<exists>c \<in> set (attach_List a). Viewing c = s \<and> valid_size (ClientSize c) \<and> ClientSize c = z) \<longleftrightarrow>
      (\<exists>j. viewing_at a s j = Some z)" for z
  proof
    assume "\<exists>c \<in> set (attach_List a). Viewing c = s \<and> valid_size (ClientSize c) \<and> ClientSize c = z"
    then obtain c where "attach_Get a (ClientID c) = Some c" "Viewing c = s" "valid_size (ClientSize c)" "ClientSize c = z"
      using attach_List_get [OF assms] by blast
    then show "\<exists>j. viewing_at a s j = Some z"
      by (intro exI [of _ "ClientID c"]) (simp add: viewing_at_def)
  next
    assume "\<exists>j. viewing_at a s j = Some z"
    then obtain j c where "attach_Get a j = Some c" "Viewing c = s" "valid_size (ClientSize c)" "ClientSize c = z"
      by (auto simp: viewing_at_def split: option.splits if_splits)
    moreover from this have "c \<in> set (attach_List a)"
      using attach_List_get [OF assms, of c] att.get_key [OF assms, of j c] by simp
    ultimately show "\<exists>c \<in> set (attach_List a). Viewing c = s \<and> valid_size (ClientSize c) \<and> ClientSize c = z"
      by blast
  qed
  moreover have "set (viewer_sizes s (attach_List a)) =
      {z. \<exists>c \<in> set (attach_List a). Viewing c = s \<and> valid_size (ClientSize c) \<and> ClientSize c = z}"
    by (auto simp: viewer_sizes_def)
  ultimately show ?thesis by simp
qed

lemma negotiated_viewing:
  assumes "att_ok a" "att_ok a'" "driver_size a s = driver_size a' s" "viewing_at a s = viewing_at a' s"
  shows "NegotiatedSize a s policy = NegotiatedSize a' s policy"
proof -
  have "set (viewer_sizes s (attach_List a)) = set (viewer_sizes s (attach_List a'))"
    using assms by (simp add: viewer_sizes_viewing)
  then have "smallest a s = smallest a' s"
    unfolding smallest_least least_size_def by (metis set_empty)
  then show ?thesis
    using assms by (simp add: NegotiatedSize_def split: option.split)
qed

lemma negotiated_cong:
  "att_ok a \<Longrightarrow> att_ok a' \<Longrightarrow> at_driver a = at_driver a' \<Longrightarrow> viewing_at a s = viewing_at a' s \<Longrightarrow>
   NegotiatedSize a s policy = NegotiatedSize a' s policy"
  by (rule negotiated_viewing) (simp_all add: driver_size_viewing)

lemma Detach_get: "attach_Get (snd (attach_Detach a i)) j = (if j = i then None else attach_Get a j)"
  by (simp add: attach_Detach_def attach_Get_def gomap_simps split: option.split)

text \<open>A client that leaves takes part in no negotiation but that of the session it viewed.\<close>

lemma Detach_negotiated:
  assumes ok: "att_ok a" and "attach_Get a i = Some c" "Viewing c \<noteq> s"
  shows "NegotiatedSize (snd (attach_Detach a i)) s policy = NegotiatedSize a s policy"
proof (rule negotiated_viewing)
  have i: "viewing_at a s i = None" using assms(2,3) by (simp add: viewing_at_def)
  show view: "viewing_at (snd (attach_Detach a i)) s = viewing_at a s"
    using i by (auto simp: viewing_at_def Detach_get fun_eq_iff)
  have "at_driver (snd (attach_Detach a i)) = filter (\<lambda>(s, drv). drv \<noteq> i) (at_driver a)"
    using assms(2) by (simp add: attach_Detach_def attach_Get_def)
  moreover have "gm_get (filter (\<lambda>(s, drv). drv \<noteq> i) (at_driver a)) s =
      (if gm_get (at_driver a) s = Some i then None else gm_get (at_driver a) s)"
    using gm_filter_value [of "at_driver a" "\<lambda>d. d \<noteq> i" s] ok by (auto simp: att_ok_def split: option.split)
  ultimately show "driver_size (snd (attach_Detach a i)) s = driver_size a s"
    using i view by (auto simp: driver_size_viewing)
qed (simp_all add: ok att_ok_Detach)

lemma SetViewing_driver [simp]: "at_driver (snd (SetViewing a i s)) = at_driver a"
  by (simp add: SetViewing_def split: option.splits)

lemma viewing_at_move:
  "s \<noteq> t \<Longrightarrow> attach_Get a i = None \<or> (\<exists>c. attach_Get a i = Some c \<and> Viewing c \<noteq> s) \<Longrightarrow>
   viewing_at (snd (SetViewing a i t)) s = viewing_at a s"
  by (auto simp: viewing_at_def SetViewing_get fun_eq_iff split: option.splits)

lemma negotiated_move:
  assumes "att_ok a" "s \<noteq> t" "attach_Get a i = None \<or> (\<exists>c. attach_Get a i = Some c \<and> Viewing c \<noteq> s)"
  shows "NegotiatedSize (snd (SetViewing a i t)) s policy = NegotiatedSize a s policy"
  using assms viewing_at_move [OF assms(2,3)]
  by (intro negotiated_cong) (simp_all add: SetViewing_ok)

section \<open>Properties\<close>

text \<open>C11: smallest-wins.  The negotiated size is defined exactly when some client with a usable
  terminal views the session; it is the componentwise minimum over those clients, fits every
  one of them, has no empty side, and does not depend on the order in which Go visits the
  map.\<close>

theorem smallest_wins:
  assumes "att_ok a" and "same_map (at_clients a) cs"
    and V: "V = {ClientSize c | c. attach_Get a (ClientID c) = Some c \<and> Viewing c = s \<and> valid_size (ClientSize c)}"
  shows "NegotiatedSize (a\<lparr>at_clients := cs\<rparr>) s SmallestWins = NegotiatedSize a s SmallestWins \<and>
    (case NegotiatedSize a s SmallestWins of
       None \<Rightarrow> V = {}
     | Some sz \<Rightarrow> V \<noteq> {} \<and> Rows sz = Min (Rows ` V) \<and> Cols sz = Min (Cols ` V) \<and> valid_size sz \<and>
         (\<forall>z \<in> V. Rows sz \<le> Rows z \<and> Cols sz \<le> Cols z))"
proof -
  have neg: "NegotiatedSize a' s SmallestWins = least_size (viewer_sizes s (attach_List a'))" for a'
    by (simp add: NegotiatedSize_def smallest_least)
  have V': "V = set (viewer_sizes s (attach_List a))"
    using attach_List_get [OF assms(1)] by (auto simp: V viewer_sizes_def)
  have "set (attach_List (a\<lparr>at_clients := cs\<rparr>)) = set (attach_List a)"
    using same_map_set [OF assms(2)] by (simp add: attach_List_def)
  then have "set (viewer_sizes s (attach_List (a\<lparr>at_clients := cs\<rparr>))) = V"
    by (simp add: V' viewer_sizes_def)
  then have same: "NegotiatedSize (a\<lparr>at_clients := cs\<rparr>) s SmallestWins = NegotiatedSize a s SmallestWins"
    unfolding neg least_size_def V' by (metis set_empty)
  show ?thesis
  proof (cases "V = {}")
    case True
    then show ?thesis using same by (simp add: V' neg least_size_def)
  next
    case False
    then have sz: "NegotiatedSize a s SmallestWins = Some \<lparr>Rows = Min (Rows ` V), Cols = Min (Cols ` V)\<rparr>"
      by (simp add: V' neg least_size_def)
    have "finite V" by (simp add: V')
    then show ?thesis
      unfolding same sz using False negotiated_valid [OF sz] by simp
  qed
qed

text \<open>The driver policy.  A designated driver that is attached, views the session and has a
  usable terminal decides the size alone; otherwise the result is that of smallest-wins.\<close>

theorem driver_decides:
  "NegotiatedSize a s Driver =
    (if \<exists>d c. gm_get (at_driver a) s = Some d \<and> attach_Get a d = Some c \<and> Viewing c = s \<and> valid_size (ClientSize c)
     then map_option ClientSize (Option.bind (gm_get (at_driver a) s) (attach_Get a))
     else NegotiatedSize a s SmallestWins)"
  by (auto simp: NegotiatedSize_def driver_size_def attach_Get_def split: option.splits if_splits)

text \<open>After any sequence of operations the clients are filed under their own non-empty IDs and
  every driver is an attached client; a client that detaches is gone, drives nothing, and the
  other clients and drivers stay.\<close>

theorem attach_invariant:
  assumes a: "a = attach_run ops"
  shows "(\<forall>i c. attach_Get a i = Some c \<longrightarrow> ClientID c = i \<and> i \<noteq> '''') \<and>
    (\<forall>s d. gm_get (at_driver a) s = Some d \<longrightarrow> attach_Get a d \<noteq> None) \<and>
    attach_Get (snd (attach_Detach a i)) = (attach_Get a)(i := None) \<and>
    gm_get (at_driver (snd (attach_Detach a i))) s =
      (if gm_get (at_driver a) s = Some i then None else gm_get (at_driver a) s)"
proof -
  have ok: "att_ok a" by (simp add: a att_ok_run)
  have drv: "attach_Get a d \<noteq> None" if "gm_get (at_driver a) t = Some d" for t d
    using ok map_of_SomeD [OF that] by (force simp: att_ok_def attach_Get_def)
  have keys: "ClientID c = i \<and> i \<noteq> ''''" if "attach_Get a i = Some c" for i c
    using ok att_key [OF ok] that by (auto simp: attach_Get_def att_ok_def)
  have wf: "gm_wf (at_driver a)" using ok by (simp add: att_ok_def)
  show ?thesis
  proof (cases "gm_get (at_clients a) i")
    case None
    then have "gm_get (at_driver a) s \<noteq> Some i" using drv [of s i] by (auto simp: attach_Get_def)
    then show ?thesis using None drv keys by (simp add: attach_Detach_def attach_Get_def fun_upd_idem)
  next
    case (Some c)
    then show ?thesis
      using drv keys gm_filter_value [OF wf, of "\<lambda>d. d \<noteq> i" s]
      by (auto simp: attach_Detach_def attach_Get_def gomap_simps fun_eq_iff split: option.splits)
  qed
qed

text \<open>Two viewers of one session.\<close>

definition demo_clients :: "attach_op list" where
  "demo_clients =
    [OpAttach \<lparr>ClientID = ''c1'', Interface = [], Viewing = ''a'', ClientSize = \<lparr>Rows = 50, Cols = 80\<rparr>\<rparr>,
     OpAttach \<lparr>ClientID = ''c2'', Interface = [], Viewing = ''a'', ClientSize = \<lparr>Rows = 24, Cols = 200\<rparr>\<rparr>,
     OpSetDriver ''a'' ''c1'']"

theorem attach_invariant_witness:
  "attach_Get (snd (attach_Detach (attach_run demo_clients) ''c1'')) ''c1'' = None \<and>
   gm_get (at_driver (snd (attach_Detach (attach_run demo_clients) ''c1''))) ''a'' = None"
proof -
  have "gm_get (at_driver (attach_run demo_clients)) ''a'' = Some ''c1''" by code_simp
  then show ?thesis using attach_invariant [OF refl, of demo_clients "''c1''" "''a''"] by simp
qed

theorem smallest_wins_witness:
  "\<exists>sz. NegotiatedSize (attach_run demo_clients) ''a'' SmallestWins = Some sz \<and> Rows sz \<le> 24 \<and> Cols sz \<le> 80"
proof -
  let ?a = "attach_run demo_clients"
  have ok: "att_ok ?a" by (rule att_ok_run)
  then have "gm_wf (at_clients ?a)" by (auto simp: att_ok_def intro: gm_keyed_wf)
  then have same: "same_map (at_clients ?a) (at_clients ?a)" by simp
  have "NegotiatedSize ?a ''a'' SmallestWins = Some \<lparr>Rows = 24, Cols = 80\<rparr>" by code_simp
  with smallest_wins [OF ok same refl, of "''a''"] show ?thesis by auto
qed

end
