(* ===== verification/Server.thy ===== *)
theory Server
  imports Attach SessionLife
begin

text \<open>
  Package \<open>internal/server\<close> (\<open>server.go\<close>): the always-on server, which ties the registry, the
  session manager and the attachments together.

  The state is the record \<open>Server\<close>.  The SSH side is a parameter: \<open>verify\<close> and \<open>opn\<close> are the
  dialer's \<open>Verify\<close> and \<open>Open\<close>, \<open>index\<close> the indexer's \<open>Index\<close>, \<open>now\<close> the clock, and what the
  inbound server does between startup and shutdown is the argument \<open>work\<close> of \<open>Run\<close>.  The
  errors of calls whose result the code drops (\<open>_ =\<close>) are dropped here as well.
\<close>

section \<open>State\<close>

record Server =
  srv_cfg :: Config
  srv_hosts :: fileRegistry
  srv_disk :: disk
  srv_sessions :: manager
  srv_clients :: attachments

datatype server_error =
    NoHandler | LoadRegistry registry_error | ConnectVerify remote_error | ConnectAdd registry_error
  | JumpUnknown string | JumpNotRunning string | ViewFailed attach_error | OpenProjectFailed session_error
  | ServeFailed string

text \<open>\<open>New\<close>: a session manager is told to report hosts that go down; \<open>dmux connect\<close> passes none.\<close>

definition server_New :: "Config \<Rightarrow> fileRegistry \<Rightarrow> disk \<Rightarrow> manager option \<Rightarrow> attachments \<Rightarrow> Server" where
  "server_New cfg reg fs sessions clients = \<lparr>srv_cfg = cfg, srv_hosts = reg, srv_disk = fs,
     srv_sessions = (case sessions of Some m \<Rightarrow> SetHostDownHook True m | None \<Rightarrow> NewManager),
     srv_clients = clients\<rparr>"

definition set_status :: "int \<Rightarrow> string \<Rightarrow> Status \<Rightarrow> Server \<Rightarrow> Server" where
  "set_status now i st srv =
    (case SetStatus now (srv_hosts srv) i st (srv_disk srv) of
       (_, r, fs) \<Rightarrow> srv\<lparr>srv_hosts := r, srv_disk := fs\<rparr>)"

section \<open>Sizes and views\<close>

definition renegotiate :: "string \<Rightarrow> Server \<Rightarrow> Server" where
  "renegotiate target srv =
    (case NegotiatedSize (srv_clients srv) target (CfgResizePolicy (srv_cfg srv)) of
       None \<Rightarrow> srv
     | Some sz \<Rightarrow> srv\<lparr>srv_sessions := snd (manager_Resize (srv_sessions srv) target sz)\<rparr>)"

definition Jump :: "Server \<Rightarrow> string \<Rightarrow> string \<Rightarrow> server_error option \<times> Server" where
  "Jump srv c target =
    (case manager_Get (srv_sessions srv) target of
       None \<Rightarrow> (Some (JumpUnknown target), srv)
     | Some sess \<Rightarrow>
        if SessState sess \<noteq> StateRunning then (Some (JumpNotRunning target), srv)
        else
          let previous = (case attach_Get (srv_clients srv) c of Some cl \<Rightarrow> Viewing cl | None \<Rightarrow> '''')
          in case SetViewing (srv_clients srv) c target of
               (Some e, _) \<Rightarrow> (Some (ViewFailed e), srv)
             | (None, cl) \<Rightarrow>
                 let srv1 = srv\<lparr>srv_clients := cl\<rparr>;
                     srv2 = (if previous \<noteq> '''' \<and> previous \<noteq> target then renegotiate previous srv1 else srv1)
                 in (None, renegotiate target srv2))"

definition viewerSize :: "Server \<Rightarrow> string \<Rightarrow> Size" where
  "viewerSize srv c =
    (case attach_Get (srv_clients srv) c of
       Some cl \<Rightarrow> if Rows (ClientSize cl) > 0 \<and> Cols (ClientSize cl) > 0 then ClientSize cl
         else \<lparr>Rows = 24, Cols = 80\<rparr>
     | None \<Rightarrow> \<lparr>Rows = 24, Cols = 80\<rparr>)"

definition OpenProject ::
  "(Host \<Rightarrow> OpenSpec \<Rightarrow> remote_error + sshPTY) \<Rightarrow> string \<Rightarrow> int \<Rightarrow> Server \<Rightarrow> string \<Rightarrow> Project
     \<Rightarrow> (server_error option \<times> string) \<times> Server" where
  "OpenProject opn i now srv c p =
    (case manager_Find (srv_sessions srv) (KeyOf p) of
       Some j \<Rightarrow>
         (case Jump srv c j of
            (Some e, srv1) \<Rightarrow> ((Some e, ''''), srv1)
          | (None, srv1) \<Rightarrow> ((None, j), srv1))
     | None \<Rightarrow>
         (case manager_Create (registry_Get (srv_hosts srv)) opn (ScrollbackLines (srv_cfg srv)) i now
              (srv_sessions srv) \<lparr>SpecHost = ProjHost p, SpecRoot = ProjRoot p, SpecTitle = ProjName p,
                ReqSize = viewerSize srv c\<rparr> of
            (Inl e, m) \<Rightarrow> ((Some (OpenProjectFailed e), ''''), srv\<lparr>srv_sessions := m\<rparr>)
          | (Inr j, m) \<Rightarrow>
              let srv1 = set_status now (ProjHost p) StatusUp (srv\<lparr>srv_sessions := m\<rparr>)
              in case Jump srv1 c j of (e, srv2) \<Rightarrow> ((e, j), srv2)))"

section \<open>Host lifecycle\<close>

definition findByAddr :: "Server \<Rightarrow> string \<Rightarrow> string \<Rightarrow> string" where
  "findByAddr srv addr user =
    (case find (\<lambda>h. Addr h = addr \<and> User h = user) (registry_List (srv_hosts srv)) of
       Some h \<Rightarrow> HostID h
     | None \<Rightarrow> '''')"

definition Connect :: "(Host \<Rightarrow> remote_error option) \<Rightarrow> int \<Rightarrow> Server \<Rightarrow> Host \<Rightarrow> server_error option \<times> Server" where
  "Connect verify now srv h =
    (case verify h of
       Some e \<Rightarrow> (Some (ConnectVerify e), srv)
     | None \<Rightarrow>
        (case registry_Add (srv_hosts srv) h (srv_disk srv) of
           (Some e, r, fs) \<Rightarrow> (Some (ConnectAdd e), srv\<lparr>srv_hosts := r, srv_disk := fs\<rparr>)
         | (None, r, fs) \<Rightarrow>
             let srv1 = srv\<lparr>srv_hosts := r, srv_disk := fs\<rparr>; added = findByAddr srv1 (Addr h) (User h)
             in (None, if added \<noteq> '''' then set_status now added StatusUp srv1 else srv1)))"

definition server_SetHome :: "Server \<Rightarrow> string \<Rightarrow> HomeConfig \<Rightarrow> registry_error option \<times> Server" where
  "server_SetHome srv i cfg =
    (case SetHome (srv_hosts srv) i cfg (srv_disk srv) of
       (e, r, fs) \<Rightarrow> (e, srv\<lparr>srv_hosts := r, srv_disk := fs\<rparr>))"

definition anyOpenSession :: "Server \<Rightarrow> string option" where
  "anyOpenSession srv =
     map_option SessID (find (\<lambda>s. SessState s = StateRunning) (manager_List (srv_sessions srv)))"

text \<open>The body of the loop over the clients.\<close>

definition move_client :: "string list \<Rightarrow> Server \<Rightarrow> Client \<Rightarrow> Server" where
  "move_client closed srv c =
    (if Viewing c \<notin> set closed then srv
     else case anyOpenSession srv of
       None \<Rightarrow> srv
     | Some target \<Rightarrow>
         renegotiate target (srv\<lparr>srv_clients := snd (SetViewing (srv_clients srv) (ClientID c) target)\<rparr>))"

definition onHostDown :: "int \<Rightarrow> string \<Rightarrow> Server \<Rightarrow> Server" where
  "onHostDown now h srv =
    (case manager_CloseHost (srv_sessions srv) h of (closed, m) \<Rightarrow>
      let srv1 = set_status now h StatusDown (srv\<lparr>srv_sessions := m\<rparr>)
      in foldl (move_client closed) srv1 (attach_List (srv_clients srv1)))"

section \<open>The project picker\<close>

text \<open>
  One goroutine per host that is not down writes its slot of \<open>results\<close>; \<open>order\<close> is the order
  in which they finish.
\<close>

definition index_slot :: "(Host \<Rightarrow> index_error + Project list) \<Rightarrow> Host list \<Rightarrow> Project list list \<Rightarrow> nat \<Rightarrow> Project list list" where
  "index_slot index hs results i =
    (if HostStatus (hs ! i) = StatusDown then results
     else case index (hs ! i) of Inl _ \<Rightarrow> results | Inr projs \<Rightarrow> results[i := projs])"

definition index_all :: "(Host \<Rightarrow> index_error + Project list) \<Rightarrow> Host list \<Rightarrow> nat list \<Rightarrow> Project list list" where
  "index_all index hs order = foldl (index_slot index hs) (replicate (length hs) []) order"

definition merge_step :: "Key list \<times> Project list \<Rightarrow> Project \<Rightarrow> Key list \<times> Project list" where
  "merge_step acc p = (case acc of (seen, out) \<Rightarrow>
     if KeyOf p \<in> set seen then (seen, out) else (KeyOf p # seen, out @ [p]))"

definition Projects :: "(Host \<Rightarrow> index_error + Project list) \<Rightarrow> nat list \<Rightarrow> Server \<Rightarrow> Project list" where
  "Projects index order srv =
     snd (foldl merge_step ([], []) (concat (index_all index (registry_List (srv_hosts srv)) order)))"

section \<open>Startup and shutdown\<close>

definition reset_statuses :: "int \<Rightarrow> Server \<Rightarrow> Server" where
  "reset_statuses now srv =
     foldl (\<lambda>srv h. if HostStatus h \<noteq> StatusUnknown then set_status now (HostID h) StatusUnknown srv else srv)
       srv (registry_List (srv_hosts srv))"

definition close_all :: "Server \<Rightarrow> Server" where
  "close_all srv =
     foldl (\<lambda>srv s. srv\<lparr>srv_sessions := snd (manager_Close (srv_sessions srv) (SessID s))\<rparr>)
       srv (manager_List (srv_sessions srv))"

datatype run_end = CtxDone | ServeReturned "server_error option"

definition Run :: "bool \<Rightarrow> int \<Rightarrow> (Server \<Rightarrow> Server) \<Rightarrow> run_end \<Rightarrow> Server \<Rightarrow> server_error option \<times> Server" where
  "Run handler now work ending srv =
    (if \<not> handler then (Some NoHandler, srv)
     else case registry_Load (srv_hosts srv) (srv_disk srv) of
       (Some e, r) \<Rightarrow> (Some (LoadRegistry e), srv\<lparr>srv_hosts := r\<rparr>)
     | (None, r) \<Rightarrow>
        let srv1 = work (reset_statuses now (srv\<lparr>srv_hosts := r\<rparr>))
        in case ending of
             CtxDone \<Rightarrow> (None, close_all srv1)
           | ServeReturned e \<Rightarrow> (e, srv1))"

section \<open>The invariant\<close>

definition srv_ok :: "Server \<Rightarrow> bool" where
  "srv_ok srv \<longleftrightarrow> mgr_reach (srv_sessions srv) \<and> att_ok (srv_clients srv) \<and> reg_wf (srv_hosts srv)"

lemma Resize_reach: "mgr_reach m \<Longrightarrow> mgr_reach (snd (manager_Resize m i s))"
  using call_reach [of m "CallResize s" i] by simp

lemma CloseHost_reach: "mgr_reach m \<Longrightarrow> mgr_reach (snd (manager_CloseHost m h))"
  using call_reach [of m CallCloseHost h] by simp

lemma Close_reach: "mgr_reach m \<Longrightarrow> mgr_reach (snd (manager_Close m i))"
  using call_reach [of m CallClose i] by simp

definition resized :: "string \<Rightarrow> Size \<Rightarrow> Session \<Rightarrow> Session" where
  "resized i sz s = (if SessID s = i then s\<lparr>SessSize := sz\<rparr> else s)"

lemma resized_simps [simp]:
  "SessID (resized i sz s) = SessID s" "SessState (resized i sz s) = SessState s"
  "SessHost (resized i sz s) = SessHost s" "SessProject (resized i sz s) = SessProject s"
  "stamp_of (resized i sz s) = stamp_of s"
  by (simp_all add: resized_def stamp_of_def)

lemma Resize_at:
  assumes "mgr_ok m" "gm_get (m_sessions m) j = Some p"
  shows "session_at (snd (manager_Resize m i sz)) p = resized i sz (session_at m p)"
proof (cases "gm_get (m_sessions m) i")
  case None
  then have "j \<noteq> i" using assms(2) by auto
  then show ?thesis
    using None mgr_sess [OF assms(1), of j p] assms(2)
    by (auto simp: manager_Resize_def lookup_def resized_def)
next
  case (Some q)
  then have q: "q < length (m_heap m)" "SessID (session_at m q) = i"
    using mgr_sess [OF assms(1), of i q] by simp_all
  have p: "SessID (session_at m p) = j" using mgr_sess [OF assms(1), of j p] assms(2) by simp
  have res: "session_at (snd (manager_Resize m i sz)) p =
      (if p = q then (session_at m p)\<lparr>SessSize := sz\<rparr> else session_at m p)"
    using Some q(1) by (cases "p = q")
      (simp_all add: manager_Resize_def lookup_def upd_live_def session_at_def split: prod.split)
  show ?thesis
  proof (cases "p = q")
    case True
    then show ?thesis using res q(2) by (simp add: resized_def)
  next
    case False
    then have "j \<noteq> i" using Some assms(2) by auto
    then show ?thesis using res p False by (simp add: resized_def)
  qed
qed

lemma Resize_sessions [simp]: "m_sessions (snd (manager_Resize m i sz)) = m_sessions m"
  "m_byKey (snd (manager_Resize m i sz)) = m_byKey m"
  by (auto simp: manager_Resize_def upd_live_def split: sum.splits prod.splits)

lemma Resize_Get:
  "mgr_ok m \<Longrightarrow> manager_Get (snd (manager_Resize m i sz)) j = map_option (resized i sz) (manager_Get m j)"
  using Resize_at [of m j _ i sz] by (cases "gm_get (m_sessions m) j") (simp_all add: manager_Get_def)

lemma Resize_List:
  assumes "mgr_ok m"
  shows "manager_List (snd (manager_Resize m i sz)) = map (resized i sz) (manager_List m)"
proof -
  have "gm_wf (m_sessions m)" using assms by (simp add: mgr_ok_def maps_ok_def)
  then have "map (session_at (snd (manager_Resize m i sz))) (map snd (m_sessions m)) =
      map (resized i sz) (map (session_at m) (map snd (m_sessions m)))"
    using Resize_at [OF assms, of _ _ i sz] by (auto simp: gm_mem_iff)
  then show ?thesis
    unfolding manager_List_def Resize_sessions by (simp add: sort_key_map_inv del: map_map)
qed

lemma renegotiate_frame [simp]:
  "srv_clients (renegotiate t srv) = srv_clients srv" "srv_hosts (renegotiate t srv) = srv_hosts srv"
  "srv_disk (renegotiate t srv) = srv_disk srv" "srv_cfg (renegotiate t srv) = srv_cfg srv"
  by (simp_all add: renegotiate_def split: option.splits)

lemma renegotiate_ok: "srv_ok srv \<Longrightarrow> srv_ok (renegotiate t srv)"
  by (simp add: srv_ok_def renegotiate_def Resize_reach split: option.splits)

lemma find_map_same: "(\<And>x. P (f x) = P x) \<Longrightarrow> find P (map f xs) = map_option f (find P xs)"
  by (induction xs) auto

lemma renegotiate_open:
  "srv_ok srv \<Longrightarrow> anyOpenSession (renegotiate t srv) = anyOpenSession srv"
  by (auto simp: renegotiate_def anyOpenSession_def srv_ok_def Resize_List [OF mgr_reach_ok]
      find_map_same option.map_comp comp_def split: option.split)

lemma set_status_frame [simp]:
  "srv_clients (set_status now i st srv) = srv_clients srv"
  "srv_sessions (set_status now i st srv) = srv_sessions srv"
  "srv_cfg (set_status now i st srv) = srv_cfg srv"
  by (simp_all add: set_status_def split: prod.splits)

lemma set_status_get:
  "registry_Get (srv_hosts (set_status now i st srv)) =
     (\<lambda>j. if j = i then map_option (\<lambda>h. h\<lparr>HostStatus := st, LastSeen := now\<rparr>) (registry_Get (srv_hosts srv) i)
        else registry_Get (srv_hosts srv) j)"
proof (cases "SetStatus now (srv_hosts srv) i st (srv_disk srv)")
  case (fields e r fs)
  then show ?thesis using status.setter_get [OF fields] by (simp add: set_status_def)
qed

lemma set_status_wf: "reg_wf (srv_hosts srv) \<Longrightarrow> reg_wf (srv_hosts (set_status now i st srv))"
proof (cases "SetStatus now (srv_hosts srv) i st (srv_disk srv)")
  case (fields e r fs)
  then show "reg_wf (srv_hosts srv) \<Longrightarrow> ?thesis"
    using status.setter_wf [OF _ fields] by (simp add: set_status_def)
qed

lemma set_status_ok: "srv_ok srv \<Longrightarrow> srv_ok (set_status now i st srv)"
  by (simp add: srv_ok_def set_status_wf)

section \<open>Every viewed session has its negotiated size\<close>

definition sized_at :: "Server \<Rightarrow> string \<Rightarrow> bool" where
  "sized_at srv i \<longleftrightarrow> (\<forall>s sz. manager_Get (srv_sessions srv) i = Some s \<longrightarrow>
     NegotiatedSize (srv_clients srv) i (CfgResizePolicy (srv_cfg srv)) = Some sz \<longrightarrow> SessSize s = sz)"

lemma renegotiate_get:
  assumes "srv_ok srv"
  shows "manager_Get (srv_sessions (renegotiate t srv)) i =
    (case NegotiatedSize (srv_clients srv) t (CfgResizePolicy (srv_cfg srv)) of
       None \<Rightarrow> manager_Get (srv_sessions srv) i
     | Some sz \<Rightarrow> map_option (resized t sz) (manager_Get (srv_sessions srv) i))"
  using assms by (simp add: renegotiate_def srv_ok_def Resize_Get [OF mgr_reach_ok] split: option.split)

lemma Get_id: "mgr_reach m \<Longrightarrow> manager_Get m i = Some s \<Longrightarrow> SessID s = i"
  using mgr_sess [OF mgr_reach_ok, of m i] by (auto simp: manager_Get_def)

lemma renegotiate_sized: "srv_ok srv \<Longrightarrow> sized_at (renegotiate t srv) t"
  using Get_id [of "srv_sessions srv" t] by (auto simp: sized_at_def renegotiate_get resized_def srv_ok_def)

lemma renegotiate_keeps:
  assumes "srv_ok srv" "i \<noteq> t"
  shows "sized_at (renegotiate t srv) i \<longleftrightarrow> sized_at srv i"
proof -
  have "map_option (resized t sz) (manager_Get (srv_sessions srv) i) = manager_Get (srv_sessions srv) i" for sz
    using assms Get_id [of "srv_sessions srv" i]
    by (cases "manager_Get (srv_sessions srv) i") (auto simp: srv_ok_def resized_def)
  then show ?thesis
    using assms(1) by (simp add: sized_at_def renegotiate_get split: option.split)
qed

text \<open>Moving a client and renegotiating the two sessions concerned.\<close>

lemma move_sized:
  assumes ok: "srv_ok srv" and sized: "\<And>i. i \<noteq> '''' \<Longrightarrow> sized_at srv i"
    and prev: "\<And>cl. attach_Get (srv_clients srv) c = Some cl \<Longrightarrow> Viewing cl = previous"
    and i: "i \<noteq> ''''"
    and srv1_def: "srv1 = srv\<lparr>srv_clients := snd (SetViewing (srv_clients srv) c target)\<rparr>"
  shows "sized_at (renegotiate target
    (if previous \<noteq> '''' \<and> previous \<noteq> target then renegotiate previous srv1 else srv1)) i"
proof -
  have ok1: "srv_ok srv1" using ok by (simp add: srv1_def srv_ok_def SetViewing_ok)
  let ?srv2 = "if previous \<noteq> '''' \<and> previous \<noteq> target then renegotiate previous srv1 else srv1"
  have ok2: "srv_ok ?srv2" using ok1 by (simp add: renegotiate_ok)
  show ?thesis
  proof (cases "i = target")
    case True
    then show ?thesis using renegotiate_sized [OF ok2] by simp
  next
    case other: False
    have "sized_at ?srv2 i"
    proof (cases "i = previous")
      case True
      then show ?thesis using other i renegotiate_sized [OF ok1] by simp
    next
      case False
      have "sized_at srv1 i \<longleftrightarrow> sized_at srv i"
      proof -
        have "attach_Get (srv_clients srv) c = None \<or>
            (\<exists>cl. attach_Get (srv_clients srv) c = Some cl \<and> Viewing cl \<noteq> i)"
          using prev False by (cases "attach_Get (srv_clients srv) c") auto
        from negotiated_move [OF _ other this] show ?thesis
          using ok by (simp add: sized_at_def srv1_def srv_ok_def)
      qed
      then show ?thesis using sized [OF i] renegotiate_keeps [OF ok1 False] by simp
    qed
    then show ?thesis using renegotiate_keeps [OF ok2 other] by simp
  qed
qed

lemma Jump_success:
  assumes "Jump srv c target = (None, srv')"
  shows "\<exists>s cl. manager_Get (srv_sessions srv) target = Some s \<and> SessState s = StateRunning \<and>
    attach_Get (srv_clients srv) c = Some cl \<and>
    srv' = renegotiate target (if Viewing cl \<noteq> '''' \<and> Viewing cl \<noteq> target
      then renegotiate (Viewing cl) (srv\<lparr>srv_clients := snd (SetViewing (srv_clients srv) c target)\<rparr>)
      else srv\<lparr>srv_clients := snd (SetViewing (srv_clients srv) c target)\<rparr>)"
  using assms by (auto simp: Jump_def SetViewing_def attach_Get_def Let_def split: option.splits if_splits)

lemma Jump_ok: "srv_ok srv \<Longrightarrow> Jump srv c target = (e, srv') \<Longrightarrow> srv_ok srv'"
proof (cases e)
  case None
  assume ok: "srv_ok srv" and "Jump srv c target = (e, srv')"
  from Jump_success [OF this(2) [unfolded None]] obtain cl :: Client where
    "srv' = renegotiate target (if Viewing cl \<noteq> '''' \<and> Viewing cl \<noteq> target
      then renegotiate (Viewing cl) (srv\<lparr>srv_clients := snd (SetViewing (srv_clients srv) c target)\<rparr>)
      else srv\<lparr>srv_clients := snd (SetViewing (srv_clients srv) c target)\<rparr>)" by blast
  moreover have "srv_ok (srv\<lparr>srv_clients := snd (SetViewing (srv_clients srv) c target)\<rparr>)"
    using ok by (simp add: srv_ok_def SetViewing_ok)
  ultimately show ?thesis by (simp add: renegotiate_ok)
next
  case (Some err)
  then show "srv_ok srv \<Longrightarrow> Jump srv c target = (e, srv') \<Longrightarrow> ?thesis"
    by (auto simp: Jump_def Let_def split: option.splits if_splits prod.splits)
qed

lemma Resize_ids [simp]: "ids (snd (manager_Resize m i sz)) = ids m"
proof (cases "gm_get (m_sessions m) i")
  case None
  then show ?thesis by (simp add: manager_Resize_def lookup_def)
next
  case (Some p)
  have "map (\<lambda>ls. SessID (ls_rec ls)) ((m_heap m)[p := ls]) = map (\<lambda>ls. SessID (ls_rec ls)) (m_heap m)"
    if "SessID (ls_rec ls) = SessID (ls_rec (m_heap m ! p))" for ls
    using that by (cases "p < length (m_heap m)") (simp_all add: map_update list_update_same_conv list_update_beyond)
  then show ?thesis
    using Some by (simp add: manager_Resize_def lookup_def ids_def upd_live_def split: prod.split)
qed

text \<open>Renegotiation changes the size of a session and nothing else of it.\<close>

definition unsized :: "Session \<Rightarrow> Session" where
  "unsized s = s\<lparr>SessSize := \<lparr>Rows = 0, Cols = 0\<rparr>\<rparr>"

lemma unsized_simps [simp]:
  "SessID (unsized s) = SessID s" "SessState (unsized s) = SessState s"
  "SessHost (unsized s) = SessHost s" "SessProject (unsized s) = SessProject s"
  "unsized (resized t sz s) = unsized s"
  by (simp_all add: unsized_def resized_def)

definition same_sessions :: "Server \<Rightarrow> Server \<Rightarrow> bool" where
  "same_sessions srv srv' \<longleftrightarrow> ids (srv_sessions srv') = ids (srv_sessions srv) \<and>
     (\<forall>j. map_option unsized (manager_Get (srv_sessions srv') j) =
        map_option unsized (manager_Get (srv_sessions srv) j))"

lemma same_sessions_refl: "srv_sessions srv' = srv_sessions srv \<Longrightarrow> same_sessions srv srv'"
  by (simp add: same_sessions_def)

lemma same_sessions_trans: "same_sessions a b \<Longrightarrow> same_sessions b c \<Longrightarrow> same_sessions a c"
  by (simp add: same_sessions_def)

lemma same_sessions_get:
  "same_sessions srv srv' \<Longrightarrow> manager_Get (srv_sessions srv) j = Some s \<Longrightarrow>
     \<exists>s'. manager_Get (srv_sessions srv') j = Some s' \<and> unsized s' = unsized s"
  unfolding same_sessions_def by (metis map_option_eq_Some)

lemma renegotiate_ids [simp]: "ids (srv_sessions (renegotiate t srv)) = ids (srv_sessions srv)"
  by (simp add: renegotiate_def split: option.split)

lemma renegotiate_same: "srv_ok srv \<Longrightarrow> same_sessions srv (renegotiate t srv)"
  by (simp add: same_sessions_def renegotiate_get option.map_comp comp_def split: option.split)

lemma Jump_same:
  assumes ok: "srv_ok srv" and run: "Jump srv c target = (None, srv')"
  shows "same_sessions srv srv' \<and> srv_hosts srv' = srv_hosts srv \<and> srv_disk srv' = srv_disk srv"
proof -
  let ?srv1 = "srv\<lparr>srv_clients := snd (SetViewing (srv_clients srv) c target)\<rparr>"
  from Jump_success [OF run] obtain cl :: Client where
    srv': "srv' = renegotiate target (if Viewing cl \<noteq> '''' \<and> Viewing cl \<noteq> target
      then renegotiate (Viewing cl) ?srv1 else ?srv1)" by blast
  have ok1: "srv_ok ?srv1" using ok by (simp add: srv_ok_def SetViewing_ok)
  have "same_sessions srv ?srv1" by (simp add: same_sessions_refl)
  moreover have "same_sessions ?srv1 srv'"
  proof (cases "Viewing cl \<noteq> '''' \<and> Viewing cl \<noteq> target")
    case True
    have "same_sessions ?srv1 (renegotiate target (renegotiate (Viewing cl) ?srv1))"
      by (rule same_sessions_trans [OF renegotiate_same [OF ok1] renegotiate_same [OF renegotiate_ok [OF ok1]]])
    then show ?thesis using True by (simp add: srv')
  next
    case False
    then have "srv' = renegotiate target ?srv1" unfolding srv' by (simp only: if_False)
    then show ?thesis using renegotiate_same [OF ok1] by simp
  qed
  ultimately have "same_sessions srv srv'" by (rule same_sessions_trans)
  then show ?thesis by (simp add: srv')
qed

lemma Jump_view:
  assumes "srv_ok srv" "Jump srv c target = (None, srv')"
  shows "map_option Viewing (attach_Get (srv_clients srv') c) = Some target"
  using Jump_success [OF assms(2)] by (auto simp: SetViewing_get)

lemma Jump_when:
  "manager_Get (srv_sessions srv) target = Some s \<Longrightarrow> SessState s = StateRunning \<Longrightarrow>
   attach_Get (srv_clients srv) c = Some cl \<Longrightarrow> fst (Jump srv c target) = None"
  by (simp add: Jump_def SetViewing_def attach_Get_def Let_def)

lemma Jump_error: "Jump srv c target = (Some e, srv') \<Longrightarrow> srv' = srv"
  by (auto simp: Jump_def Let_def split: option.splits if_splits prod.splits)

section \<open>Properties\<close>

text \<open>C3: \<open>Jump\<close>.  It succeeds exactly when the target is a running session and the client is
  attached; otherwise it names the reason and changes nothing.  On success the client, and no
  other, views the target, and if every viewed session had its negotiated size before, every
  one has it afterwards: the one that was left, the one that was joined, and all others.\<close>

theorem Jump_spec:
  assumes ok: "srv_ok srv" and run: "Jump srv c target = (e, srv')"
  shows "(e = None \<longleftrightarrow> (\<exists>s. manager_Get (srv_sessions srv) target = Some s \<and> SessState s = StateRunning) \<and>
      attach_Get (srv_clients srv) c \<noteq> None) \<and>
    (e \<noteq> None \<longrightarrow> srv' = srv) \<and>
    (e = None \<longrightarrow> attach_Get (srv_clients srv') = (attach_Get (srv_clients srv))
        (c := map_option (\<lambda>cl. cl\<lparr>Viewing := target\<rparr>) (attach_Get (srv_clients srv) c)) \<and>
      ((\<forall>i. i \<noteq> '''' \<longrightarrow> sized_at srv i) \<longrightarrow> (\<forall>i. i \<noteq> '''' \<longrightarrow> sized_at srv' i)))"
proof -
  have iff: "e = None \<longleftrightarrow> (\<exists>s. manager_Get (srv_sessions srv) target = Some s \<and> SessState s = StateRunning) \<and>
      attach_Get (srv_clients srv) c \<noteq> None"
    using run by (auto simp: Jump_def SetViewing_def attach_Get_def Let_def split: option.splits if_splits)
  show ?thesis
  proof (cases e)
    case None
    from Jump_success [OF run [unfolded None]] obtain s cl where
      cl: "attach_Get (srv_clients srv) c = Some cl" and
      srv': "srv' = renegotiate target (if Viewing cl \<noteq> '''' \<and> Viewing cl \<noteq> target
        then renegotiate (Viewing cl) (srv\<lparr>srv_clients := snd (SetViewing (srv_clients srv) c target)\<rparr>)
        else srv\<lparr>srv_clients := snd (SetViewing (srv_clients srv) c target)\<rparr>)" by blast
    have "attach_Get (srv_clients srv') = (attach_Get (srv_clients srv))
        (c := map_option (\<lambda>cl. cl\<lparr>Viewing := target\<rparr>) (attach_Get (srv_clients srv) c))"
      by (simp add: srv' SetViewing_get fun_upd_def)
    moreover have "\<forall>i. i \<noteq> '''' \<longrightarrow> sized_at srv' i" if "\<forall>i. i \<noteq> '''' \<longrightarrow> sized_at srv i"
      unfolding srv' using move_sized [OF ok _ _ _ refl, of c "Viewing cl" _ target] that cl by simp
    ultimately show ?thesis using iff None by blast
  next
    case (Some err)
    then show ?thesis using iff run Jump_error by auto
  qed
qed

text \<open>A server with the session of the earlier example and one client that views nothing.\<close>

definition demo_cfg :: Config where
  "demo_cfg = \<lparr>ListenAddr = [], DataDir = ''/d'', HostKeyPath = [], PrefixKey = ''C-b'', ScrollbackLines = 10,
     CfgResizePolicy = SmallestWins, DialTimeout = 10\<rparr>"

definition demo_srv :: Server where
  "demo_srv = \<lparr>srv_cfg = demo_cfg,
     srv_hosts = \<lparr>path = ''/d/hosts.json'', hosts = [(''h'', demo_host)]\<rparr>, srv_disk = empty_fs,
     srv_sessions = demo_state,
     srv_clients = attach_run [OpAttach \<lparr>ClientID = ''c'', Interface = [], Viewing = [],
       ClientSize = \<lparr>Rows = 40, Cols = 100\<rparr>\<rparr>]\<rparr>"

lemma demo_srv_ok: "srv_ok demo_srv"
  by (simp add: srv_ok_def demo_srv_def demo_reach att_ok_run reg_wf_def gm_keyed_def gm_wf_def demo_host_def)

theorem Jump_spec_witness:
  "fst (Jump demo_srv ''c'' ''a'') = None \<and>
   attach_Get (srv_clients (snd (Jump demo_srv ''c'' ''a''))) ''c'' =
     map_option (\<lambda>cl. cl\<lparr>Viewing := ''a''\<rparr>) (attach_Get (srv_clients demo_srv) ''c'')"
proof -
  have s: "fst (Jump demo_srv ''c'' ''a'') = None" by code_simp
  have p: "Jump demo_srv ''c'' ''a'' = (fst (Jump demo_srv ''c'' ''a''), snd (Jump demo_srv ''c'' ''a''))"
    by simp
  from Jump_spec [OF demo_srv_ok p] s show ?thesis by simp
qed

lemma Create_reach:
  assumes "mgr_reach m" "i \<notin> set (ids m)" "\<And>host spec pty. opn host spec = Inr pty \<Longrightarrow> pty_ok pty"
  shows "mgr_reach (snd (manager_Create get opn lines i now m spec))"
proof (cases "snd (manager_Create get opn lines i now m spec) = m")
  case True
  then show ?thesis using assms(1) by simp
next
  case False
  then obtain host pty where "opn host \<lparr>Cwd = SpecRoot spec, SpecSize = ReqSize spec\<rparr> = Inr pty" and
    m': "snd (manager_Create get opn lines i now m spec) =
      register_live (new_live ((new_session i spec now)\<lparr>SessState := StateRunning\<rparr>) pty lines) m"
    by (auto simp: manager_Create_def Let_def split: option.splits sum.splits)
  then have "admissible (Register i spec now lines pty) m"
    using assms(2,3) by (auto simp: admissible_def)
  from mgr_step [OF assms(1) this] show ?thesis by (simp add: m')
qed

text \<open>Jumping changes views and sizes only.\<close>

lemma Jump_frame:
  assumes "srv_ok srv" "Jump srv c t = (e, srv')"
  shows "same_sessions srv srv' \<and> srv_hosts srv' = srv_hosts srv"
proof (cases e)
  case None
  then show ?thesis using Jump_same [OF assms(1)] assms(2) by simp
next
  case (Some err)
  then show ?thesis using assms(2) Jump_error [of srv c t err srv'] by (simp add: same_sessions_refl)
qed

lemma Jump_open:
  assumes ok: "srv_ok srv" and jump: "Jump srv c i = (e, srv')"
    and s: "manager_Get (srv_sessions srv) i = Some s" "SessState s = StateRunning"
  shows "\<exists>s'. manager_Get (srv_sessions srv') i = Some s' \<and> SessProject s' = SessProject s \<and> SessState s' = StateRunning"
    and "attach_Get (srv_clients srv) c \<noteq> None \<longrightarrow> e = None"
    and "e = None \<longrightarrow> map_option Viewing (attach_Get (srv_clients srv') c) = Some i"
    and "\<nexists>x. e = Some (OpenProjectFailed x)"
proof -
  obtain s' where s': "manager_Get (srv_sessions srv') i = Some s'" "unsized s' = unsized s"
    using same_sessions_get [OF conjunct1 [OF Jump_frame [OF ok jump]] s(1)] by blast
  then have "SessProject s' = SessProject s" "SessState s' = SessState s"
    using unsized_simps(2,4) [of s'] unsized_simps(2,4) [of s] by metis+
  then show "\<exists>s'. manager_Get (srv_sessions srv') i = Some s' \<and> SessProject s' = SessProject s \<and> SessState s' = StateRunning"
    using s'(1) s(2) by simp
qed (use Jump_view [OF ok] Jump_when [OF s, of c] jump in
  \<open>auto simp: Jump_def Let_def split: option.splits if_splits prod.splits\<close>)

text \<open>The request \<open>OpenProject\<close> makes, and what comes of it.\<close>

definition project_spec :: "Server \<Rightarrow> string \<Rightarrow> Project \<Rightarrow> Spec" where
  "project_spec srv c p = \<lparr>SpecHost = ProjHost p, SpecRoot = ProjRoot p, SpecTitle = ProjName p, ReqSize = viewerSize srv c\<rparr>"

lemma OpenProject_creates:
  assumes ok: "srv_ok srv" and fresh: "i \<notin> set (ids (srv_sessions srv))"
    and dialer: "\<And>host spec pty. opn host spec = Inr pty \<Longrightarrow> pty_ok pty"
    and none: "manager_Find (srv_sessions srv) (KeyOf p) = None" and run: "OpenProject opn i now srv c p = ((e, j), srv')"
  shows "j = '''' \<and> srv' = srv \<and> (\<exists>x. e = Some (OpenProjectFailed x)) \<or>
    (\<exists>m. mgr_reach m \<and> manager_Get m = (manager_Get (srv_sessions srv))
        (i \<mapsto> (new_session i (project_spec srv c p) now)\<lparr>SessState := StateRunning\<rparr>) \<and> j = i \<and>
       Jump (set_status now (ProjHost p) StatusUp (srv\<lparr>srv_sessions := m\<rparr>)) c i = (e, srv'))"
proof -
  have reach: "mgr_reach (srv_sessions srv)" using ok by (simp add: srv_ok_def)
  obtain r m where cr: "manager_Create (registry_Get (srv_hosts srv)) opn (ScrollbackLines (srv_cfg srv)) i now
    (srv_sessions srv) (project_spec srv c p) = (r, m)" by fastforce
  note res = Create_result [OF reach fresh, where get = "registry_Get (srv_hosts srv)" and opn = opn
        and lines = "ScrollbackLines (srv_cfg srv)" and now = now and spec = "project_spec srv c p", unfolded cr]
  have "mgr_reach m"
    using Create_reach [OF reach fresh, where opn = opn and get = "registry_Get (srv_hosts srv)"
        and lines = "ScrollbackLines (srv_cfg srv)" and now = now and spec = "project_spec srv c p"] dialer cr by simp
  then show ?thesis
    using res run none cr
    by (auto simp: OpenProject_def project_spec_def Let_def split: sum.splits session_error.splits prod.splits)
qed


definition demo_project :: Project where
  "demo_project = \<lparr>ProjHost = ''h'', ProjRoot = ''/q'', ProjName = ''q''\<rparr>"


section \<open>A host goes down\<close>

lemma move_client_ok: "srv_ok srv \<Longrightarrow> srv_ok (move_client closed srv c)"
  by (auto simp: move_client_def intro!: renegotiate_ok split: option.split)
    (simp add: srv_ok_def SetViewing_ok)

lemma clients_open [simp]: "anyOpenSession (srv\<lparr>srv_clients := a\<rparr>) = anyOpenSession srv"
  by (simp add: anyOpenSession_def)

lemma move_client_open:
  assumes "srv_ok srv"
  shows "anyOpenSession (move_client closed srv c) = anyOpenSession srv"
proof -
  have "srv_ok (srv\<lparr>srv_clients := snd (SetViewing (srv_clients srv) i t)\<rparr>)" for i t
    using assms by (simp add: srv_ok_def SetViewing_ok)
  then show ?thesis by (simp add: move_client_def renegotiate_open split: option.split)
qed

lemma move_clients:
  assumes "srv_ok srv"
  shows "srv_ok (foldl (move_client closed) srv cs) \<and>
    srv_hosts (foldl (move_client closed) srv cs) = srv_hosts srv \<and>
    srv_clients (foldl (move_client closed) srv cs) =
      (case anyOpenSession srv of None \<Rightarrow> srv_clients srv
       | Some t \<Rightarrow> foldl (\<lambda>a c. snd (SetViewing a (ClientID c) t)) (srv_clients srv)
           (filter (\<lambda>c. Viewing c \<in> set closed) cs))"
  using assms
proof (induction cs arbitrary: srv)
  case Nil
  then show ?case by (simp split: option.split)
next
  case (Cons c cs)
  note IH = Cons.IH [OF move_client_ok [OF Cons.prems], of closed c]
  have "srv_hosts (move_client closed srv c) = srv_hosts srv"
    by (simp add: move_client_def split: option.split)
  moreover have "srv_clients (move_client closed srv c) = (case anyOpenSession srv of None \<Rightarrow> srv_clients srv
      | Some t \<Rightarrow> if Viewing c \<in> set closed then snd (SetViewing (srv_clients srv) (ClientID c) t) else srv_clients srv)"
    by (simp add: move_client_def split: option.split)
  ultimately show ?case
    using IH move_client_open [OF Cons.prems, of closed c] by (simp split: option.split)
qed

lemma open_same:
  "manager_List (srv_sessions srv') = manager_List (srv_sessions srv) \<Longrightarrow> anyOpenSession srv' = anyOpenSession srv"
  by (simp add: anyOpenSession_def)

lemma closed_of_host:
  assumes "mgr_reach m"
  shows "i \<in> set (fst (manager_CloseHost m h)) \<longleftrightarrow> (\<exists>s. manager_Get m i = Some s \<and> SessHost s = h)"
  using sm.closed_iff [OF mgr_reach_ok [OF assms], of i h] Get_id [OF assms, of i] by metis



section \<open>Findings about a host that goes down\<close>

text \<open>
  The hook runs after \<open>finalize\<close> took the dropped session out of the map, so \<open>CloseHost\<close> does
  not return it.  Here the only session of host \<open>h\<close> drops while a client views it and a
  session of another host is open.
\<close>

definition other_spec :: Spec where
  "other_spec = \<lparr>SpecHost = ''g'', SpecRoot = [], SpecTitle = [], ReqSize = \<lparr>Rows = 24, Cols = 80\<rparr>\<rparr>"

definition dropped_srv :: Server where
  "dropped_srv = demo_srv\<lparr>srv_sessions := after (Register ''z'' other_spec 8 10 new_pty # drop_run),
     srv_clients := snd (SetViewing (srv_clients demo_srv) ''c'' ''a'')\<rparr>"


section \<open>Registering a host\<close>

lemma registry_Add_ok:
  "registry_Add r h fs = (None, r', fs') \<Longrightarrow> registry_Get r' (HostID (with_id h)) = Some (with_id h)"
  by (auto simp: registry_Add_def Let_def gomap_simps dest!: store_hosts_mem split: option.splits)

lemma with_id_simps [simp]: "Addr (with_id h) = Addr h" "User (with_id h) = User h"
  by (simp_all add: with_id_def)

text \<open>\<open>Connect\<close>.  A host that fails verification is not registered and nothing changes; a host
  that cannot be added is reported; on success the host is in the registry under its ID and a
  host of that very address and user is marked up.\<close>

theorem Connect_spec:
  assumes ok: "srv_ok srv" and run: "Connect verify now srv h = (e, srv')"
    and ids: "\<And>x. x \<in> set (registry_List (srv_hosts srv')) \<Longrightarrow> HostID x \<noteq> ''''"
  shows "srv_ok srv' \<and>
    (case e of
       None \<Rightarrow> verify h = None \<and>
         map_option (\<lambda>x. x\<lparr>HostStatus := StatusUnknown, LastSeen := 0\<rparr>) (registry_Get (srv_hosts srv') (HostID (with_id h))) =
           Some ((with_id h)\<lparr>HostStatus := StatusUnknown, LastSeen := 0\<rparr>) \<and>
         (\<exists>x \<in> set (registry_List (srv_hosts srv')). Addr x = Addr h \<and> User x = User h \<and> HostStatus x = StatusUp)
     | Some (ConnectVerify v) \<Rightarrow> verify h = Some v \<and> srv' = srv
     | Some (ConnectAdd a) \<Rightarrow> verify h = None \<and>
         (a = RegDuplicate (HostID (with_id h)) \<and> srv_hosts srv' = srv_hosts srv \<or>
          registry_Get (srv_hosts srv) (HostID (with_id h)) = None)
     | _ \<Rightarrow> False)"
proof (cases "verify h")
  case (Some v)
  then show ?thesis using run ok by (auto simp: Connect_def)
next
  case None
  obtain e1 r fs where add: "registry_Add (srv_hosts srv) h (srv_disk srv) = (e1, r, fs)" by (metis prod_cases3)
  have wf: "reg_wf r" using ok Add_wf [OF _ add] by (simp add: srv_ok_def)
  show ?thesis
  proof (cases e1)
    case (Some a)
    then have "e = Some (ConnectAdd a)" "srv' = srv\<lparr>srv_hosts := r, srv_disk := fs\<rparr>"
      using run None add by (auto simp: Connect_def)
    moreover have "a = RegDuplicate (HostID (with_id h)) \<and> r = srv_hosts srv \<or>
        registry_Get (srv_hosts srv) (HostID (with_id h)) = None"
      using add Some by (auto simp: registry_Add_def registry_Get_def Let_def split: option.splits)
    ultimately show ?thesis using ok wf None by (auto simp: srv_ok_def)
  next
    case added: None
    define srv1 where "srv1 = srv\<lparr>srv_hosts := r, srv_disk := fs\<rparr>"
    have hosts1: "srv_hosts srv1 = r" by (simp add: srv1_def)
    have res: "e = None" "srv' = (if findByAddr srv1 (Addr h) (User h) \<noteq> ''''
        then set_status now (findByAddr srv1 (Addr h) (User h)) StatusUp srv1 else srv1)"
      using run None add added by (auto simp: Connect_def srv1_def Let_def)
    have get: "registry_Get r (HostID (with_id h)) = Some (with_id h)"
      using registry_Add_ok add added by simp
    then obtain x where x: "find (\<lambda>y. Addr y = Addr h \<and> User y = User h) (registry_List r) = Some x"
      using reg.find_none [OF wf _ get, of "\<lambda>y. Addr y = Addr h \<and> User y = User h"]
      by (cases "find (\<lambda>y. Addr y = Addr h \<and> User y = User h) (registry_List r)") auto
    from reg.find_get [OF wf x] have xh: "Addr x = Addr h" "User x = User h" "registry_Get r (HostID x) = Some x" by auto
    have found: "findByAddr srv1 (Addr h) (User h) = HostID x" by (simp add: findByAddr_def hosts1 x)
    have ok': "srv_ok srv'"
      using ok wf by (auto simp: res(2) srv1_def srv_ok_def intro!: set_status_ok set_status_wf)
    have ne: "HostID x \<noteq> ''''"
    proof
      assume "HostID x = ''''"
      then have "srv' = srv1" by (simp add: res(2) found)
      then have "x \<in> set (registry_List (srv_hosts srv'))"
        using xh(3) reg.list_get [OF wf] by (simp add: hosts1)
      then show False using ids \<open>HostID x = ''''\<close> by blast
    qed
    then have srv': "srv' = set_status now (HostID x) StatusUp srv1" by (simp add: res(2) found)
    let ?x = "x\<lparr>HostStatus := StatusUp, LastSeen := now\<rparr>"
    have "registry_Get (srv_hosts srv') (HostID ?x) = Some ?x"
      using xh(3) by (simp add: srv' set_status_get hosts1)
    then have "?x \<in> set (registry_List (srv_hosts srv'))"
      using reg.list_get ok' by (simp add: srv_ok_def)
    moreover have "map_option (\<lambda>x. x\<lparr>HostStatus := StatusUnknown, LastSeen := 0\<rparr>) (registry_Get (srv_hosts srv') (HostID (with_id h))) =
           Some ((with_id h)\<lparr>HostStatus := StatusUnknown, LastSeen := 0\<rparr>)"
    proof (cases "HostID (with_id h) = HostID x")
      case True
      then have "Some x = Some (with_id h)" using get xh(3) by (simp only:)
      then have x: "x = with_id h" by (simp only: option.inject)
      have "registry_Get (srv_hosts srv') (HostID (with_id h)) = Some ((with_id h)\<lparr>HostStatus := StatusUp, LastSeen := now\<rparr>)"
        by (simp add: srv' set_status_get hosts1 x get)
      then show ?thesis by simp
    next
      case False
      then show ?thesis using get by (simp add: srv' set_status_get hosts1)
    qed
    moreover have "\<exists>x \<in> set (registry_List (srv_hosts srv')). Addr x = Addr h \<and> User x = User h \<and> HostStatus x = StatusUp"
      using xh by (intro bexI [OF _ \<open>?x \<in> _\<close>]) simp
    ultimately show ?thesis using ok' None unfolding res(1) by simp
  qed
qed

definition demo_host2 :: Host where
  "demo_host2 = demo_host\<lparr>HostID := ''g'', Addr := ''g:22''\<rparr>"

theorem Connect_spec_witness:
  "\<exists>x \<in> set (registry_List (srv_hosts (snd (Connect (\<lambda>_. None) 3 demo_srv demo_host2)))).
     Addr x = ''g:22'' \<and> HostStatus x = StatusUp"
proof -
  let ?r = "Connect (\<lambda>_. None) 3 demo_srv demo_host2"
  have "fst ?r = None" by code_simp
  then have run: "?r = (None, snd ?r)" by (metis prod.collapse)
  have "list_all (\<lambda>x. HostID x \<noteq> '''') (registry_List (srv_hosts (snd ?r)))" by code_simp
  then have ids: "\<And>x. x \<in> set (registry_List (srv_hosts (snd ?r))) \<Longrightarrow> HostID x \<noteq> ''''"
    by (simp add: list_all_iff)
  from Connect_spec [OF demo_srv_ok run ids] show ?thesis by (auto simp: demo_host2_def)
qed

section \<open>The picker's entries\<close>

definition slot_of :: "(Host \<Rightarrow> index_error + Project list) \<Rightarrow> Host \<Rightarrow> Project list" where
  "slot_of index h = (if HostStatus h = StatusDown then []
     else case index h of Inl _ \<Rightarrow> [] | Inr projs \<Rightarrow> projs)"

lemma index_slot_length [simp]: "length (index_slot index hs rs i) = length rs"
  by (simp add: index_slot_def split: sum.split)

lemma index_fold:
  "distinct order \<Longrightarrow> set order \<subseteq> {..< length hs} \<Longrightarrow> length rs = length hs \<Longrightarrow>
   (\<And>i. i \<in> set order \<Longrightarrow> rs ! i = []) \<Longrightarrow> j < length hs \<Longrightarrow>
   foldl (index_slot index hs) rs order ! j = (if j \<in> set order then slot_of index (hs ! j) else rs ! j)"
proof (induction order arbitrary: rs)
  case Nil
  then show ?case by simp
next
  case (Cons i order)
  have slot: "index_slot index hs rs i ! k = (if k = i then slot_of index (hs ! k) else rs ! k)"
    if "k < length hs" for k
    using Cons.prems(2,3) Cons.prems(4) [of i] that
    by (auto simp: index_slot_def slot_of_def nth_list_update split: sum.split)
  have "foldl (index_slot index hs) (index_slot index hs rs i) order ! j =
      (if j \<in> set order then slot_of index (hs ! j) else index_slot index hs rs i ! j)"
  proof (rule Cons.IH)
    show "index_slot index hs rs i ! k = []" if "k \<in> set order" for k
      using that Cons.prems(1,2) Cons.prems(4) [of k] slot [of k] by auto
  qed (use Cons.prems in simp_all)
  then show ?case using slot [OF Cons.prems(5)] Cons.prems(1) by auto
qed

lemma index_length: "length (foldl (index_slot index hs) rs order) = length rs"
  by (induction order arbitrary: rs) simp_all

lemma index_all_eq:
  assumes "mset order = mset [0 ..< length hs]"
  shows "index_all index hs order = map (slot_of index) hs"
proof -
  have "distinct order" "set order = {..< length hs}"
    using assms by (metis distinct_upt mset_eq_imp_distinct_iff, metis mset_eq_setD set_upt atLeast0LessThan)
  then show ?thesis
    unfolding index_all_def using index_fold [of order hs "replicate (length hs) []" _ index]
    by (intro nth_equalityI [of "foldl _ _ _"]) (simp_all add: index_length)
qed

lemma merge_fold:
  "foldl merge_step (seen, out) ps = (seen', out') \<Longrightarrow> set seen = KeyOf ` set out \<Longrightarrow> distinct (map KeyOf out) \<Longrightarrow>
   set seen' = KeyOf ` set out' \<and> distinct (map KeyOf out') \<and> KeyOf ` set out' = KeyOf ` (set out \<union> set ps) \<and>
   (\<exists>rest. out' = out @ rest \<and> subseq rest ps)"
proof (induction ps arbitrary: seen out)
  case Nil
  then show ?case by simp
next
  case (Cons p ps)
  show ?case
  proof (cases "KeyOf p \<in> set seen")
    case True
    then have "merge_step (seen, out) p = (seen, out)" by (simp add: merge_step_def)
    then have "foldl merge_step (seen, out) ps = (seen', out')" using Cons.prems(1) by simp
    from Cons.IH [OF this Cons.prems(2,3)] show ?thesis
      using True Cons.prems(2) by (auto intro: list_emb_Cons)
  next
    case False
    then have "merge_step (seen, out) p = (KeyOf p # seen, out @ [p])" by (simp add: merge_step_def)
    then have "foldl merge_step (KeyOf p # seen, out @ [p]) ps = (seen', out')" using Cons.prems(1) by simp
    from Cons.IH [OF this] show ?thesis
      using False Cons.prems(2,3) by auto
  qed
qed

text \<open>C22: the picker lists each (host, root) once, in the order of the hosts and of each host's index;
  a key is listed exactly when the index of some host that is not down reports it, hosts whose
  index fails are skipped, and the order in which the goroutines finish makes no difference.\<close>

theorem Projects_spec:
  assumes "mset order = mset [0 ..< length (registry_List (srv_hosts srv))]"
  shows "distinct (map KeyOf (Projects index order srv)) \<and>
    KeyOf ` set (Projects index order srv) = KeyOf `
      {p. \<exists>h ps. h \<in> set (registry_List (srv_hosts srv)) \<and> HostStatus h \<noteq> StatusDown \<and> index h = Inr ps \<and> p \<in> set ps} \<and>
    subseq (Projects index order srv) (concat (map (slot_of index) (registry_List (srv_hosts srv)))) \<and>
    Projects index order srv = Projects index [0 ..< length (registry_List (srv_hosts srv))] srv"
proof -
  let ?hs = "registry_List (srv_hosts srv)"
  have eq: "Projects index o' srv = snd (foldl merge_step ([], []) (concat (map (slot_of index) ?hs)))"
    if "mset o' = mset [0 ..< length ?hs]" for o'
    using index_all_eq [OF that, of index] by (simp add: Projects_def)
  obtain seen' out' where fold: "foldl merge_step ([], []) (concat (map (slot_of index) ?hs)) = (seen', out')"
    by fastforce
  have "set (concat (map (slot_of index) ?hs)) =
      {p. \<exists>h ps. h \<in> set ?hs \<and> HostStatus h \<noteq> StatusDown \<and> index h = Inr ps \<and> p \<in> set ps}"
    by (auto simp: slot_of_def split: if_splits sum.splits) (force split: sum.splits)
  then show ?thesis
    using merge_fold [OF fold] by (simp add: eq [OF assms] eq [OF refl] fold)
qed

theorem Projects_spec_witness:
  "distinct (map KeyOf (Projects (\<lambda>_. Inr [demo_project, demo_project]) [0] demo_srv))"
proof -
  have "mset [0] = mset [0 ..< length (registry_List (srv_hosts demo_srv))]"
    by (simp add: demo_srv_def registry_List_def)
  from Projects_spec [OF this] show ?thesis by blast
qed

section \<open>Startup and shutdown\<close>

lemma reset_fold:
  "registry_Get (srv_hosts (foldl (\<lambda>srv h. if HostStatus h \<noteq> StatusUnknown
       then set_status now (HostID h) StatusUnknown srv else srv) srv hs)) j =
   map_option (\<lambda>x. if j \<in> HostID ` {h \<in> set hs. HostStatus h \<noteq> StatusUnknown}
     then x\<lparr>HostStatus := StatusUnknown, LastSeen := now\<rparr> else x) (registry_Get (srv_hosts srv) j)"
proof (induction hs arbitrary: srv)
  case Nil
  then show ?case by (cases "registry_Get (srv_hosts srv) j") simp_all
next
  case (Cons h hs)
  show ?case
    by (cases "registry_Get (srv_hosts srv) j"; cases "HostStatus h = StatusUnknown")
      (auto simp: Cons.IH set_status_get)
qed

lemma reset_frame: "srv_sessions (reset_statuses now srv) = srv_sessions srv \<and>
    srv_clients (reset_statuses now srv) = srv_clients srv"
proof -
  have "srv_sessions (foldl (\<lambda>srv h. if HostStatus h \<noteq> StatusUnknown
       then set_status now (HostID h) StatusUnknown srv else srv) srv hs) = srv_sessions srv \<and>
    srv_clients (foldl (\<lambda>srv h. if HostStatus h \<noteq> StatusUnknown
       then set_status now (HostID h) StatusUnknown srv else srv) srv hs) = srv_clients srv" for hs
    by (induction hs arbitrary: srv) simp_all
  then show ?thesis by (simp add: reset_statuses_def)
qed

lemma reset_get:
  assumes "reg_wf (srv_hosts srv)"
  shows "registry_Get (srv_hosts (reset_statuses now srv)) j = map_option (\<lambda>x.
    if HostStatus x \<noteq> StatusUnknown then x\<lparr>HostStatus := StatusUnknown, LastSeen := now\<rparr> else x)
    (registry_Get (srv_hosts srv) j)"
proof (cases "registry_Get (srv_hosts srv) j")
  case None
  then show ?thesis by (simp add: reset_statuses_def reset_fold)
next
  case (Some x)
  then have j: "HostID x = j" using reg_wf_key [OF assms] by (simp add: registry_Get_def)
  have x: "x \<in> set (registry_List (srv_hosts srv))" using reg.list_get [OF assms] Some j by simp
  have "h = x" if "h \<in> set (registry_List (srv_hosts srv))" "HostID h = j" for h
    using reg.list_get [OF assms, of h] that Some by simp
  then have "j \<in> HostID ` {h \<in> set (registry_List (srv_hosts srv)). HostStatus h \<noteq> StatusUnknown} \<longleftrightarrow>
      HostStatus x \<noteq> StatusUnknown"
    using x j by (metis (mono_tags, lifting) image_iff mem_Collect_eq)
  then show ?thesis using Some by (simp add: reset_statuses_def reset_fold)
qed

definition ended :: "manager \<Rightarrow> nat \<Rightarrow> bool" where
  "ended m p \<longleftrightarrow> ls_intentional (m_heap m ! p) \<and> done_closed (ls_pty (m_heap m ! p))"

lemma Close_maps [simp]: "m_sessions (snd (manager_Close m i)) = m_sessions m"
  by (simp add: manager_Close_def upd_live_def split: option.split)

lemma Close_ended:
  assumes "mgr_ok m" "gm_get (m_sessions m) i = Some p"
  shows "ended (snd (manager_Close m i)) p"
proof -
  have p: "p < length (m_heap m)" using mgr_sess [OF assms(1)] assms(2) by simp
  then show ?thesis
    using assms(2) pty.close_done [OF mgr_ok_pty [OF assms(1) p]]
    by (simp add: ended_def manager_Close_def upd_live_nth end_live_def)
qed

lemma Close_keeps:
  assumes "mgr_ok m" "ended m p"
  shows "ended (snd (manager_Close m i)) p"
proof (cases "gm_get (m_sessions m) i")
  case None
  then show ?thesis using assms(2) by (simp add: manager_Close_def)
next
  case (Some q)
  then have q: "q < length (m_heap m)" using mgr_sess [OF assms(1)] by simp
  then show ?thesis
    using Some assms(2) pty.close_done [OF mgr_ok_pty [OF assms(1) q]]
    by (cases "p = q") (simp_all add: ended_def manager_Close_def upd_live_nth end_live_def)
qed

lemma close_fold:
  assumes "mgr_reach (srv_sessions srv)"
  defines "step \<equiv> \<lambda>srv s. srv\<lparr>srv_sessions := snd (manager_Close (srv_sessions srv) (SessID s))\<rparr>"
  shows "m_sessions (srv_sessions (foldl step srv ss)) = m_sessions (srv_sessions srv) \<and>
    (ended (srv_sessions srv) p \<or> (\<exists>s \<in> set ss. gm_get (m_sessions (srv_sessions srv)) (SessID s) = Some p) \<longrightarrow>
      ended (srv_sessions (foldl step srv ss)) p)"
  using assms(1)
proof (induction ss arbitrary: srv)
  case Nil
  then show ?case by simp
next
  case (Cons s ss)
  note reach = Close_reach [OF Cons.prems, of "SessID s"] and ok = mgr_reach_ok [OF Cons.prems]
  have "mgr_reach (srv_sessions (step srv s))" using reach by (simp add: step_def)
  note IH = Cons.IH [OF this]
  have sess: "m_sessions (srv_sessions (step srv s)) = m_sessions (srv_sessions srv)" by (simp add: step_def)
  have "ended (srv_sessions (step srv s)) p"
    if "ended (srv_sessions srv) p \<or> gm_get (m_sessions (srv_sessions srv)) (SessID s) = Some p"
    using that Close_ended [OF ok] Close_keeps [OF ok] by (auto simp: step_def)
  then show ?case using IH sess by auto
qed

text \<open>C28: startup and shutdown.  Without a handler nothing happens; a registry that cannot be read is
  reported and serving does not begin; otherwise every host starts out as unknown, whatever the
  file says, and when the context ends every session that is still registered has been closed
  on purpose, so that none of them counts as a host that went down.\<close>

theorem Run_spec:
  assumes ok: "srv_ok srv" and work: "\<And>s. srv_ok s \<Longrightarrow> srv_ok (work s)"
    and run: "Run handler now work ending srv = (e, srv')"
  shows "(if \<not> handler then e = Some NoHandler \<and> srv' = srv
    else case registry_Load (srv_hosts srv) (srv_disk srv) of
      (Some err, _) \<Rightarrow> e = Some (LoadRegistry err) \<and> srv_sessions srv' = srv_sessions srv
    | (None, r) \<Rightarrow> \<exists>start. srv_ok start \<and> srv_sessions start = srv_sessions srv \<and>
        (\<forall>j. map_option HostStatus (registry_Get (srv_hosts start) j) =
           map_option (\<lambda>_. StatusUnknown) (registry_Get r j)) \<and>
        (case ending of
           ServeReturned x \<Rightarrow> e = x \<and> srv' = work start
         | CtxDone \<Rightarrow> e = None \<and> (\<forall>i p. gm_get (m_sessions (srv_sessions srv')) i = Some p \<longrightarrow>
             ended (srv_sessions srv') p)))"
proof (cases "handler \<and> fst (registry_Load (srv_hosts srv) (srv_disk srv)) = None")
  case False
  then show ?thesis using run by (auto simp: Run_def split: prod.splits option.splits)
next
  case True
  obtain r where r: "registry_Load (srv_hosts srv) (srv_disk srv) = (None, r)" using True by (metis prod.collapse)
  define start where "start = reset_statuses now (srv\<lparr>srv_hosts := r\<rparr>)"
  have wf: "reg_wf r" using reg_wf_Load [of "srv_hosts srv" "srv_disk srv"] r ok by (simp add: srv_ok_def)
  have "reg_wf (srv_hosts (foldl (\<lambda>srv h. if HostStatus h \<noteq> StatusUnknown
       then set_status now (HostID h) StatusUnknown srv else srv) s hs))" if "reg_wf (srv_hosts s)" for s :: Server and hs :: "Host list"
    using that by (induction hs arbitrary: s) (simp_all add: set_status_wf)
  then have start_ok: "srv_ok start"
    using ok wf reset_frame [of now "srv\<lparr>srv_hosts := r\<rparr>"] by (simp add: start_def srv_ok_def reset_statuses_def)
  have sess: "srv_sessions start = srv_sessions srv" using reset_frame by (simp add: start_def)
  have hosts: "map_option HostStatus (registry_Get (srv_hosts start) j) =
      map_option (\<lambda>_. StatusUnknown) (registry_Get r j)" for j
    using reset_get [of "srv\<lparr>srv_hosts := r\<rparr>" now j] wf
    by (cases "registry_Get r j") (auto simp: start_def)
  have res: "(e, srv') = (case ending of CtxDone \<Rightarrow> (None, close_all (work start)) | ServeReturned x \<Rightarrow> (x, work start))"
    unfolding start_def using run True r by (simp add: Run_def Let_def)
  have "ended (srv_sessions srv') p"
    if "ending = CtxDone" "gm_get (m_sessions (srv_sessions srv')) i = Some p" for i p
  proof -
    let ?s = "work start"
    have reach: "mgr_reach (srv_sessions ?s)" using work [OF start_ok] by (simp add: srv_ok_def)
    have srv': "srv' = close_all ?s" using res that(1) by simp
    have get: "gm_get (m_sessions (srv_sessions ?s)) i = Some p"
      using close_fold [OF reach, of "manager_List (srv_sessions ?s)" p] that(2) by (simp add: srv' close_all_def)
    have "session_at (srv_sessions ?s) p \<in> set (manager_List (srv_sessions ?s))"
      using get by (auto simp: manager_List_def dest!: map_of_SomeD intro!: rev_image_eqI)
    moreover have "SessID (session_at (srv_sessions ?s) p) = i"
      using mgr_sess [OF mgr_reach_ok [OF reach], of i p] get by simp
    ultimately show ?thesis
      using close_fold [OF reach, of "manager_List (srv_sessions ?s)" p] get by (auto simp: srv' close_all_def)
  qed
  then show ?thesis
    using True r start_ok sess hosts res by (auto split: run_end.splits intro!: exI [of _ start])
qed

theorem Run_spec_witness:
  "fst (Run True 5 (\<lambda>s. s) CtxDone demo_srv) = None \<and>
   ended (srv_sessions (snd (Run True 5 (\<lambda>s. s) CtxDone demo_srv))) 0"
proof -
  let ?r = "Run True 5 (\<lambda>s. s) CtxDone demo_srv"
  have f: "fst ?r = None" by code_simp
  then have run: "?r = (None, snd ?r)" by (metis prod.collapse)
  have g: "gm_get (m_sessions (srv_sessions (snd ?r))) ''a'' = Some 0" by code_simp
  have "fst (registry_Load (srv_hosts demo_srv) (srv_disk demo_srv)) = None" by code_simp
  then show ?thesis
    using Run_spec [OF demo_srv_ok _ run] f g by (auto split: prod.splits)
qed

end
