(* ===== verification/Sshd.thy ===== *)
theory Sshd
  imports Attach
begin

text \<open>
  Package \<open>internal/sshd\<close> (\<open>sshd.go\<close>, \<open>server.go\<close>, \<open>conn.go\<close>): the inbound SSH server.

  Of \<open>x/crypto/ssh\<close> the code uses the decoding of request payloads, the parser of the next key of
  an \<open>authorized_keys\<close> text, the handshake and the accepted channels; they are arguments of the
  definitions.  A connection is its resize channel (a queue of at most 8 sizes) with the guard of
  \<open>Close\<close>.  \<open>Serve\<close> is a transition system: the accept loop, the goroutine that watches the
  context, and calls of \<open>Close\<close> from outside.
  The loop over \<open>authorized_keys\<close> ends only if the parser consumes input, so it is a partial
  function, and its termination is proved under that law of the parser.
\<close>

section \<open>Connections\<close>

record ptyReqPayload =
  PtyTerm :: string
  PtyCols :: "32 word"
  PtyRows :: "32 word"
  PtyWidthPx :: "32 word"
  PtyHeightPx :: "32 word"
  PtyModes :: string

record winChPayload =
  WinCols :: "32 word"
  WinRows :: "32 word"
  WinWidthPx :: "32 word"
  WinHeightPx :: "32 word"

record sshConn =
  conn_id :: string
  conn_iface :: string
  resize_queue :: "Size list"
  resize_closed :: bool
  conn_closeOnce :: bool
  channel_open :: bool

definition resizeBuffer :: nat where "resizeBuffer = 8"

definition newClientID :: "byte list \<Rightarrow> string" where "newClientID b = hex_encode (take 8 b)"

definition newConn :: "byte list \<Rightarrow> string \<Rightarrow> sshConn" where
  "newConn random addr = \<lparr>conn_id = newClientID random, conn_iface = addr, resize_queue = [],
     resize_closed = False, conn_closeOnce = False, channel_open = True\<rparr>"

text \<open>A send on the closed channel panics and \<open>recover\<close> swallows it; a full queue drops the size.\<close>

definition pushResize :: "sshConn \<Rightarrow> Size \<Rightarrow> sshConn" where
  "pushResize c s =
    (if resize_closed c then c
     else if length (resize_queue c) < resizeBuffer then c\<lparr>resize_queue := resize_queue c @ [s]\<rparr>
     else c)"

text \<open>\<open>Close\<close>: closing a closed channel would panic (\<open>None\<close>).\<close>

definition conn_Close :: "sshConn \<Rightarrow> sshConn option" where
  "conn_Close c =
    (if conn_closeOnce c then Some (c\<lparr>channel_open := False\<rparr>)
     else if resize_closed c then None
     else Some (c\<lparr>conn_closeOnce := True, resize_closed := True, channel_open := False\<rparr>))"

text \<open>The reader of \<open>Resizes\<close>: \<open>None\<close> when nothing is queued.\<close>

definition conn_Resizes :: "sshConn \<Rightarrow> (Size \<times> sshConn) option" where
  "conn_Resizes c = (case resize_queue c of [] \<Rightarrow> None | s # q \<Rightarrow> Some (s, c\<lparr>resize_queue := q\<rparr>))"

section \<open>Channel requests\<close>

record 'p request =
  ReqType :: string
  ReqPayload :: 'p
  WantReply :: bool

record 'p payload_lib =
  UnmarshalPty :: "'p \<Rightarrow> ptyReqPayload option"
  UnmarshalWin :: "'p \<Rightarrow> winChPayload option"

definition cell_size :: "32 word \<Rightarrow> 32 word \<Rightarrow> Size" where
  "cell_size rows cols = \<lparr>Rows = ucast rows, Cols = ucast cols\<rparr>"

definition reply :: "'p request \<Rightarrow> bool \<Rightarrow> bool list" where
  "reply req ok = (if WantReply req then [ok] else [])"

text \<open>One turn of the request loop: the connection and the replies sent.\<close>

definition service_request :: "'p payload_lib \<Rightarrow> sshConn \<Rightarrow> 'p request \<Rightarrow> sshConn \<times> bool list" where
  "service_request lib c req =
    (if ReqType req = ''pty-req'' then
       ((case UnmarshalPty lib (ReqPayload req) of None \<Rightarrow> c
         | Some p \<Rightarrow> pushResize c (cell_size (PtyRows p) (PtyCols p))), reply req True)
     else if ReqType req = ''shell'' then (c, reply req True)
     else if ReqType req = ''window-change'' then
       ((case UnmarshalWin lib (ReqPayload req) of None \<Rightarrow> c
         | Some p \<Rightarrow> pushResize c (cell_size (WinRows p) (WinCols p))), reply req False)
     else if ReqType req = ''env'' then (c, reply req True)
     else (c, reply req False))"

fun serviceRequests :: "'p payload_lib \<Rightarrow> sshConn \<Rightarrow> 'p request list \<Rightarrow> sshConn \<times> bool list" where
  "serviceRequests lib c [] = (c, [])"
| "serviceRequests lib c (req # reqs) =
     (case service_request lib c req of (c1, rs) \<Rightarrow>
        case serviceRequests lib c1 reqs of (c2, rs') \<Rightarrow> (c2, rs @ rs'))"

section \<open>Authorisation\<close>

text \<open>The keys of an \<open>authorized_keys\<close> text: parsed one by one until one does not parse.\<close>

partial_function (option) parse_keys ::
  "(string \<Rightarrow> ('k \<times> string) option) \<Rightarrow> string \<Rightarrow> 'k list option" where
  "parse_keys parse rest =
    (if rest = [] then Some []
     else case parse rest of
       None \<Rightarrow> Some []
     | Some (key, r) \<Rightarrow> Option.bind (parse_keys parse r) (\<lambda>keys. Some (key # keys)))"

declare parse_keys.simps [code]

definition AuthorizedKeysFile ::
  "(string \<Rightarrow> ('k \<times> string) option) \<Rightarrow> string fsys \<Rightarrow> string \<Rightarrow> (('k \<Rightarrow> bool) \<times> bool) option" where
  "AuthorizedKeysFile parse fs p =
    (case fs_read fs p of
       RData raw \<Rightarrow> map_option (\<lambda>keys. (\<lambda>key. key \<in> set keys, True)) (parse_keys parse raw)
     | _ \<Rightarrow> Some (\<lambda>_. False, False))"

section \<open>The server\<close>

record listener =
  ln_addr :: string
  ln_open :: bool

record ('signer, 'key) sshServer =
  ssh_addr :: string
  ssh_signer :: 'signer
  ssh_authorized :: "('key \<Rightarrow> bool) option"
  ssh_ln :: "listener option"

definition NewServer :: "string \<Rightarrow> 'signer \<Rightarrow> ('key \<Rightarrow> bool) option \<Rightarrow> ('signer, 'key) sshServer" where
  "NewServer addr signer authorized =
     \<lparr>ssh_addr = addr, ssh_signer = signer, ssh_authorized = authorized, ssh_ln = None\<rparr>"

definition server_Addr :: "('signer, 'key) sshServer \<Rightarrow> string option" where
  "server_Addr s = map_option ln_addr (ssh_ln s)"

text \<open>\<open>Close\<close>, and whether it reports no error: closing a listener twice does.\<close>

definition server_Close :: "('signer, 'key) sshServer \<Rightarrow> bool \<times> ('signer, 'key) sshServer" where
  "server_Close s =
    (case ssh_ln s of None \<Rightarrow> (True, s)
     | Some ln \<Rightarrow> (ln_open ln, s\<lparr>ssh_ln := Some (ln\<lparr>ln_open := False\<rparr>)\<rparr>))"

record ('signer, 'key) ServerConfig =
  PublicKeyCallback :: "'key \<Rightarrow> string option"
  ServerKeys :: "'signer list"

text \<open>\<open>PublicKeyCallback\<close>: \<open>authorized\<close> may be nil; \<open>fp\<close> is the fingerprint of a key.\<close>

definition publicKeyCallback :: "('k \<Rightarrow> bool) option \<Rightarrow> ('k \<Rightarrow> string) \<Rightarrow> 'k \<Rightarrow> string option" where
  "publicKeyCallback authorized fp key =
    (case authorized of
       Some f \<Rightarrow> if f key then Some (fp key) else None
     | None \<Rightarrow> None)"

definition serverConfig :: "('key \<Rightarrow> string) \<Rightarrow> ('signer, 'key) sshServer \<Rightarrow> ('signer, 'key) ServerConfig" where
  "serverConfig fp s = \<lparr>PublicKeyCallback = publicKeyCallback (ssh_authorized s) fp, ServerKeys = [ssh_signer s]\<rparr>"

section \<open>The accept loop\<close>

datatype sshd_error = ListenFailed string | AcceptErr

text \<open>What happens while \<open>Serve\<close> loops: \<open>Accept\<close> returns a connection, the error of a closed listener or
  another error; the context is cancelled; the goroutine that waits for it closes the listener;
  \<open>Close\<close> is called.\<close>

datatype 'nc serve_event = Accepted 'nc | AcceptClosed | AcceptFailed | Cancelled | WatcherRuns | CloseCall

text \<open>\<open>sv_result\<close> is the error \<open>Serve\<close> returned, \<open>None\<close> while it loops; \<open>sv_conns\<close> are the connections it
  handed to \<open>handleConn\<close>.\<close>

record ('signer, 'key, 'nc) serving =
  sv_server :: "('signer, 'key) sshServer"
  sv_cancelled :: bool
  sv_conns :: "'nc list"
  sv_result :: "sshd_error option option"

definition listening :: "('signer, 'key, 'nc) serving \<Rightarrow> bool" where
  "listening sv = (case ssh_ln (sv_server sv) of Some ln \<Rightarrow> ln_open ln | None \<Rightarrow> False)"

text \<open>The beginning of \<open>Serve\<close>: \<open>bound\<close> is the address \<open>net.Listen\<close> bound, if it could.\<close>

definition Serve :: "string option \<Rightarrow> ('signer, 'key) sshServer \<Rightarrow> ('signer, 'key, 'nc) serving" where
  "Serve bound s =
    (case bound of
       None \<Rightarrow> \<lparr>sv_server = s, sv_cancelled = False, sv_conns = [], sv_result = Some (Some (ListenFailed (ssh_addr s)))\<rparr>
     | Some a \<Rightarrow> \<lparr>sv_server = s\<lparr>ssh_ln := Some \<lparr>ln_addr = a, ln_open = True\<rparr>\<rparr>, sv_cancelled = False, sv_conns = [],
         sv_result = None\<rparr>)"

fun serve_step :: "'nc serve_event \<Rightarrow> ('signer, 'key, 'nc) serving \<Rightarrow> ('signer, 'key, 'nc) serving outcome" where
  "serve_step (Accepted nc) sv =
     (if sv_result sv = None \<and> listening sv then Next (sv\<lparr>sv_conns := sv_conns sv @ [nc]\<rparr>) else Blocked)"
| "serve_step AcceptClosed sv =
     (if sv_result sv = None \<and> \<not> listening sv then Next (sv\<lparr>sv_result := Some None\<rparr>) else Blocked)"
| "serve_step AcceptFailed sv =
     (if sv_result sv \<noteq> None then Blocked
      else if sv_cancelled sv then Next (sv\<lparr>sv_result := Some None\<rparr>)
      else Next (sv\<lparr>sv_result := Some (Some AcceptErr)\<rparr>))"
| "serve_step Cancelled sv = Next (sv\<lparr>sv_cancelled := True\<rparr>)"
| "serve_step WatcherRuns sv =
     (if sv_cancelled sv \<and> ssh_ln (sv_server sv) \<noteq> None
      then Next (sv\<lparr>sv_server := snd (server_Close (sv_server sv))\<rparr>) else Blocked)"
| "serve_step CloseCall sv = Next (sv\<lparr>sv_server := snd (server_Close (sv_server sv))\<rparr>)"

text \<open>\<open>handleConn\<close>: \<open>accepts\<close> is the handshake of the library under the server's configuration; the new
  channels come with their types and whether \<open>Accept\<close> succeeds.\<close>

datatype channel_action = Rejected | Skipped | Handled nat

definition handle_channel :: "nat \<times> string \<times> bool \<Rightarrow> channel_action" where
  "handle_channel ch = (case ch of (n, ty, accepts) \<Rightarrow>
     if ty \<noteq> ''session'' then Rejected else if \<not> accepts then Skipped else Handled n)"

definition handleConn ::
  "(('signer, 'key) ServerConfig \<Rightarrow> 'nc \<Rightarrow> bool) \<Rightarrow> ('key \<Rightarrow> string) \<Rightarrow> ('signer, 'key) sshServer \<Rightarrow> 'nc
     \<Rightarrow> (nat \<times> string \<times> bool) list \<Rightarrow> channel_action list" where
  "handleConn accepts fp s nc chans = (if accepts (serverConfig fp s) nc then map handle_channel chans else [])"

text \<open>What the library documents of a server handshake without other authentication methods: it succeeds
  only for a client that proved a key for which the callback returned permissions.\<close>

definition authenticates ::
  "(('signer, 'key) ServerConfig \<Rightarrow> 'nc \<Rightarrow> bool) \<Rightarrow> ('nc \<Rightarrow> 'key \<Rightarrow> bool) \<Rightarrow> bool" where
  "authenticates accepts proves \<longleftrightarrow>
     (\<forall>cfg nc. accepts cfg nc \<longrightarrow> (\<exists>key. proves nc key \<and> PublicKeyCallback cfg key \<noteq> None))"

section \<open>Lemmas\<close>

definition conn_ok :: "sshConn \<Rightarrow> bool" where
  "conn_ok c \<longleftrightarrow> resize_closed c = conn_closeOnce c \<and> length (resize_queue c) \<le> resizeBuffer \<and>
     (conn_closeOnce c \<longrightarrow> \<not> channel_open c)"

datatype 'p conn_event = Requested "'p request" | ConnClosed | SizeRead

fun conn_step :: "'p payload_lib \<Rightarrow> 'p conn_event \<Rightarrow> sshConn \<Rightarrow> sshConn outcome" where
  "conn_step lib (Requested req) c = Next (fst (service_request lib c req))"
| "conn_step lib ConnClosed c = (case conn_Close c of None \<Rightarrow> Panic | Some c' \<Rightarrow> Next c')"
| "conn_step lib SizeRead c = (case conn_Resizes c of None \<Rightarrow> (if resize_closed c then Next c else Blocked)
     | Some (s, c') \<Rightarrow> Next c')"

lemma newConn_ok: "conn_ok (newConn r a)"
  by (simp add: conn_ok_def newConn_def resizeBuffer_def)

lemma pushResize_ok: "conn_ok c \<Longrightarrow> conn_ok (pushResize c s)"
  by (auto simp: conn_ok_def pushResize_def)

text \<open>The size a request asks for, if its payload decodes.\<close>

definition wanted_size :: "'p payload_lib \<Rightarrow> 'p request \<Rightarrow> Size option" where
  "wanted_size lib req =
    (if ReqType req = ''pty-req'' then
       map_option (\<lambda>p. cell_size (PtyRows p) (PtyCols p)) (UnmarshalPty lib (ReqPayload req))
     else if ReqType req = ''window-change'' then
       map_option (\<lambda>p. cell_size (WinRows p) (WinCols p)) (UnmarshalWin lib (ReqPayload req))
     else None)"

lemma service_request_wanted:
  "fst (service_request lib c req) = (case wanted_size lib req of None \<Rightarrow> c | Some s \<Rightarrow> pushResize c s)"
  by (auto simp: service_request_def wanted_size_def split: option.splits)

lemma conn_step_ok: "conn_ok c \<Longrightarrow> conn_step lib e c \<noteq> Panic \<and> (\<forall>c'. conn_step lib e c = Next c' \<longrightarrow> conn_ok c')"
proof (cases e)
  case (Requested req)
  then show "conn_ok c \<Longrightarrow> ?thesis"
    by (simp add: service_request_wanted pushResize_ok split: option.split)
next
  case ConnClosed
  then show "conn_ok c \<Longrightarrow> ?thesis" by (auto simp: conn_Close_def conn_ok_def)
next
  case SizeRead
  then show "conn_ok c \<Longrightarrow> ?thesis" by (auto simp: conn_Resizes_def conn_ok_def split: list.split)
qed

lemma conn_steps_ok:
  "conn_ok c \<Longrightarrow> steps (conn_step lib) es c \<noteq> Panic \<and> (\<forall>c'. steps (conn_step lib) es c = Next c' \<longrightarrow> conn_ok c')"
proof (induction es arbitrary: c)
  case Nil
  then show ?case by simp
next
  case (Cons e es)
  show ?case
  proof (cases "conn_step lib e c")
    case (Next c1)
    then have "conn_ok c1" using conn_step_ok [OF Cons.prems] by blast
    from Cons.IH [OF this] show ?thesis using Next by simp
  next
    case Blocked
    then show ?thesis by simp
  next
    case Panic
    then show ?thesis using conn_step_ok [OF Cons.prems] by blast
  qed
qed

lemma service_fold:
  "resize_closed c = False \<Longrightarrow> resize_queue (fst (serviceRequests lib c reqs)) =
     resize_queue c @ take (resizeBuffer - length (resize_queue c)) (List.map_filter (wanted_size lib) reqs)"
proof (induction reqs arbitrary: c)
  case Nil
  then show ?case by (simp add: map_filter_simps)
next
  case (Cons req reqs)
  obtain c1 rs where s: "service_request lib c req = (c1, rs)" by fastforce
  have c1: "c1 = (case wanted_size lib req of None \<Rightarrow> c | Some s \<Rightarrow> pushResize c s)"
    using service_request_wanted [of lib c req] s by simp
  then have "\<not> resize_closed c1" using Cons.prems by (auto simp: pushResize_def split: option.split)
  then have "resize_queue (fst (serviceRequests lib c1 reqs)) =
     resize_queue c1 @ take (resizeBuffer - length (resize_queue c1)) (List.map_filter (wanted_size lib) reqs)"
    using Cons.IH by simp
  then show ?case
    using s c1 Cons.prems
    by (auto simp: pushResize_def map_filter_simps take_Cons' split: option.split prod.split)
qed

inductive keys_of :: "(string \<Rightarrow> ('k \<times> string) option) \<Rightarrow> string \<Rightarrow> 'k list \<Rightarrow> bool" for parse where
  keys_end: "keys_of parse [] []"
| keys_bad: "s \<noteq> [] \<Longrightarrow> parse s = None \<Longrightarrow> keys_of parse s []"
| keys_more: "s \<noteq> [] \<Longrightarrow> parse s = Some (k, r) \<Longrightarrow> keys_of parse r ks \<Longrightarrow> keys_of parse s (k # ks)"

inductive_cases keys_ofE: "keys_of parse s ks"

lemma parse_keys_terminates:
  assumes "\<And>s k r. parse s = Some (k, r) \<Longrightarrow> length r < length s"
  shows "\<exists>ks. parse_keys parse s = Some ks \<and> keys_of parse s ks"
proof (induction s rule: length_induct)
  case (1 s)
  show ?case
  proof (cases "s = []")
    case True
    then show ?thesis by (simp add: parse_keys.simps keys_end)
  next
    case False
    show ?thesis
    proof (cases "parse s")
      case None
      then show ?thesis using False by (simp add: parse_keys.simps keys_bad)
    next
      case (Some kr)
      obtain k r where kr: "kr = (k, r)" by (cases kr)
      with Some assms have "length r < length s" by blast
      then obtain ks where "parse_keys parse r = Some ks" "keys_of parse r ks" using 1 by blast
      then show ?thesis
        using False Some kr keys_more [of s parse k r ks] by (subst parse_keys.simps) auto
    qed
  qed
qed

section \<open>Properties\<close>

text \<open>No sequence of requests, reads and closes makes a connection panic: the resize channel is
  closed once, however often \<open>Close\<close> is called, and a size that arrives later is swallowed;
  no more than 8 sizes are ever queued.\<close>

theorem conn_never_panics:
  "steps (conn_step lib) es (newConn random addr) \<noteq> Panic \<and>
   (\<forall>c. steps (conn_step lib) es (newConn random addr) = Next c \<longrightarrow>
      length (resize_queue c) \<le> 8 \<and> (resize_closed c \<longrightarrow> \<not> channel_open c))"
  using conn_steps_ok [OF newConn_ok [of random addr], of lib es] by (auto simp: conn_ok_def resizeBuffer_def)

definition no_payload :: "string payload_lib" where
  "no_payload = \<lparr>UnmarshalPty = (\<lambda>_. None), UnmarshalWin = (\<lambda>_. Some \<lparr>WinCols = 80, WinRows = 24, WinWidthPx = 0, WinHeightPx = 0\<rparr>)\<rparr>"

theorem conn_never_panics_witness:
  "steps (conn_step no_payload) [ConnClosed, ConnClosed] (newConn [] []) \<noteq> Panic"
  using conn_never_panics by blast

text \<open>What the interface asks for is what the TUI is given: before the TUI reads, the queue holds
  the first 8 of the sizes whose payload decodes, in order, each side reduced to 16 bits; and
  every request that wants a reply gets exactly one, positive for \<open>pty-req\<close>, \<open>shell\<close> and \<open>env\<close>
  only.\<close>

theorem serviceRequests_spec:
  "resize_queue (fst (serviceRequests lib (newConn random addr) reqs)) =
     take 8 (List.map_filter (wanted_size lib) reqs) \<and>
   snd (serviceRequests lib (newConn random addr) reqs) =
     map (\<lambda>req. ReqType req \<in> {''pty-req'', ''shell'', ''env''}) (filter WantReply reqs) \<and>
   unat (Rows (cell_size rows cols)) = unat rows mod 65536 \<and>
   unat (Cols (cell_size rows cols)) = unat cols mod 65536"
proof -
  have replies: "snd (serviceRequests lib c reqs) =
      map (\<lambda>req. ReqType req \<in> {''pty-req'', ''shell'', ''env''}) (filter WantReply reqs)" for c
  proof (induction reqs arbitrary: c)
    case Nil
    then show ?case by simp
  next
    case (Cons req reqs)
    have "snd (service_request lib c req) =
        (if WantReply req then [ReqType req \<in> {''pty-req'', ''shell'', ''env''}] else [])"
      by (simp add: service_request_def reply_def)
    moreover obtain c1 rs where "service_request lib c req = (c1, rs)" by fastforce
    moreover obtain c2 rs' where "serviceRequests lib c1 reqs = (c2, rs')" by fastforce
    ultimately show ?case using Cons.IH [of c1] by simp
  qed
  have "resize_queue (fst (serviceRequests lib (newConn random addr) reqs)) =
      take 8 (List.map_filter (wanted_size lib) reqs)"
    using service_fold [of "newConn random addr" lib reqs] by (simp add: newConn_def resizeBuffer_def)
  then show ?thesis
    using replies by (simp add: cell_size_def unsigned_ucast_eq take_bit_eq_mod)
qed

text \<open>A consequence of dropping when the queue is full: of more sizes than fit, the ones that are
  lost are the newest, so the last size of a burst, the one the terminal really has, never
  arrives.\<close>

theorem newest_size_lost:
  assumes "List.map_filter (wanted_size lib) reqs = old @ [newest]" and "8 \<le> length old"
    and "newest \<notin> set old"
  shows "newest \<notin> set (resize_queue (fst (serviceRequests lib (newConn random addr) reqs)))"
proof -
  have "resize_queue (fst (serviceRequests lib (newConn random addr) reqs)) = take 8 (old @ [newest])"
    using service_fold [of "newConn random addr" lib reqs] assms(1) by (simp add: newConn_def resizeBuffer_def)
  then show ?thesis using assms(2,3) by (auto dest: in_set_takeD)
qed

definition burst :: "nat request list" where
  "burst = map (\<lambda>n. \<lparr>ReqType = ''window-change'', ReqPayload = n, WantReply = False\<rparr>) [1, 2, 3, 4, 5, 6, 7, 8, 9]"

definition nat_payload :: "nat payload_lib" where
  "nat_payload = \<lparr>UnmarshalPty = (\<lambda>_. None), UnmarshalWin = (\<lambda>n. Some \<lparr>WinCols = of_nat n, WinRows = of_nat n, WinWidthPx = 0, WinHeightPx = 0\<rparr>)\<rparr>"

theorem newest_size_lost_witness:
  "\<lparr>Rows = 9, Cols = 9\<rparr> \<notin> set (resize_queue (fst (serviceRequests nat_payload (newConn [] []) burst)))"
proof (rule newest_size_lost)
  let ?old = "map (\<lambda>n. \<lparr>Rows = n, Cols = n\<rparr>) [1, 2, 3, 4, 5, 6, 7, 8]"
  show "List.map_filter (wanted_size nat_payload) burst = ?old @ [\<lparr>Rows = 9, Cols = 9\<rparr>]"
    by (simp add: burst_def map_filter_simps wanted_size_def nat_payload_def cell_size_def)
  show "8 \<le> length ?old" by simp
  show "\<lparr>Rows = 9, Cols = 9\<rparr> \<notin> set ?old" by simp
qed


text \<open>A parser of one key per byte, and clients that prove one key each.\<close>

definition byte_key :: "string \<Rightarrow> (char \<times> string) option" where
  "byte_key s = (case s of [] \<Rightarrow> None | c # r \<Rightarrow> Some (c, r))"

definition key_client :: "(unit, char) ServerConfig \<Rightarrow> char \<Rightarrow> bool" where
  "key_client cfg key \<longleftrightarrow> PublicKeyCallback cfg key \<noteq> None"

definition keys_fs :: "string fsys" where
  "keys_fs = empty_fs\<lparr>fs_files := [''/d/authorized_keys'' \<mapsto> \<lparr>f_data = ''ab'', f_perm = 384\<rparr>]\<rparr>"


text \<open>Shutting down.  \<open>Serve\<close> returns nil only after the context was cancelled or the listener closed,
  and a closed listener lets no connection in; once the context is cancelled, the watcher and the
  accept loop bring \<open>Serve\<close> to its return, whatever happened before.\<close>

definition serve_ok :: "('signer, 'key, 'nc) serving \<Rightarrow> bool" where
  "serve_ok sv \<longleftrightarrow> (sv_result sv = Some None \<longrightarrow> sv_cancelled sv \<or> \<not> listening sv) \<and>
     (ssh_ln (sv_server sv) = None \<longrightarrow> sv_result sv \<noteq> None)"

lemma serve_step_ok:
  assumes "serve_ok sv" "serve_step e sv = Next sv'"
  shows "serve_ok sv' \<and> prefix (sv_conns sv) (sv_conns sv') \<and> (sv_cancelled sv \<longrightarrow> sv_cancelled sv') \<and>
    (\<not> listening sv \<longrightarrow> \<not> listening sv' \<and> sv_conns sv' = sv_conns sv)"
  using assms by (cases e) (auto simp: serve_ok_def listening_def server_Close_def split: if_splits option.splits)

lemma serve_run_ok:
  "serve_ok sv \<Longrightarrow> steps serve_step es sv = Next sv' \<Longrightarrow>
     serve_ok sv' \<and> (sv_cancelled sv \<longrightarrow> sv_cancelled sv') \<and> (\<not> listening sv \<longrightarrow> \<not> listening sv' \<and> sv_conns sv' = sv_conns sv)"
proof (induction es arbitrary: sv)
  case Nil
  then show ?case by simp
next
  case (Cons e es)
  then obtain sv1 where 1: "serve_step e sv = Next sv1" and 2: "steps serve_step es sv1 = Next sv'"
    by (auto split: outcome.splits)
  from serve_step_ok [OF Cons.prems(1) 1] Cons.IH [OF _ 2] show ?case by auto
qed

theorem Serve_shuts_down:
  assumes "steps serve_step es (Serve bound s) = Next sv"
  shows "(sv_result sv = Some None \<longrightarrow> sv_cancelled sv \<or> \<not> listening sv) \<and>
    (\<not> listening sv \<longrightarrow> (\<forall>es' sv'. steps serve_step es' sv = Next sv' \<longrightarrow> sv_conns sv' = sv_conns sv)) \<and>
    (sv_cancelled sv \<and> sv_result sv = None \<longrightarrow>
       (\<exists>sv'. steps serve_step [WatcherRuns, AcceptClosed] sv = Next sv' \<and> sv_result sv' = Some None))"
proof -
  have "serve_ok (Serve bound s)" by (simp add: serve_ok_def Serve_def listening_def split: option.split)
  from serve_run_ok [OF this assms] have ok: "serve_ok sv" by blast
  then show ?thesis
    using serve_run_ok [OF ok] by (auto simp: serve_ok_def listening_def server_Close_def)
qed

theorem Serve_shuts_down_witness:
  "\<exists>sv'. steps serve_step [WatcherRuns, AcceptClosed]
     (Serve (Some '':2222'') (NewServer '':2222'' () (None :: (char \<Rightarrow> bool) option))
       \<lparr>sv_cancelled := True, sv_conns := [0 :: nat]\<rparr>) = Next sv' \<and> sv_result sv' = Some None"
proof -
  have "steps serve_step [Accepted 0, Cancelled] (Serve (Some '':2222'') (NewServer '':2222'' () (None :: (char \<Rightarrow> bool) option))) =
      Next ((Serve (Some '':2222'') (NewServer '':2222'' () None))\<lparr>sv_cancelled := True, sv_conns := [0 :: nat]\<rparr>)"
    by (simp add: Serve_def listening_def)
  from Serve_shuts_down [OF this] show ?thesis by (simp add: Serve_def)
qed

end
