(* ===== verification/Widgets.thy ===== *)
theory Widgets
  imports Hash
begin

text \<open>
  The part of the component tree of the TUI that the code builds itself: styles, the boxes and
  texts of \<open>overlay.go\<close> (\<open>textRow\<close>, \<open>cell\<close>, \<open>kvRow\<close>, \<open>machineRow\<close>, \<open>swatchBox\<close>) and the styles of
  \<open>sidebar.go\<close>.  A component is a \<open>node\<close>: a text, a box with its attributes and children, or a
  leaf of another kind.  The layout engine of \<open>tui-runtime\<close>, which turns a tree into screen
  cells, is not modelled; what the tree holds is.
\<close>

section \<open>Styles\<close>

type_synonym rgb = "byte \<times> byte \<times> byte"

text \<open>What was set on a \<open>layout.Style\<close>; \<open>None\<close> where the zero value was left.\<close>

record Style =
  Background :: "rgb option"
  Foreground :: "rgb option"
  BoldText :: bool

definition no_style :: Style where
  "no_style = \<lparr>Background = None, Foreground = None, BoldText = False\<rparr>"

definition style :: "rgb \<Rightarrow> rgb \<Rightarrow> Style" where
  "style bg fg = no_style\<lparr>Background := Some bg, Foreground := Some fg\<rparr>"

definition panelStyle :: Style where "panelStyle = style (24, 24, 24) (190, 190, 190)"
definition headerStyle :: Style where "headerStyle = style (24, 24, 24) (150, 150, 150)"
definition headerFocusStyle :: Style where "headerFocusStyle = style (38, 38, 38) (220, 220, 220)"
definition headerPressStyle :: Style where "headerPressStyle = style (58, 58, 58) (255, 255, 255)"

text \<open>\<open>c + (255-c)/2\<close> on \<open>uint8\<close>.\<close>

definition brighten :: "byte \<Rightarrow> byte" where "brighten c = c + (255 - c) div 2"

definition brightened :: "rgb \<Rightarrow> rgb" where
  "brightened c = (case c of (r, g, b) \<Rightarrow> (brighten r, brighten g, brighten b))"

definition itemStyle :: "rgb \<Rightarrow> Style" where "itemStyle c = style (32, 32, 32) c"
definition activeStyle :: "rgb \<Rightarrow> Style" where
  "activeStyle c = (style (58, 58, 58) (brightened c))\<lparr>BoldText := True\<rparr>"
definition focusStyle :: "rgb \<Rightarrow> Style" where "focusStyle c = style (44, 44, 44) (brightened c)"
definition pressStyle :: "rgb \<Rightarrow> Style" where "pressStyle c = style (72, 72, 72) (brightened c)"

definition ovBgStyle :: Style where "ovBgStyle = style (18, 18, 18) (200, 200, 200)"
definition ovTitleStyle :: Style where "ovTitleStyle = style (18, 18, 18) (150, 150, 150)"
definition ovItemStyle :: Style where "ovItemStyle = style (18, 18, 18) (200, 200, 200)"
definition ovSelStyle :: Style where "ovSelStyle = style (168, 168, 168) (20, 20, 20)"
definition ovLabelStyle :: Style where "ovLabelStyle = style (18, 18, 18) (120, 120, 120)"
definition ovValueStyle :: Style where "ovValueStyle = style (18, 18, 18) (205, 205, 205)"
definition ovNameStyle :: Style where
  "ovNameStyle = (style (18, 18, 18) (235, 235, 235))\<lparr>BoldText := True\<rparr>"

section \<open>Component trees\<close>

datatype extent = DefaultSize | UnitPx int | UnitGrow

datatype direction = DefaultDir | RowDir | ColumnDir

record box =
  BoxDir :: direction
  BoxWidth :: extent
  BoxHeight :: extent
  BoxStyle :: Style
  PadLeft :: extent

definition NewDiv :: box where
  "NewDiv = \<lparr>BoxDir = DefaultDir, BoxWidth = DefaultSize, BoxHeight = DefaultSize,
     BoxStyle = no_style, PadLeft = DefaultSize\<rparr>"

datatype 'a node = Text string | Leaf 'a | Box box "'a node list"

definition px :: "int \<Rightarrow> extent" where "px n = UnitPx n"
definition grow :: extent where "grow = UnitGrow"

definition textRow :: "string \<Rightarrow> Style \<Rightarrow> 'a node" where
  "textRow s st = Box (NewDiv\<lparr>BoxWidth := grow, BoxHeight := px 1, BoxStyle := st\<rparr>) [Text s]"

definition swatchBox :: "rgb \<Rightarrow> 'a node" where
  "swatchBox c = Box (NewDiv\<lparr>BoxWidth := px 2, BoxHeight := px 1,
     BoxStyle := no_style\<lparr>Background := Some c\<rparr>\<rparr>) []"

definition cell :: "string \<Rightarrow> int \<Rightarrow> Style \<Rightarrow> 'a node" where
  "cell s w st = Box (NewDiv\<lparr>BoxWidth := (if w > 0 then px w else grow), BoxHeight := px 1, BoxStyle := st\<rparr>)
     [Text s]"

definition row_box :: "Style \<Rightarrow> box" where
  "row_box st = NewDiv\<lparr>BoxDir := RowDir, BoxWidth := grow, BoxHeight := px 1, BoxStyle := st\<rparr>"

definition kvLabelW :: int where "kvLabelW = 9"

definition kvRow :: "string \<Rightarrow> string \<Rightarrow> 'a node" where
  "kvRow label v = Box (row_box ovBgStyle) [cell label kvLabelW ovLabelStyle, cell v 0 ovValueStyle]"

definition machineRow :: "rgb \<Rightarrow> string \<Rightarrow> 'a node" where
  "machineRow c i = Box (row_box ovBgStyle)
     [cell ''Machine'' kvLabelW ovLabelStyle, swatchBox c, cell ('' '' @ i) 0 ovValueStyle]"

definition overlayDivider :: "'a node" where
  "overlayDivider = Box (NewDiv\<lparr>BoxWidth := px 1, BoxHeight := grow,
     BoxStyle := style (60, 60, 60) (60, 60, 60)\<rparr>) []"

text \<open>The texts of a tree, from top left to bottom right.\<close>

fun texts :: "'a node \<Rightarrow> string list" where
  "texts (Text s) = [s]"
| "texts (Leaf _) = []"
| "texts (Box _ ns) = concat (map texts ns)"

lemma texts_simps [simp]:
  "texts (textRow s st) = [s]" "texts (swatchBox c) = []" "texts (cell s w st) = [s]"
  "texts (kvRow s v) = [s, v]" "texts (machineRow c i) = [''Machine'', '' '' @ i]"
  "texts overlayDivider = []"
  by (simp_all add: textRow_def swatchBox_def cell_def kvRow_def machineRow_def overlayDivider_def)

section \<open>Colours\<close>

definition hex_val :: "char \<Rightarrow> nat option" where
  "hex_val c = (let n = code_of c in
     if 48 \<le> n \<and> n \<le> 57 then Some (n - 48)
     else if 97 \<le> n \<and> n \<le> 102 then Some (n - 87)
     else if 65 \<le> n \<and> n \<le> 70 then Some (n - 55) else None)"

text \<open>\<open>strconv.ParseUint(s, 16, 32)\<close>, for up to eight digits, where no value is out of range.\<close>

definition parse_hex :: "string \<Rightarrow> nat option" where
  "parse_hex s = (if s = [] then None
     else foldl (\<lambda>v c. case (v, hex_val c) of (Some n, Some d) \<Rightarrow> Some (16 * n + d) | _ \<Rightarrow> None) (Some 0) s)"

definition parseHexColor :: "string \<Rightarrow> rgb option" where
  "parseHexColor s =
    (if length s \<noteq> 7 \<or> hd s \<noteq> CHR ''#'' then None
     else case parse_hex (tl s) of
       None \<Rightarrow> None
     | Some v \<Rightarrow> Some (of_nat (v div 65536), of_nat (v div 256), of_nat v))"

definition hexColor :: "rgb \<Rightarrow> string" where
  "hexColor c = (case c of (r, g, b) \<Rightarrow> ''#'' @ hex_byte r @ hex_byte g @ hex_byte b)"

definition hostPalette :: "(string \<times> rgb) list" where
  "hostPalette =
     [(''blue'', (86, 182, 255)), (''green'', (95, 215, 135)), (''orange'', (255, 175, 95)),
      (''purple'', (215, 135, 255)), (''red'', (255, 135, 135)), (''cyan'', (95, 215, 215)),
      (''yellow'', (255, 215, 95)), (''pink'', (255, 135, 175))]"

definition autoHostColor :: "string \<Rightarrow> rgb" where
  "autoHostColor hostID = snd (hostPalette ! unat (fnv32a (bytes_of hostID) mod of_nat (length hostPalette)))"

section \<open>Lemmas\<close>

lemma code_of_less [simp]: "code_of c < 256"
  by (simp add: code_of_def flip: unat_byte_of)

lemma code_of_char [simp]: "n < 256 \<Longrightarrow> code_of (char_of n) = n"
  by (simp add: code_of_def)

lemma char_of_code [simp]: "char_of (code_of c) = c"
  by (simp add: code_of_def)

lemma code_of_inject: "code_of a = code_of b \<longleftrightarrow> a = b"
  by (metis char_of_code)

lemma hex_val_iff: "hex_val c = Some d \<longleftrightarrow> d < 16 \<and> lower_char c = hex_digit d"
proof -
  have "code_of (lower_char c) = code_of (hex_digit d) \<longleftrightarrow>
      (if 65 \<le> code_of c \<and> code_of c \<le> 90 then code_of c + 32 else code_of c) =
      (if d < 10 then 48 + d else 87 + d)" if "d < 16"
    using that by (simp add: lower_char_def hex_digit_def)
  then show ?thesis
    by (auto simp: hex_val_def Let_def simp flip: code_of_inject split: if_splits)
qed

lemma unat_byte_of_nat: "n < 256 \<Longrightarrow> unat (of_nat n :: byte) = n"
  by (simp add: unsigned_of_nat take_bit_eq_mod)

lemma hex_byte_exists:
  "a < 16 \<Longrightarrow> b < 16 \<Longrightarrow> \<exists>w. unat w = 16 * a + b \<and> hex_byte w = [hex_digit a, hex_digit b]"
  using unat_byte_of_nat [of "16 * a + b"]
  by (intro exI [of _ "of_nat (16 * a + b)"]) (simp add: hex_byte_def del: of_nat_add of_nat_mult)

lemma parse_hex_byte:
  "parse_hex [a, b, c, d, e, f] = Some v \<longleftrightarrow>
   (\<exists>r g bl. v = 65536 * unat r + 256 * unat g + unat bl \<and>
      map lower_char [a, b, c, d, e, f] = hex_byte r @ hex_byte g @ hex_byte bl)"
proof
  assume "parse_hex [a, b, c, d, e, f] = Some v"
  then obtain a' b' c' d' e' f' where digits: "hex_val a = Some a'" "hex_val b = Some b'" "hex_val c = Some c'"
      "hex_val d = Some d'" "hex_val e = Some e'" "hex_val f = Some f'"
    and v: "v = 65536 * (16 * a' + b') + 256 * (16 * c' + d') + (16 * e' + f')"
    by (auto simp: parse_hex_def split: option.splits)
  obtain r g bl where "unat r = 16 * a' + b'" "hex_byte r = [hex_digit a', hex_digit b']"
      "unat g = 16 * c' + d'" "hex_byte g = [hex_digit c', hex_digit d']"
      "unat bl = 16 * e' + f'" "hex_byte bl = [hex_digit e', hex_digit f']"
    using digits by (auto simp: hex_val_iff dest!: hex_byte_exists [of a' b'] hex_byte_exists [of c' d']
        hex_byte_exists [of e' f'])
  then have "v = 65536 * unat r + 256 * unat g + unat bl \<and>
      map lower_char [a, b, c, d, e, f] = hex_byte r @ hex_byte g @ hex_byte bl"
    using digits v by (simp add: hex_val_iff)
  then show "\<exists>r g bl. v = 65536 * unat r + 256 * unat g + unat bl \<and>
      map lower_char [a, b, c, d, e, f] = hex_byte r @ hex_byte g @ hex_byte bl" by blast
next
  assume "\<exists>r g bl. v = 65536 * unat r + 256 * unat g + unat bl \<and>
      map lower_char [a, b, c, d, e, f] = hex_byte r @ hex_byte g @ hex_byte bl"
  then obtain r g bl where v: "v = 65536 * unat r + 256 * unat g + unat bl"
    and eqs: "map lower_char [a, b, c, d, e, f] = hex_byte r @ hex_byte g @ hex_byte bl" by blast
  have "unat w div 16 < 16" for w :: byte using unat_byte_less [of w] by linarith
  then have eqs: "hex_val a = Some (unat r div 16)" "hex_val b = Some (unat r mod 16)"
      "hex_val c = Some (unat g div 16)" "hex_val d = Some (unat g mod 16)"
      "hex_val e = Some (unat bl div 16)" "hex_val f = Some (unat bl mod 16)"
    using eqs by (simp_all add: hex_byte_def hex_val_iff)
  show "parse_hex [a, b, c, d, e, f] = Some v"
    using eqs by (simp add: parse_hex_def v)
qed

lemma rgb_of_value:
  "(of_nat ((65536 * unat r + 256 * unat g + unat b) div 65536),
    of_nat ((65536 * unat r + 256 * unat g + unat b) div 256),
    of_nat (65536 * unat r + 256 * unat g + unat b)) = ((r, g, b) :: rgb)"
proof -
  note less = unat_byte_less [of r] unat_byte_less [of g] unat_byte_less [of b]
  have "(65536 * unat r + 256 * unat g + unat b) div 65536 = unat r" using less by linarith
  moreover have "(65536 * unat r + 256 * unat g + unat b) div 256 = 256 * unat r + unat g" using less by linarith
  moreover have wrap: "of_nat (256 * n + unat w) = w" for n :: nat and w :: byte
  proof -
    have zero: "(256 :: byte) = 0" by simp
    have "(256 :: byte) * of_nat n = 0" unfolding zero by simp
    then show ?thesis by simp
  qed
  moreover have "65536 * unat r + 256 * unat g + unat b = 256 * (256 * unat r + unat g) + unat b" by simp
  moreover have "of_nat (unat r) = r" by simp
  ultimately show ?thesis by (simp only:)
qed

lemma hexColor_inject: "hexColor c = hexColor c' \<longleftrightarrow> c = c'"
  by (cases c; cases c') (auto simp: hexColor_def hex_byte_def simp flip: hex_byte_inject)

lemma parse_format: "parseHexColor s = Some c \<longleftrightarrow> map lower_char s = hexColor c"
proof (cases "\<exists>h a b d e f g. s = [h, a, b, d, e, f, g]")
  case True
  then obtain h a b d e f g where s: "s = [h, a, b, d, e, f, g]" by blast
  have h: "lower_char h = CHR ''#'' \<longleftrightarrow> h = CHR ''#''"
    by (auto simp: lower_char_def code_of_def simp flip: code_of_inject)
  have "parseHexColor s = Some c \<longleftrightarrow> h = CHR ''#'' \<and> (\<exists>v. parse_hex [a, b, d, e, f, g] = Some v \<and>
      c = (of_nat (v div 65536), of_nat (v div 256), of_nat v))"
    by (auto simp: s parseHexColor_def split: option.splits)
  also have "\<dots> \<longleftrightarrow> h = CHR ''#'' \<and> (\<exists>v r gr bl. v = 65536 * unat r + 256 * unat gr + unat bl \<and>
      map lower_char [a, b, d, e, f, g] = hex_byte r @ hex_byte gr @ hex_byte bl \<and>
      c = (of_nat (v div 65536), of_nat (v div 256), of_nat v))"
    unfolding parse_hex_byte by blast
  also have "\<dots> \<longleftrightarrow> h = CHR ''#'' \<and> (\<exists>r gr bl.
      map lower_char [a, b, d, e, f, g] = hex_byte r @ hex_byte gr @ hex_byte bl \<and> c = (r, gr, bl))"
    using rgb_of_value by metis
  also have "\<dots> \<longleftrightarrow> map lower_char s = hexColor c"
    by (cases c) (auto simp: s hexColor_def h)
  finally show ?thesis .
next
  case False
  then have "length s \<noteq> 7" by (auto simp: length_Suc_conv numeral_eq_Suc)
  moreover have "length (hexColor c) = 7" by (cases c) (simp add: hexColor_def hex_byte_def)
  ultimately show ?thesis by (metis length_map option.distinct(1) parseHexColor_def)
qed

lemma lower_hex [simp]: "d < 16 \<Longrightarrow> lower_char (hex_digit d) = hex_digit d"
  by (simp add: lower_char_def hex_digit_def)

lemma lower_hexColor: "map lower_char (hexColor c) = hexColor c"
proof -
  have "map lower_char (hex_byte b) = hex_byte b" for b
    using unat_byte_less [of b] by (simp add: hex_byte_def less_mult_imp_div_less)
  moreover have "lower_char CHR ''#'' = CHR ''#''" by (simp add: lower_char_def code_of_def)
  ultimately show ?thesis by (cases c) (simp add: hexColor_def)
qed

lemma auto_in_palette: "autoHostColor i \<in> snd ` set hostPalette"
proof -
  have "unat (fnv32a (bytes_of i) mod of_nat (length hostPalette)) < length hostPalette"
    by (simp add: hostPalette_def unat_mod)
  then show ?thesis by (simp add: autoHostColor_def)
qed

text \<open>Exactly half the way to white; the addition on \<open>uint8\<close> does not wrap.\<close>

lemma brighten_half: "unat (brighten c) = (unat c + 255) div 2"
proof -
  have "unat c \<le> 255" using unat_byte_less [of c] by linarith
  then have "c \<le> 255" by (simp add: word_le_nat_alt)
  then have half: "unat ((255 - c) div 2) = (255 - unat c) div 2" by (simp add: unat_div unat_sub)
  have "unat c + (255 - unat c) div 2 < 256" using unat_byte_less [of c] by linarith
  then have "unat (brighten c) = unat c + (255 - unat c) div 2"
    using half unat_add_lem [of c "(255 - c) div 2"] by (simp add: brighten_def)
  then show ?thesis using unat_byte_less [of c] by linarith
qed

text \<open>Device colours.  What the colour picker stores in the registry reads back as the colour
  picked; a stored text is accepted exactly when it is, up to the case of its digits, the text of
  some colour; a device without one gets a colour of the palette; and brightening goes half the
  way to white without wrapping.\<close>

theorem device_colours:
  "(parseHexColor s = Some c \<longleftrightarrow> map lower_char s = hexColor c) \<and>
   parseHexColor (hexColor c) = Some c \<and>
   autoHostColor i \<in> snd ` set hostPalette \<and>
   unat (brighten b) = (unat b + 255) div 2"
  using parse_format [of s c] parse_format [of "hexColor c" c] lower_hexColor auto_in_palette brighten_half
  by blast

end
