(* ===== verification/Sidebar.thy ===== *)
theory Sidebar
  imports Widgets Session
begin

text \<open>
  \<open>internal/tui/sidebar.go\<close>: the panel that lists the sessions.

  A button of \<open>tui-runtime\<close> is its label, styles and focus, which the code sets, and a state of
  its own (position, pressed or not), which the library's \<open>HandleMouseDown\<close> and
  \<open>HandleMouseUp\<close> read and change; these two are parameters (\<open>button_lib\<close>), and a release tells
  whether it ran \<open>OnClick\<close>.  \<open>rebuild\<close> skips its work when the signature of the list is the
  one of the last build; \<open>side_ok\<close> says what the panel then still shows.
\<close>

section \<open>Input events\<close>

datatype KeyType =
    KeyRune | KeyEnter | KeyBackspace | KeyTab | KeyEscape | KeyCtrlC
  | KeyArrowUp | KeyArrowDown | KeyArrowRight | KeyArrowLeft | KeyHome | KeyEnd
  | KeyPageUp | KeyPageDown | KeyDelete | KeyPaste | KeyMouseLeftDown | KeyMouseLeftUp | KeyOther

record keyEvent =
  KType :: KeyType
  Ch :: int
  Ctrl :: bool
  Mouse :: bool
  MouseX :: int
  MouseY :: int
  PasteText :: string

section \<open>State\<close>

definition sidebarWidth :: int where "sidebarWidth = 26"
definition collapsedWidth :: int where "collapsedWidth = 1"
definition rowHeight :: int where "rowHeight = 1"

record 'u Button =
  BtnLabel :: string
  BtnStyles :: "Style \<times> Style \<times> Style"
  BtnFocused :: bool
  BtnUi :: 'u

record 'u button_lib =
  NewUi :: 'u
  HandleMouseDown :: "'u Button \<Rightarrow> int \<Rightarrow> int \<Rightarrow> bool \<times> 'u"
  HandleMouseUp :: "'u Button \<Rightarrow> int \<Rightarrow> int \<Rightarrow> (bool \<times> bool) \<times> 'u"

record 'u sessButton =
  SbBtn :: "'u Button"
  SbId :: string

text \<open>\<open>BarWidth\<close> and \<open>BarBuilt\<close> are the \<open>div\<close>: its width, and whether the toggle and the rows have
  been appended to it.\<close>

record 'u sidebar =
  BarWidth :: int
  BarBuilt :: bool
  Collapse :: "'u Button"
  BarRows :: "'u sessButton list"
  collapsed :: bool
  sig :: string

definition NewButton :: "'u button_lib \<Rightarrow> string \<Rightarrow> 'u Button" where
  "NewButton lib label = \<lparr>BtnLabel = label, BtnStyles = (no_style, no_style, no_style),
     BtnFocused = False, BtnUi = NewUi lib\<rparr>"

definition collapseLabel :: "bool \<Rightarrow> string" where
  "collapseLabel c = (if c then ''>'' else ''< sessions'')"

definition newSidebar :: "'u button_lib \<Rightarrow> 'u sidebar" where
  "newSidebar lib = \<lparr>BarWidth = sidebarWidth, BarBuilt = False,
     Collapse = (NewButton lib (collapseLabel False))
       \<lparr>BtnStyles := (headerStyle, headerFocusStyle, headerPressStyle)\<rparr>,
     BarRows = [], collapsed = False, sig = []\<rparr>"

definition width :: "'u sidebar \<Rightarrow> int" where
  "width sb = (if collapsed sb then collapsedWidth else sidebarWidth)"

definition applyWidth :: "'u sidebar \<Rightarrow> 'u sidebar" where
  "applyWidth sb = sb\<lparr>BarWidth := width sb\<rparr>"

definition toggle :: "'u sidebar \<Rightarrow> 'u sidebar" where
  "toggle sb =
    (let sb1 = sb\<lparr>collapsed := \<not> collapsed sb\<rparr>;
         sb2 = sb1\<lparr>Collapse := (Collapse sb1)\<lparr>BtnLabel := collapseLabel (collapsed sb1)\<rparr>\<rparr>
     in applyWidth sb2)"

section \<open>Labels\<close>

text \<open>A middle dot between blanks, in UTF-8.\<close>

definition dot :: string where "dot = [CHR '' '', CHR 0xC2, CHR 0xB7, CHR '' '']"

definition deviceLabel :: "(string \<Rightarrow> string) option \<Rightarrow> string \<Rightarrow> string" where
  "deviceLabel nameOf hostID =
    (let host = (case nameOf of Some f \<Rightarrow> f hostID | None \<Rightarrow> hostID)
     in if length host > 8 then take 8 host else host)"

definition sessionItemLabel :: "(string \<Rightarrow> string) option \<Rightarrow> Session \<Rightarrow> string" where
  "sessionItemLabel nameOf s =
    (let name = (if SessTitle s = '''' then SessID s else SessTitle s)
     in deviceLabel nameOf (SessHost s) @ dot @ name)"

definition signature_item :: "(string \<Rightarrow> string) option \<Rightarrow> Session \<Rightarrow> string" where
  "signature_item nameOf x =
     SessID x @ '':'' @ SessTitle x @ '':'' @ deviceLabel nameOf (SessHost x) @ '';''"

definition listSignature :: "(string \<Rightarrow> string) option \<Rightarrow> Session list \<Rightarrow> string \<Rightarrow> bool \<Rightarrow> string" where
  "listSignature nameOf ss active c =
     ''c='' @ (if c then ''true'' else ''false'') @ ''|a='' @ active @ ''|'' @
     concat (map (signature_item nameOf) ss)"

section \<open>Rebuilding\<close>

definition session_row ::
  "'u button_lib \<Rightarrow> (string \<Rightarrow> rgb) \<Rightarrow> (string \<Rightarrow> string) option \<Rightarrow> string \<Rightarrow> Session \<Rightarrow> 'u sessButton" where
  "session_row lib colorOf nameOf active s =
    (let c = colorOf (SessHost s); b = NewButton lib ('' '' @ sessionItemLabel nameOf s) in
     \<lparr>SbBtn = (if SessID s = active
        then b\<lparr>BtnStyles := (activeStyle c, activeStyle c, pressStyle c), BtnFocused := True\<rparr>
        else b\<lparr>BtnStyles := (itemStyle c, focusStyle c, pressStyle c)\<rparr>),
      SbId = SessID s\<rparr>)"

definition rebuild ::
  "'u button_lib \<Rightarrow> (string \<Rightarrow> rgb) \<Rightarrow> (string \<Rightarrow> string) option \<Rightarrow> Session list \<Rightarrow> string
     \<Rightarrow> 'u sidebar \<Rightarrow> 'u sidebar" where
  "rebuild lib colorOf nameOf ss active sb =
    (let sg = listSignature nameOf ss active (collapsed sb) in
     if sg = sig sb then sb
     else
       let sb1 = applyWidth (sb\<lparr>sig := sg\<rparr>);
           rows = (if collapsed sb1 then [] else map (session_row lib colorOf nameOf active) ss)
       in sb1\<lparr>BarRows := rows, BarBuilt := True\<rparr>)"

definition fixedRow :: "'a \<Rightarrow> 'a node" where
  "fixedRow child = Box (NewDiv\<lparr>BoxWidth := grow, BoxHeight := px rowHeight\<rparr>) [Leaf child]"

text \<open>The \<open>div\<close> as a tree: the toggle, then the rows.\<close>

definition sidebar_div :: "'u sidebar \<Rightarrow> 'u Button node" where
  "sidebar_div sb = Box (NewDiv\<lparr>BoxDir := ColumnDir, BoxWidth := px (BarWidth sb), BoxHeight := grow,
       BoxStyle := panelStyle\<rparr>)
     (if BarBuilt sb then fixedRow (Collapse sb) # map (\<lambda>r. fixedRow (SbBtn r)) (BarRows sb) else [])"

section \<open>The mouse\<close>

datatype click = ClickCollapse | ClickSession string

definition press :: "'u button_lib \<Rightarrow> int \<Rightarrow> int \<Rightarrow> 'u Button \<Rightarrow> bool \<times> 'u Button" where
  "press lib x y b = (case HandleMouseDown lib b x y of (c, ui) \<Rightarrow> (c, b\<lparr>BtnUi := ui\<rparr>))"

definition release :: "'u button_lib \<Rightarrow> int \<Rightarrow> int \<Rightarrow> 'u Button \<Rightarrow> (bool \<times> bool) \<times> 'u Button" where
  "release lib x y b = (case HandleMouseUp lib b x y of (r, ui) \<Rightarrow> (r, b\<lparr>BtnUi := ui\<rparr>))"

fun press_rows :: "'u button_lib \<Rightarrow> int \<Rightarrow> int \<Rightarrow> 'u sessButton list \<Rightarrow> bool \<times> 'u sessButton list" where
  "press_rows lib x y [] = (False, [])"
| "press_rows lib x y (r # rs) =
    (case press lib x y (SbBtn r) of
       (True, b) \<Rightarrow> (True, r\<lparr>SbBtn := b\<rparr> # rs)
     | (False, b) \<Rightarrow> (case press_rows lib x y rs of (c, rs') \<Rightarrow> (c, r\<lparr>SbBtn := b\<rparr> # rs')))"

fun release_rows ::
  "'u button_lib \<Rightarrow> int \<Rightarrow> int \<Rightarrow> bool \<Rightarrow> 'u sessButton list \<Rightarrow> bool \<times> click list \<times> 'u sessButton list" where
  "release_rows lib x y consumed [] = (consumed, [], [])"
| "release_rows lib x y consumed (r # rs) =
    (case release lib x y (SbBtn r) of
       ((c, clicked), b) \<Rightarrow>
         (case release_rows lib x y (consumed \<or> c) rs of
            (c', clicks, rs') \<Rightarrow>
              (c', (if clicked then [ClickSession (SbId r)] else []) @ clicks, r\<lparr>SbBtn := b\<rparr> # rs')))"

text \<open>The result: consumed or not, the callbacks that ran, in order, and the panel.\<close>

definition routeMouse :: "'u button_lib \<Rightarrow> keyEvent \<Rightarrow> 'u sidebar \<Rightarrow> bool \<times> click list \<times> 'u sidebar" where
  "routeMouse lib ev sb =
    (case KType ev of
       KeyMouseLeftDown \<Rightarrow>
         (case press lib (MouseX ev) (MouseY ev) (Collapse sb) of
            (True, b) \<Rightarrow> (True, [], sb\<lparr>Collapse := b\<rparr>)
          | (False, b) \<Rightarrow>
             (case press_rows lib (MouseX ev) (MouseY ev) (BarRows sb) of
                (c, rs) \<Rightarrow> (c, [], sb\<lparr>Collapse := b, BarRows := rs\<rparr>)))
     | KeyMouseLeftUp \<Rightarrow>
         (case release lib (MouseX ev) (MouseY ev) (Collapse sb) of
            ((c, clicked), b) \<Rightarrow>
             (case release_rows lib (MouseX ev) (MouseY ev) c (BarRows sb) of
                (c', clicks, rs) \<Rightarrow>
                  (c', (if clicked then [ClickCollapse] else []) @ clicks,
                   sb\<lparr>Collapse := b, BarRows := rs\<rparr>)))
     | _ \<Rightarrow> (False, [], sb))"

section \<open>What the panel shows\<close>

definition row_view :: "'u sessButton \<Rightarrow> string \<times> string \<times> bool" where
  "row_view r = (BtnLabel (SbBtn r), SbId r, BtnFocused (SbBtn r))"

definition item_view :: "(string \<Rightarrow> string) option \<Rightarrow> string \<Rightarrow> Session \<Rightarrow> string \<times> string \<times> bool" where
  "item_view nameOf active s = ('' '' @ sessionItemLabel nameOf s, SessID s, SessID s = active)"

text \<open>The rows a panel of this width should have.\<close>

definition wanted_rows ::
  "bool \<Rightarrow> (string \<Rightarrow> string) option \<Rightarrow> Session list \<Rightarrow> string \<Rightarrow> (string \<times> string \<times> bool) list" where
  "wanted_rows c nameOf ss active = (if c then [] else map (item_view nameOf active) ss)"

text \<open>Texts without the separators of the signature.\<close>

definition plain_text :: "string \<Rightarrow> bool" where
  "plain_text s \<longleftrightarrow> CHR '':'' \<notin> set s \<and> CHR '';'' \<notin> set s \<and> CHR ''|'' \<notin> set s"

definition plain_list :: "(string \<Rightarrow> string) option \<Rightarrow> Session list \<Rightarrow> string \<Rightarrow> bool" where
  "plain_list nameOf ss active \<longleftrightarrow> plain_text active \<and>
     (\<forall>s \<in> set ss. plain_text (SessID s) \<and> plain_text (SessTitle s) \<and> plain_text (deviceLabel nameOf (SessHost s)))"

datatype side_op =
    SideToggle | SideMouse keyEvent
  | SideRebuild "string \<Rightarrow> rgb" "(string \<Rightarrow> string) option" "Session list" string

fun side_apply :: "'u button_lib \<Rightarrow> side_op \<Rightarrow> 'u sidebar \<Rightarrow> 'u sidebar" where
  "side_apply lib SideToggle sb = toggle sb"
| "side_apply lib (SideMouse ev) sb = snd (snd (routeMouse lib ev sb))"
| "side_apply lib (SideRebuild colorOf nameOf ss active) sb = rebuild lib colorOf nameOf ss active sb"

definition side_run :: "'u button_lib \<Rightarrow> side_op list \<Rightarrow> 'u sidebar" where
  "side_run lib ops = foldl (\<lambda>sb op. side_apply lib op sb) (newSidebar lib) ops"

fun plain_op :: "side_op \<Rightarrow> bool" where
  "plain_op SideToggle = True"
| "plain_op (SideMouse ev) = True"
| "plain_op (SideRebuild colorOf nameOf ss active) = plain_list nameOf ss active"

lemma sep_inject: "c \<notin> set a \<Longrightarrow> c \<notin> set b \<Longrightarrow> a @ c # x = b @ c # y \<longleftrightarrow> a = b \<and> x = y"
proof (induction a arbitrary: b)
  case Nil
  then show ?case by (cases b) auto
next
  case (Cons d a)
  then show ?case by (cases b) auto
qed

lemma items_inject:
  assumes "concat (map (signature_item nm) ss) = concat (map (signature_item nm') ss')"
    and "plain_list nm ss a" "plain_list nm' ss' a'"
  shows "map (\<lambda>s. (SessID s, SessTitle s, deviceLabel nm (SessHost s))) ss =
    map (\<lambda>s. (SessID s, SessTitle s, deviceLabel nm' (SessHost s))) ss'"
  using assms
proof (induction ss arbitrary: ss')
  case Nil
  then show ?case by (cases ss') (simp_all add: signature_item_def)
next
  case (Cons s ss)
  then obtain s' rest where ss': "ss' = s' # rest"
    by (cases ss') (simp_all add: signature_item_def)
  have plain: "plain_text (SessID s)" "plain_text (SessTitle s)" "plain_text (deviceLabel nm (SessHost s))"
    "plain_text (SessID s')" "plain_text (SessTitle s')" "plain_text (deviceLabel nm' (SessHost s'))"
    using Cons.prems(2,3) by (simp_all add: ss' plain_list_def)
  have eq: "SessID s @ CHR '':'' # SessTitle s @ CHR '':'' # deviceLabel nm (SessHost s) @ CHR '';'' #
        concat (map (signature_item nm) ss) =
      SessID s' @ CHR '':'' # SessTitle s' @ CHR '':'' # deviceLabel nm' (SessHost s') @ CHR '';'' #
        concat (map (signature_item nm') rest)"
    using Cons.prems(1) by (simp add: ss' signature_item_def [of nm s] signature_item_def [of nm' s'])
  have "SessID s = SessID s' \<and> SessTitle s = SessTitle s' \<and>
      deviceLabel nm (SessHost s) = deviceLabel nm' (SessHost s') \<and>
      concat (map (signature_item nm) ss) = concat (map (signature_item nm') rest)"
    using plain [unfolded plain_text_def] by (rule_tac mp [OF _ eq]) (simp add: sep_inject)
  moreover have "plain_list nm ss a" "plain_list nm' rest a'"
    using Cons.prems(2,3) by (auto simp: ss' plain_list_def)
  ultimately show ?case using Cons.IH [of rest] by (simp add: ss')
qed

lemma signature_inject:
  assumes "listSignature nm ss a c = listSignature nm' ss' a' c'"
    and "plain_list nm ss a" "plain_list nm' ss' a'"
  shows "wanted_rows c nm ss a = wanted_rows c' nm' ss' a'"
proof -
  have c: "c = c'" using assms(1) by (cases c; cases c') (auto simp: listSignature_def)
  then have "a @ CHR ''|'' # concat (map (signature_item nm) ss) =
      a' @ CHR ''|'' # concat (map (signature_item nm') ss')"
    using assms(1) by (simp add: listSignature_def)
  then have a: "a = a'" and items: "concat (map (signature_item nm) ss) = concat (map (signature_item nm') ss')"
    using assms(2,3) by (auto simp: sep_inject plain_list_def plain_text_def)
  have view: "map (item_view nm a) ss = map (\<lambda>(i, t, l). ('' '' @ l @ dot @ (if t = '''' then i else t), i, i = a))
      (map (\<lambda>s. (SessID s, SessTitle s, deviceLabel nm (SessHost s))) ss)"
    for nm ss a by (simp add: item_view_def sessionItemLabel_def Let_def)
  show ?thesis unfolding wanted_rows_def a c view items_inject [OF items assms(2,3)] ..
qed

lemma signature_nonempty: "listSignature nm ss a c \<noteq> []"
  by (simp add: listSignature_def)

definition side_ok :: "'u sidebar \<Rightarrow> bool" where
  "side_ok sb \<longleftrightarrow> BarWidth sb = width sb \<and> BtnLabel (Collapse sb) = collapseLabel (collapsed sb) \<and>
     (sig sb = [] \<and> BarRows sb = [] \<or>
      (\<exists>nm ss a c. plain_list nm ss a \<and> sig sb = listSignature nm ss a c \<and>
         map row_view (BarRows sb) = wanted_rows c nm ss a))"

lemma side_ok_new: "side_ok (newSidebar lib)"
  by (simp add: side_ok_def newSidebar_def width_def NewButton_def)

lemma side_ok_toggle: "side_ok sb \<Longrightarrow> side_ok (toggle sb)"
  by (auto simp: side_ok_def toggle_def applyWidth_def width_def Let_def)

lemma session_row_view: "row_view (session_row lib colorOf nm a s) = item_view nm a s"
  by (simp add: row_view_def session_row_def item_view_def NewButton_def Let_def)

lemma rebuild_current:
  assumes "side_ok sb" "plain_list nm ss a"
  shows "side_ok (rebuild lib colorOf nm ss a sb) \<and>
    map row_view (BarRows (rebuild lib colorOf nm ss a sb)) = wanted_rows (collapsed sb) nm ss a \<and>
    collapsed (rebuild lib colorOf nm ss a sb) = collapsed sb"
proof (cases "listSignature nm ss a (collapsed sb) = sig sb")
  case True
  then obtain nm' ss' a' c where "plain_list nm' ss' a'" "sig sb = listSignature nm' ss' a' c"
    "map row_view (BarRows sb) = wanted_rows c nm' ss' a'"
    using assms(1) signature_nonempty [of nm ss a "collapsed sb"] by (auto simp: side_ok_def)
  then show ?thesis
    using True assms signature_inject [of nm ss a "collapsed sb" nm' ss' a' c] by (simp add: rebuild_def)
next
  case False
  let ?sb = "rebuild lib colorOf nm ss a sb"
  have "map row_view (BarRows ?sb) = wanted_rows (collapsed sb) nm ss a"
    using False
    by (simp add: rebuild_def Let_def applyWidth_def wanted_rows_def session_row_view comp_def)
  moreover have "sig ?sb = listSignature nm ss a (collapsed sb)" "collapsed ?sb = collapsed sb"
    "BarWidth ?sb = width ?sb" "Collapse ?sb = Collapse sb"
    using False by (simp_all add: rebuild_def Let_def applyWidth_def width_def)
  ultimately show ?thesis using assms by (auto simp: side_ok_def)
qed

lemma press_view: "press lib x y b = (c, b') \<Longrightarrow> BtnLabel b' = BtnLabel b \<and> BtnFocused b' = BtnFocused b \<and> BtnStyles b' = BtnStyles b"
  by (auto simp: press_def split: prod.splits)

lemma release_view: "release lib x y b = (c, b') \<Longrightarrow> BtnLabel b' = BtnLabel b \<and> BtnFocused b' = BtnFocused b \<and> BtnStyles b' = BtnStyles b"
  by (auto simp: release_def split: prod.splits)

lemma press_rows_view: "map row_view (snd (press_rows lib x y rs)) = map row_view rs"
proof (induction rs)
  case (Cons r rs)
  obtain c b where p: "press lib x y (SbBtn r) = (c, b)" by fastforce
  obtain c' rs' where q: "press_rows lib x y rs = (c', rs')" by fastforce
  from press_view [OF p] Cons show ?case
    by (cases c) (simp_all add: p q row_view_def)
qed simp

lemma release_rows_view:
  "map row_view (snd (snd (release_rows lib x y c rs))) = map row_view rs \<and>
   set (fst (snd (release_rows lib x y c rs))) \<subseteq> ClickSession ` SbId ` set rs"
proof (induction rs arbitrary: c)
  case (Cons r rs)
  obtain c1 clicked b where p: "release lib x y (SbBtn r) = ((c1, clicked), b)"
    by (cases "release lib x y (SbBtn r)") auto
  obtain c2 clicks rs' where q: "release_rows lib x y (c \<or> c1) rs = (c2, clicks, rs')"
    by (cases "release_rows lib x y (c \<or> c1) rs") auto
  from release_view [OF p] Cons [of "c \<or> c1"] show ?case
    by (auto simp: p q row_view_def)
qed simp

lemma routeMouse_frame:
  assumes "routeMouse lib ev sb = (c, clicks, sb')"
  shows "map row_view (BarRows sb') = map row_view (BarRows sb) \<and> sig sb' = sig sb \<and>
    collapsed sb' = collapsed sb \<and> BarWidth sb' = BarWidth sb \<and>
    BtnLabel (Collapse sb') = BtnLabel (Collapse sb) \<and>
    set clicks \<subseteq> insert ClickCollapse (ClickSession ` SbId ` set (BarRows sb))"
proof -
  obtain p b where press: "press lib (MouseX ev) (MouseY ev) (Collapse sb) = (p, b)" by fastforce
  obtain q rs where rows: "press_rows lib (MouseX ev) (MouseY ev) (BarRows sb) = (q, rs)" by fastforce
  obtain r k b' where release: "release lib (MouseX ev) (MouseY ev) (Collapse sb) = ((r, k), b')"
    by (cases "release lib (MouseX ev) (MouseY ev) (Collapse sb)") auto
  obtain r' ks rs' where rows': "release_rows lib (MouseX ev) (MouseY ev) r (BarRows sb) = (r', ks, rs')"
    by (cases "release_rows lib (MouseX ev) (MouseY ev) r (BarRows sb)") auto
  note views = press_view [OF press] release_view [OF release]
    press_rows_view [of lib "MouseX ev" "MouseY ev" "BarRows sb"]
    release_rows_view [of lib "MouseX ev" "MouseY ev" r "BarRows sb"]
  show ?thesis
  proof (cases "KType ev = KeyMouseLeftDown")
    case True
    then show ?thesis using assms views by (cases p) (auto simp: routeMouse_def press rows)
  next
    case False
    then show ?thesis
      using assms views by (cases "KType ev") (auto simp: routeMouse_def release rows')
  qed
qed

lemma side_ok_mouse: "side_ok sb \<Longrightarrow> side_ok (snd (snd (routeMouse lib ev sb)))"
proof (cases "routeMouse lib ev sb")
  case (fields c clicks sb')
  note frame = routeMouse_frame [OF fields]
  then have "BarRows sb' = [] \<longleftrightarrow> BarRows sb = []" by (metis map_is_Nil_conv)
  then show "side_ok sb \<Longrightarrow> ?thesis"
    using frame by (simp add: fields side_ok_def width_def)
qed

lemma side_run_ok: "list_all plain_op ops \<Longrightarrow> side_ok (side_run lib ops)"
proof (induction ops rule: rev_induct)
  case Nil
  then show ?case by (simp add: side_run_def side_ok_new)
next
  case (snoc op ops)
  then have "side_ok (side_run lib ops)" "plain_op op" by simp_all
  then show ?case
    by (cases op) (simp_all add: side_run_def side_ok_toggle side_ok_mouse rebuild_current)
qed

section \<open>Properties\<close>


definition demo_session :: "string \<Rightarrow> string \<Rightarrow> Session" where
  "demo_session i t = \<lparr>SessID = i, SessHost = ''h'', SessProject = \<lparr>KeyHost = ''h'', KeyRoot = ''/p''\<rparr>,
     SessTitle = t, SessState = StateRunning, SessSize = \<lparr>Rows = 24, Cols = 80\<rparr>, SessCreated = 0\<rparr>"

definition still_lib :: "unit button_lib" where
  "still_lib = \<lparr>NewUi = (), HandleMouseDown = (\<lambda>_ _ _. (False, ())), HandleMouseUp = (\<lambda>_ _ _. ((True, True), ()))\<rparr>"


text \<open>A repaint after a device's colour has changed keeps the old colour: the signature does not
  cover colours, so the rows stay as they were built until something else of the list changes.\<close>

theorem colour_change_not_shown:
  "rebuild lib new nameOf ss active (rebuild lib old nameOf ss active sb) = rebuild lib old nameOf ss active sb \<and>
   map (\<lambda>r. BtnStyles (SbBtn r))
     (BarRows (rebuild lib new nameOf ss active (rebuild lib old nameOf ss active (newSidebar lib)))) =
   map (\<lambda>s. let c = old (SessHost s) in
     if SessID s = active then (activeStyle c, activeStyle c, pressStyle c)
     else (itemStyle c, focusStyle c, pressStyle c)) ss"
proof -
  have once: "rebuild lib new nameOf ss active (rebuild lib old nameOf ss active sb) =
      rebuild lib old nameOf ss active sb" for sb
    by (simp add: rebuild_def Let_def applyWidth_def)
  show ?thesis
    unfolding once
    by (auto simp: rebuild_def newSidebar_def listSignature_def applyWidth_def session_row_def Let_def)
qed

end
