(* ===== verification/Pane.thy ===== *)
theory Pane
  imports Widgets
begin

text \<open>
  \<open>internal/tui/pane.go\<close>: the main region, a terminal emulator drawn into a rectangle of the
  screen.  The emulator (\<open>vt10x\<close>) is the parameter \<open>term_lib\<close>, with its two default colours.
  \<open>Layout\<close> returns the call of \<open>onResize\<close> it makes, if any, and \<open>Render\<close> the calls of
  \<open>screen.Set\<close>, in order.
\<close>

section \<open>State\<close>

record glyph =
  GChar :: int
  GFG :: "32 word"
  GBG :: "32 word"

record 't term_lib =
  TermNew :: "int \<Rightarrow> int \<Rightarrow> 't"
  TermWrite :: "'t \<Rightarrow> byte list \<Rightarrow> 't"
  TermResize :: "'t \<Rightarrow> int \<Rightarrow> int \<Rightarrow> 't"
  TermCell :: "'t \<Rightarrow> int \<Rightarrow> int \<Rightarrow> glyph"
  TermCursor :: "'t \<Rightarrow> int \<times> int"
  TermCursorVisible :: "'t \<Rightarrow> bool"
  DefaultFG :: "32 word"
  DefaultBG :: "32 word"

record 't pane =
  PaneTerm :: 't
  PaneW :: int
  PaneH :: int
  PaneX :: int
  PaneY :: int
  CurX :: int
  CurY :: int
  CurVisible :: bool

definition newPane :: "'t term_lib \<Rightarrow> 't pane" where
  "newPane lib = \<lparr>PaneTerm = TermNew lib 80 24, PaneW = 80, PaneH = 24, PaneX = 0, PaneY = 0,
     CurX = 0, CurY = 0, CurVisible = False\<rparr>"

definition feed :: "'t term_lib \<Rightarrow> byte list \<Rightarrow> 't pane \<Rightarrow> 't pane" where
  "feed lib bs p = p\<lparr>PaneTerm := TermWrite lib (PaneTerm p) bs\<rparr>"

definition reset :: "'t term_lib \<Rightarrow> 't pane \<Rightarrow> 't pane" where
  "reset lib p = p\<lparr>PaneTerm := TermNew lib (PaneW p) (PaneH p)\<rparr>"

definition pane_size :: "'t pane \<Rightarrow> int \<times> int" where
  "pane_size p = (PaneW p, PaneH p)"

definition pane_Layout ::
  "'t term_lib \<Rightarrow> int \<Rightarrow> int \<Rightarrow> int \<Rightarrow> int \<Rightarrow> 't pane \<Rightarrow> 't pane \<times> (int \<times> int) option" where
  "pane_Layout lib x y w h p0 =
    (let p = p0\<lparr>PaneX := x, PaneY := y\<rparr>;
         resized = (w \<noteq> PaneW p \<or> h \<noteq> PaneH p);
         p1 = (if resized \<and> w > 0 \<and> h > 0
           then p\<lparr>PaneW := w, PaneH := h, PaneTerm := TermResize lib (PaneTerm p) w h\<rparr> else p)
     in (p1, if resized \<and> w > 0 \<and> h > 0 then Some (w, h) else None))"

section \<open>Rendering\<close>

definition ESC :: char where "ESC = CHR 0x1B"

definition neutralBG :: string where "neutralBG = ESC # ''[49m''"
definition neutralFG :: string where "neutralFG = ESC # ''[39m''"

definition utoa :: "32 word \<Rightarrow> string" where "utoa n = digits_of (unat n)"

definition vtColor :: "'t term_lib \<Rightarrow> 32 word \<Rightarrow> bool \<Rightarrow> string" where
  "vtColor lib c fg =
    (if c = DefaultFG lib \<or> c = DefaultBG lib then ''''
     else if c < 256 then
       (if fg then ESC # ''[38;5;'' @ utoa c @ ''m'' else ESC # ''[48;5;'' @ utoa c @ ''m'')
     else
       let r = and (drop_bit 16 c) 255; g = and (drop_bit 8 c) 255; b = and c 255 in
       if fg then ESC # ''[38;2;'' @ utoa r @ '';'' @ utoa g @ '';'' @ utoa b @ ''m''
       else ESC # ''[48;2;'' @ utoa r @ '';'' @ utoa g @ '';'' @ utoa b @ ''m'')"

record set_call =
  SetX :: int
  SetY :: int
  SetCh :: int
  SetFG :: string
  SetBG :: string

definition render_cell :: "'t term_lib \<Rightarrow> 't pane \<Rightarrow> int \<Rightarrow> int \<Rightarrow> set_call" where
  "render_cell lib p y x =
    (let g = TermCell lib (PaneTerm p) x y;
         ch = (if GChar g = 0 then 32 else GChar g);
         fg = vtColor lib (GFG g) True; fg' = (if fg = '''' then neutralFG else fg);
         bg = vtColor lib (GBG g) False; bg' = (if bg = '''' then neutralBG else bg)
     in \<lparr>SetX = PaneX p + x, SetY = PaneY p + y, SetCh = ch, SetFG = fg', SetBG = bg'\<rparr>)"

definition Render :: "'t term_lib \<Rightarrow> 't pane \<Rightarrow> set_call list \<times> 't pane" where
  "Render lib p =
    (concat (map (\<lambda>y. map (render_cell lib p y) [0..PaneW p - 1]) [0..PaneH p - 1]),
     p\<lparr>CurX := PaneX p + fst (TermCursor lib (PaneTerm p)), CurY := PaneY p + snd (TermCursor lib (PaneTerm p)),
       CurVisible := TermCursorVisible lib (PaneTerm p)\<rparr>)"

definition cursor :: "'t pane \<Rightarrow> int \<times> int \<times> bool" where
  "cursor p = (CurX p, CurY p, CurVisible p)"

section \<open>Lemmas\<close>

datatype pane_op = Feed "byte list" | Reset | LayoutAt int int int int | Rendered

fun pane_apply :: "'t term_lib \<Rightarrow> pane_op \<Rightarrow> 't pane \<Rightarrow> 't pane" where
  "pane_apply lib (Feed bs) p = feed lib bs p"
| "pane_apply lib Reset p = reset lib p"
| "pane_apply lib (LayoutAt x y w h) p = fst (pane_Layout lib x y w h p)"
| "pane_apply lib Rendered p = snd (Render lib p)"

definition pane_run :: "'t term_lib \<Rightarrow> pane_op list \<Rightarrow> 't pane" where
  "pane_run lib ops = foldl (\<lambda>p op. pane_apply lib op p) (newPane lib) ops"

lemma pane_positive: "0 < PaneW (pane_run lib ops) \<and> 0 < PaneH (pane_run lib ops)"
proof (induction ops rule: rev_induct)
  case Nil
  then show ?case by (simp add: pane_run_def newPane_def)
next
  case (snoc op ops)
  then show ?case
    by (cases op) (simp_all add: pane_run_def feed_def reset_def pane_Layout_def Render_def Let_def)
qed

text \<open>A colour sequence: ESC, a bracket, digits and semicolons, the letter m.\<close>

definition parameters :: "string \<Rightarrow> bool" where
  "parameters ps \<longleftrightarrow> set ps \<subseteq> set ''0123456789;''"

definition sgr :: "string \<Rightarrow> bool" where
  "sgr s \<longleftrightarrow> (\<exists>ps. s = ESC # ''['' @ ps @ ''m'' \<and> parameters ps)"

lemma parameters_append: "parameters (a @ b) \<longleftrightarrow> parameters a \<and> parameters b"
  by (simp add: parameters_def)

lemma digits_of_digits: "set (digits_of n) \<subseteq> set ''0123456789''"
proof (induction n rule: digits_of.induct)
  case (1 n)
  have digit: "char_of (48 + d) \<in> set ''0123456789''" if "d < 10" for d :: nat
  proof -
    have "\<forall>d \<in> set [0..<10]. (char_of (48 + d) :: char) \<in> set ''0123456789''" by code_simp
    then show ?thesis using that by simp
  qed
  show ?case
  proof (cases "n < 10")
    case True
    then show ?thesis using digit [of n] by (subst digits_of.simps) simp
  next
    case False
    then show ?thesis using 1 digit [of "n mod 10"] by (subst digits_of.simps) simp
  qed
qed

lemma utoa_digits: "parameters (utoa n)"
proof -
  have "set ''0123456789'' \<subseteq> set ''0123456789;''" by simp
  then show ?thesis unfolding parameters_def utoa_def by (rule order.trans [OF digits_of_digits])
qed

lemma vtColor_sgr: "vtColor lib c fg = '''' \<or> sgr (vtColor lib c fg)"
proof -
  have one: "sgr (ESC # ''['' @ (k @ utoa a) @ ''m'')" if "parameters k" for k a
    unfolding sgr_def using that utoa_digits [of a]
    by (intro exI [of _ "k @ utoa a"]) (simp add: parameters_append)
  have three: "sgr (ESC # ''['' @ (k @ utoa a @ '';'' @ utoa b @ '';'' @ utoa d) @ ''m'')"
    if "parameters k" for k a b d
  proof -
    have "parameters (k @ utoa a @ '';'' @ utoa b @ '';'' @ utoa d)"
      using that utoa_digits by (simp only: parameters_append) (simp add: parameters_def)
    then show ?thesis unfolding sgr_def
      by (intro exI [of _ "k @ utoa a @ '';'' @ utoa b @ '';'' @ utoa d"] conjI refl)
  qed
  have keys: "parameters ''38;5;''" "parameters ''48;5;''" "parameters ''38;2;''" "parameters ''48;2;''"
    by (simp_all add: parameters_def)
  have kinds: "sgr (ESC # ''[38;5;'' @ utoa a @ ''m'')" "sgr (ESC # ''[48;5;'' @ utoa a @ ''m'')"
    "sgr (ESC # ''[38;2;'' @ utoa a @ '';'' @ utoa b @ '';'' @ utoa d @ ''m'')"
    "sgr (ESC # ''[48;2;'' @ utoa a @ '';'' @ utoa b @ '';'' @ utoa d @ ''m'')" for a b d
    using one [OF keys(1), of a] one [OF keys(2), of a] three [OF keys(3), of a b d] three [OF keys(4), of a b d]
    by simp_all
  show ?thesis unfolding vtColor_def Let_def by (simp only: kinds split: if_split) simp
qed

lemma neutral_sgr: "sgr neutralFG" "sgr neutralBG"
proof -
  show "sgr neutralFG" unfolding sgr_def neutralFG_def
    by (rule exI [of _ "''39''"]) (simp add: parameters_def)
  show "sgr neutralBG" unfolding sgr_def neutralBG_def
    by (rule exI [of _ "''49''"]) (simp add: parameters_def)
qed

lemma render_cell_sgr: "sgr (SetFG (render_cell lib p y x)) \<and> sgr (SetBG (render_cell lib p y x))"
  using vtColor_sgr [of lib] neutral_sgr by (auto simp: render_cell_def Let_def)

lemma render_pos: "(SetX (render_cell lib p y x), SetY (render_cell lib p y x)) = (PaneX p + x, PaneY p + y)"
  by (simp add: render_cell_def Let_def)

lemma Render_cells:
  "fst (Render lib p) = map (\<lambda>(y, x). render_cell lib p y x) (List.product [0..PaneH p - 1] [0..PaneW p - 1])"
  by (simp add: Render_def product_concat_map map_concat comp_def)

section \<open>Properties\<close>

text \<open>The host is contained.  Whatever bytes the host has sent and however the pane was laid out,
  drawing it sets exactly the cells of its rectangle, each once, and the only escape sequences it
  adds are colour sequences; the size of the pane stays positive, and \<open>onResize\<close> runs exactly
  when a layout gives it a new positive size.\<close>

theorem pane_contained:
  "(let p = pane_run lib ops; cells = fst (Render lib p) in
      PaneW p > 0 \<and> PaneH p > 0 \<and>
      distinct (map (\<lambda>c. (SetX c, SetY c)) cells) \<and>
      set (map (\<lambda>c. (SetX c, SetY c)) cells) =
        {PaneX p..<PaneX p + PaneW p} \<times> {PaneY p..<PaneY p + PaneH p} \<and>
      list_all (\<lambda>c. sgr (SetFG c) \<and> sgr (SetBG c)) cells \<and>
      (pane_Layout lib x y w h p = (fst (pane_Layout lib x y w h p),
         if (w, h) \<noteq> pane_size p \<and> w > 0 \<and> h > 0 then Some (w, h) else None)) \<and>
      pane_size (fst (pane_Layout lib x y w h p)) = (if w > 0 \<and> h > 0 then (w, h) else pane_size p))"
proof -
  define p where "p = pane_run lib ops"
  let ?grid = "List.product [0..PaneH p - 1] [0..PaneW p - 1]"
  have pos: "map (\<lambda>c. (SetX c, SetY c)) (fst (Render lib p)) = map (\<lambda>(y, x). (PaneX p + x, PaneY p + y)) ?grid"
    using render_pos [of lib p] by (simp add: Render_cells split_def)
  have "distinct (map (\<lambda>(y, x). (PaneX p + x, PaneY p + y)) ?grid)"
    by (auto simp: distinct_map distinct_product inj_on_def)
  moreover have "set (map (\<lambda>(y, x). (PaneX p + x, PaneY p + y)) ?grid) =
      {PaneX p..<PaneX p + PaneW p} \<times> {PaneY p..<PaneY p + PaneH p}" (is "?A = ?B")
  proof
    show "?A \<subseteq> ?B" by auto
    show "?B \<subseteq> ?A"
    proof
      fix c assume "c \<in> ?B"
      then have "(snd c - PaneY p, fst c - PaneX p) \<in> set ?grid" by auto
      then show "c \<in> ?A" unfolding set_map by (rule image_eqI [rotated]) (simp add: prod_eq_iff)
    qed
  qed
  moreover have "list_all (\<lambda>c. sgr (SetFG c) \<and> sgr (SetBG c)) (fst (Render lib p))"
    using render_cell_sgr [of lib p] by (auto simp: Render_cells list_all_iff)
  moreover have "pane_Layout lib x y w h p = (fst (pane_Layout lib x y w h p),
         if (w, h) \<noteq> pane_size p \<and> w > 0 \<and> h > 0 then Some (w, h) else None)"
    "pane_size (fst (pane_Layout lib x y w h p)) = (if w > 0 \<and> h > 0 then (w, h) else pane_size p)"
    by (auto simp: pane_Layout_def pane_size_def Let_def)
  ultimately show ?thesis
    using pane_positive [of lib ops] unfolding Let_def p_def [symmetric] pos by blast
qed

end
