(* ===== verification/Overlay.thy ===== *)
theory Overlay
  imports Sidebar Pane Project Registry
begin

text \<open>
  \<open>internal/tui/overlay.go\<close>: the modal lists and prompts.

  The closures of the code are data here: what Enter does with an entry is an \<open>action\<close>, what a
  text prompt does with its text a \<open>submit\<close>; the theory Tui runs them.  The fuzzy matcher is
  the parameter \<open>fz\<close>: the indices of the matching labels, best first.  Strings are UTF-8 bytes.
\<close>

section \<open>Runes\<close>

text \<open>The length of the first rune of a text; a byte that starts no rune counts as one.\<close>

definition cont :: "nat \<Rightarrow> nat \<Rightarrow> nat \<Rightarrow> bool" where
  "cont lo hi b \<longleftrightarrow> lo \<le> b \<and> b \<le> hi"

fun rune_codes :: "nat list \<Rightarrow> nat" where
  "rune_codes (a # b # c # d # _) =
    (if 0xC2 \<le> a \<and> a \<le> 0xDF \<and> cont 0x80 0xBF b then 2
     else if 0xE0 \<le> a \<and> a \<le> 0xEF \<and>
       cont (if a = 0xE0 then 0xA0 else 0x80) (if a = 0xED then 0x9F else 0xBF) b \<and> cont 0x80 0xBF c then 3
     else if 0xF0 \<le> a \<and> a \<le> 0xF4 \<and>
       cont (if a = 0xF0 then 0x90 else 0x80) (if a = 0xF4 then 0x8F else 0xBF) b \<and>
       cont 0x80 0xBF c \<and> cont 0x80 0xBF d then 4
     else 1)"
| "rune_codes _ = 1"

text \<open>Padding with zeros, which continue no rune, lets one equation see the first four bytes.\<close>

definition rune_len :: "string \<Rightarrow> nat" where
  "rune_len s = rune_codes (take 4 (map code_of s @ [0, 0, 0, 0]))"

function rune_count :: "string \<Rightarrow> nat" where
  "rune_count s = (if s = [] then 0 else 1 + rune_count (drop (max 1 (rune_len s)) s))"
  by auto

termination
  by (relation "measure length") auto

declare rune_count.simps [simp del]

text \<open>\<open>%-ns\<close>: padded on the right to \<open>n\<close> runes.\<close>

definition pad_right :: "nat \<Rightarrow> string \<Rightarrow> string" where
  "pad_right n s = s @ replicate (n - rune_count s) (CHR '' '')"

definition dash :: string where "dash = [CHR '' '', CHR 0xE2, CHR 0x80, CHR 0x94, CHR '' '']"

section \<open>Devices and sessions as texts\<close>

definition short :: "string \<Rightarrow> string" where
  "short s = (if length s > 12 then take 12 s else s)"

definition sessionLabel :: "Session \<Rightarrow> string" where
  "sessionLabel s =
    (if SessTitle s \<noteq> '''' then SessTitle s
     else if KeyRoot (SessProject s) \<noteq> '''' then KeyRoot (SessProject s)
     else SessID s)"

definition deviceColor :: "fileRegistry \<Rightarrow> string \<Rightarrow> rgb" where
  "deviceColor reg i =
    (case registry_Get reg i of
       Some h \<Rightarrow> (case parseHexColor (Color h) of Some c \<Rightarrow> c | None \<Rightarrow> autoHostColor i)
     | None \<Rightarrow> autoHostColor i)"

definition deviceName :: "fileRegistry \<Rightarrow> string \<Rightarrow> string" where
  "deviceName reg i =
    (case registry_Get reg i of
       Some h \<Rightarrow> if Name h \<noteq> '''' then Name h else short i
     | None \<Rightarrow> short i)"

section \<open>State\<close>

datatype action =
    DoOpenProject Project | DoJump string | DoDeviceActions string | DoColorChoices string
  | DoRenameDevice string | DoHomeDevice string | DoColor string string

datatype submit = SubmitTitle string | SubmitDeviceName string | SubmitHome string

record entry =
  EntLabel :: string
  EntAction :: action
  Swatch :: "rgb option"

record overlay =
  OvTitle :: string
  OvEntries :: "entry list"
  OvFiltered :: "nat list"
  OvQuery :: string
  OvSel :: int
  OnSubmit :: "submit option"
  Preview :: "Project list option"

definition new_overlay :: "string \<Rightarrow> overlay" where
  "new_overlay title = \<lparr>OvTitle = title, OvEntries = [], OvFiltered = [], OvQuery = '''', OvSel = 0,
     OnSubmit = None, Preview = None\<rparr>"

definition refilter :: "(string \<Rightarrow> string list \<Rightarrow> nat list) \<Rightarrow> overlay \<Rightarrow> overlay" where
  "refilter fz ov =
    (let f = (if OvQuery ov = '''' then [0..<length (OvEntries ov)]
           else fz (OvQuery ov) (map EntLabel (OvEntries ov)));
         s = (if OvSel ov \<ge> int (length f) then int (length f) - 1 else OvSel ov);
         s' = (if s < 0 then 0 else s)
     in ov\<lparr>OvFiltered := f, OvSel := s'\<rparr>)"

definition move :: "int \<Rightarrow> overlay \<Rightarrow> overlay" where
  "move d ov =
    (if OvFiltered ov = [] then ov
     else
       let s = OvSel ov + d; s1 = (if s < 0 then 0 else s);
           s2 = (if s1 \<ge> int (length (OvFiltered ov)) then int (length (OvFiltered ov)) - 1 else s1)
       in ov\<lparr>OvSel := s2\<rparr>)"

text \<open>The two ways \<open>overlayEvent\<close> edits the query.\<close>

definition typed :: "(string \<Rightarrow> string list \<Rightarrow> nat list) \<Rightarrow> int \<Rightarrow> overlay \<Rightarrow> overlay" where
  "typed fz r ov = refilter fz (ov\<lparr>OvQuery := OvQuery ov @ string_of_bytes (utf8_encode r)\<rparr>)"

definition erased :: "(string \<Rightarrow> string list \<Rightarrow> nat list) \<Rightarrow> overlay \<Rightarrow> overlay" where
  "erased fz ov =
    (if OvQuery ov \<noteq> '''' then refilter fz (ov\<lparr>OvQuery := take (length (OvQuery ov) - 1) (OvQuery ov)\<rparr>) else ov)"

text \<open>The entry Enter acts on.\<close>

definition selected :: "overlay \<Rightarrow> entry option" where
  "selected ov =
    (if OvSel ov \<ge> 0 \<and> OvSel ov < int (length (OvFiltered ov))
     then Some (OvEntries ov ! (OvFiltered ov ! nat (OvSel ov))) else None)"

section \<open>The overlays of the program\<close>

definition picker :: "string option \<Rightarrow> Project list \<Rightarrow> overlay" where
  "picker err projs =
    (let title = (case err of
           None \<Rightarrow> ''Projects (all devices)'' @ dash @ ''type to filter, Enter to open, Esc to cancel''
         | Some e \<Rightarrow> ''Projects'' @ dash @ ''error: '' @ e)
     in (new_overlay title)
       \<lparr>OvEntries := map (\<lambda>p. \<lparr>EntLabel = ProjName p, EntAction = DoOpenProject p, Swatch = None\<rparr>) projs,
        Preview := Some projs\<rparr>)"

definition jump_list :: "Session list \<Rightarrow> overlay" where
  "jump_list ss = (new_overlay (''Sessions'' @ dash @ ''Enter to jump, Esc to cancel''))
     \<lparr>OvEntries := map (\<lambda>s. \<lparr>EntLabel = pad_right 12 (short (SessHost s)) @ '' '' @ sessionLabel s,
        EntAction = DoJump (SessID s), Swatch = None\<rparr>) (filter (\<lambda>s. SessState s = StateRunning) ss)\<rparr>"

text \<open>\<open>openRename\<close>, for a viewed session; \<open>found\<close> is its record, if it still has one.\<close>

definition rename_prompt :: "string \<Rightarrow> Session option \<Rightarrow> overlay" where
  "rename_prompt i found = (new_overlay (''Rename session'' @ dash @ ''Enter to save, Esc to cancel''))
     \<lparr>OvQuery := (case found of Some s \<Rightarrow> SessTitle s | None \<Rightarrow> ''''), OnSubmit := Some (SubmitTitle i)\<rparr>"

definition device_list :: "fileRegistry \<Rightarrow> overlay" where
  "device_list reg =
    (let es = map (\<lambda>h. \<lparr>EntLabel = pad_right 16 (deviceName reg (HostID h)) @ '' '' @ Addr h,
           EntAction = DoDeviceActions (HostID h), Swatch = Some (deviceColor reg (HostID h))\<rparr>) (registry_List reg);
         title = (if es = [] then ''Devices'' @ dash @ ''none registered (Esc to cancel)''
           else ''Devices'' @ dash @ ''Enter to manage, Esc to cancel'')
     in (new_overlay title)\<lparr>OvEntries := es\<rparr>)"

definition device_actions :: "fileRegistry \<Rightarrow> string \<Rightarrow> overlay" where
  "device_actions reg i = (new_overlay (deviceName reg i @ dash @ ''Enter to choose, Esc to cancel''))
     \<lparr>OvEntries := [\<lparr>EntLabel = ''Set color'', EntAction = DoColorChoices i, Swatch = Some (deviceColor reg i)\<rparr>,
        \<lparr>EntLabel = ''Rename'', EntAction = DoRenameDevice i, Swatch = None\<rparr>,
        \<lparr>EntLabel = ''Set home dir'', EntAction = DoHomeDevice i, Swatch = None\<rparr>]\<rparr>"

definition device_name_prompt :: "fileRegistry \<Rightarrow> string \<Rightarrow> overlay" where
  "device_name_prompt reg i =
     (new_overlay (''Name for '' @ short i @ dash @ ''Enter to save (empty clears), Esc to cancel''))
     \<lparr>OvQuery := (case registry_Get reg i of Some h \<Rightarrow> Name h | None \<Rightarrow> ''''),
      OnSubmit := Some (SubmitDeviceName i)\<rparr>"

definition home_prompt :: "fileRegistry \<Rightarrow> string \<Rightarrow> overlay" where
  "home_prompt reg i =
     (new_overlay (''Home dir for '' @ short i @ dash @ ''Enter to save, Esc to cancel''))
     \<lparr>OvQuery := (case registry_Get reg i of Some h \<Rightarrow> Root (Home h) | None \<Rightarrow> ''''),
      OnSubmit := Some (SubmitHome i)\<rparr>"

definition color_choices :: "string \<Rightarrow> overlay" where
  "color_choices i =
     (new_overlay (''Color for '' @ short i @ dash @ ''Enter to apply, Esc to cancel''))
     \<lparr>OvEntries := \<lparr>EntLabel = ''Auto (derive from device id)'', EntAction = DoColor i '''', Swatch = None\<rparr> #
        map (\<lambda>(n, c). \<lparr>EntLabel = n, EntAction = DoColor i (hexColor c), Swatch = Some c\<rparr>) hostPalette\<rparr>"

section \<open>Rendering\<close>

text \<open>The rows of the list that fit, each with whether it is the selected one.\<close>

definition visible :: "overlay \<Rightarrow> int \<Rightarrow> (entry \<times> bool) list" where
  "visible ov height =
    (let top = (if OvSel ov \<ge> height then OvSel ov - height + 1 else 0) in
     map (\<lambda>i. (OvEntries ov ! (OvFiltered ov ! nat i), i = OvSel ov))
       [top..min (int (length (OvFiltered ov))) (top + height) - 1])"

definition overlayRow :: "entry \<Rightarrow> Style \<Rightarrow> 'a node" where
  "overlayRow e st =
    (case Swatch e of
       None \<Rightarrow> textRow ('' '' @ EntLabel e) st
     | Some c \<Rightarrow> Box (row_box st) [cell '' '' 1 st, swatchBox c, cell ('' '' @ EntLabel e) 0 st])"

definition overlayList :: "overlay \<Rightarrow> int \<Rightarrow> (extent \<times> extent) option \<Rightarrow> 'a node" where
  "overlayList ov height sz =
    (let (w, h) = (case sz of Some wh \<Rightarrow> wh | None \<Rightarrow> (DefaultSize, DefaultSize));
         b = NewDiv\<lparr>BoxDir := ColumnDir, BoxWidth := w, BoxHeight := h, BoxStyle := ovBgStyle\<rparr>
     in if OvFiltered ov = [] then Box b [textRow ''  (no matches)'' ovBgStyle]
        else Box b (map (\<lambda>(e, sel). overlayRow e (if sel then ovSelStyle else ovItemStyle)) (visible ov height)))"

definition overlayLeftWidth :: "overlay \<Rightarrow> int \<Rightarrow> int" where
  "overlayLeftWidth ov screenW =
    (let w = foldl (\<lambda>w i. let l = int (length (EntLabel (OvEntries ov ! i))) + 2 in if l > w then l else w)
           16 (OvFiltered ov);
         cap = screenW * 40 div 100
     in if w > cap then cap else w)"

definition projectDetail :: "fileRegistry \<Rightarrow> Project \<Rightarrow> 'a node" where
  "projectDetail reg p =
    (let addr = (case registry_Get reg (ProjHost p) of
           Some h \<Rightarrow> (if User h \<noteq> '''' then User h @ ''@'' else '''') @ Addr h
         | None \<Rightarrow> '''')
     in Box (NewDiv\<lparr>BoxDir := ColumnDir, BoxWidth := grow, BoxHeight := grow, BoxStyle := ovBgStyle, PadLeft := px 2\<rparr>)
       ([textRow (ProjName p) ovNameStyle, textRow '''' ovBgStyle,
         machineRow (deviceColor reg (ProjHost p)) (deviceName reg (ProjHost p))] @
        (if addr \<noteq> '''' then [kvRow ''Address'' addr] else []) @
        [kvRow ''Path'' (ProjRoot p)]))"

definition preview_card :: "fileRegistry \<Rightarrow> Project list \<Rightarrow> int \<Rightarrow> 'a node option" where
  "preview_card reg projs i =
    (if i < 0 \<or> i \<ge> int (length projs) then None else Some (projectDetail reg (projs ! nat i)))"

definition overlayBody :: "fileRegistry \<Rightarrow> overlay \<Rightarrow> int \<Rightarrow> int \<Rightarrow> 'a node" where
  "overlayBody reg ov screenW height =
    (case Preview ov of
       None \<Rightarrow> overlayList ov height (Some (grow, grow))
     | Some projs \<Rightarrow>
         let left = overlayList ov height (Some (px (overlayLeftWidth ov screenW), grow));
             card = (if OvSel ov \<ge> 0 \<and> OvSel ov < int (length (OvFiltered ov))
               then preview_card reg projs (int (OvFiltered ov ! nat (OvSel ov))) else None)
         in Box (NewDiv\<lparr>BoxDir := RowDir, BoxWidth := grow, BoxHeight := grow, BoxStyle := ovBgStyle\<rparr>)
              ([left, overlayDivider] @ (case card of Some c \<Rightarrow> [c] | None \<Rightarrow> [])))"

text \<open>The tree that is painted, and where the cursor is parked.\<close>

definition renderOverlay :: "fileRegistry \<Rightarrow> int \<Rightarrow> int \<Rightarrow> overlay \<Rightarrow> 'a node \<times> (int \<times> int)" where
  "renderOverlay reg scrW scrH ov =
    (let w = (if scrW \<le> 0 then 80 else scrW); h = (if scrH \<le> 0 then 24 else scrH);
         body = (if h - 2 < 1 then 1 else h - 2);
         cx = 2 + int (rune_count (OvQuery ov))
     in (Box (NewDiv\<lparr>BoxDir := ColumnDir, BoxStyle := ovBgStyle\<rparr>)
           ([textRow (OvTitle ov) ovTitleStyle, textRow (''> '' @ OvQuery ov) ovBgStyle] @
            (if OnSubmit ov = None then [overlayBody reg ov scrW body] else [])),
         (if cx \<ge> w then w - 1 else cx, 1)))"

section \<open>The selection\<close>

definition ov_ok :: "overlay \<Rightarrow> bool" where
  "ov_ok ov \<longleftrightarrow> (\<forall>i \<in> set (OvFiltered ov). i < length (OvEntries ov)) \<and> 0 \<le> OvSel ov \<and>
     (if OvFiltered ov = [] then OvSel ov = 0 else OvSel ov < int (length (OvFiltered ov)))"

text \<open>What the matcher documents: its results index the texts it was given.\<close>

definition fuzzy_ok :: "(string \<Rightarrow> string list \<Rightarrow> nat list) \<Rightarrow> bool" where
  "fuzzy_ok fz \<longleftrightarrow> (\<forall>q ls. \<forall>i \<in> set (fz q ls). i < length ls)"

datatype ov_input = Typed int | Erased | Moved int

fun ov_apply :: "(string \<Rightarrow> string list \<Rightarrow> nat list) \<Rightarrow> ov_input \<Rightarrow> overlay \<Rightarrow> overlay" where
  "ov_apply fz (Typed r) ov = typed fz r ov"
| "ov_apply fz Erased ov = erased fz ov"
| "ov_apply fz (Moved d) ov = move d ov"

definition ov_run :: "(string \<Rightarrow> string list \<Rightarrow> nat list) \<Rightarrow> ov_input list \<Rightarrow> overlay \<Rightarrow> overlay" where
  "ov_run fz ins ov = foldl (\<lambda>ov a. ov_apply fz a ov) (refilter fz ov) ins"

lemma refilter_ok: "fuzzy_ok fz \<Longrightarrow> ov_ok (refilter fz ov)"
proof -
  assume fz: "fuzzy_ok fz"
  have "\<forall>i \<in> set (OvFiltered (refilter fz ov)). i < length (OvEntries ov)"
    using fz by (auto simp: refilter_def Let_def fuzzy_ok_def) (metis length_map)
  then show ?thesis
    by (auto simp: ov_ok_def) (simp_all add: refilter_def Let_def split: if_splits)
qed

lemma refilter_entries [simp]: "OvEntries (refilter fz ov) = OvEntries ov" "OvQuery (refilter fz ov) = OvQuery ov"
  by (simp_all add: refilter_def Let_def)

lemma ov_apply_ok: "fuzzy_ok fz \<Longrightarrow> ov_ok ov \<Longrightarrow> ov_ok (ov_apply fz a ov)"
  by (cases a) (auto simp: typed_def erased_def move_def refilter_ok Let_def, auto simp: ov_ok_def)

lemma ov_apply_entries [simp]: "OvEntries (ov_apply fz a ov) = OvEntries ov"
  by (cases a) (simp_all add: typed_def erased_def move_def Let_def)

lemma ov_run_ok: "fuzzy_ok fz \<Longrightarrow> ov_ok (ov_run fz ins ov) \<and> OvEntries (ov_run fz ins ov) = OvEntries ov"
proof (induction ins rule: rev_induct)
  case Nil
  then show ?case by (simp add: ov_run_def refilter_ok)
next
  case (snoc a ins)
  then show ?case using ov_apply_ok [of fz "ov_run fz ins ov" a] by (simp add: ov_run_def)
qed

lemma filter_upto_one: "a \<le> k \<Longrightarrow> k \<le> b \<Longrightarrow> filter (\<lambda>i. i = k) [a..b] = [k]" for a b k :: int
proof -
  assume "a \<le> k" "k \<le> b"
  then have "[a..b] = [a..k - 1] @ k # [k + 1..b]" by (rule upto_split3)
  moreover have "filter (\<lambda>i. i = k) [a..k - 1] = []" "filter (\<lambda>i. i = k) [k + 1..b] = []"
    by (simp_all add: filter_empty_conv)
  ultimately show ?thesis by simp
qed

lemma visible_selected:
  assumes "ov_ok ov" "1 \<le> height" "selected ov = Some e"
  shows "filter snd (visible ov height) = [(e, True)]"
proof -
  let ?top = "if OvSel ov \<ge> height then OvSel ov - height + 1 else 0"
  have "?top \<le> OvSel ov" "OvSel ov \<le> min (int (length (OvFiltered ov))) (?top + height) - 1"
    using assms by (auto simp: ov_ok_def selected_def split: if_splits)
  then have "filter (\<lambda>i. i = OvSel ov) [?top..min (int (length (OvFiltered ov))) (?top + height) - 1] = [OvSel ov]"
    by (rule filter_upto_one)
  then show ?thesis
    using assms(3) by (auto simp: visible_def Let_def filter_map comp_def selected_def split: if_splits)
qed

lemma visible_length: "0 \<le> height \<Longrightarrow> length (visible ov height) \<le> nat height"
  by (auto simp: visible_def Let_def)

lemma selected_none: "ov_ok ov \<Longrightarrow> selected ov = None \<longleftrightarrow> OvFiltered ov = []"
  by (auto simp: ov_ok_def selected_def split: if_splits)

lemma selected_in: "ov_ok ov \<Longrightarrow> selected ov = Some e \<Longrightarrow> e \<in> set (OvEntries ov)"
  by (auto simp: ov_ok_def selected_def split: if_splits)

lemma visible_in: "ov_ok ov \<Longrightarrow> fst ` set (visible ov height) \<subseteq> set (OvEntries ov)"
proof -
  assume ok: "ov_ok ov"
  have "OvEntries ov ! (OvFiltered ov ! nat i) \<in> set (OvEntries ov)"
    if "0 \<le> i" "i < int (length (OvFiltered ov))" for i
  proof -
    have "OvFiltered ov ! nat i \<in> set (OvFiltered ov)" using that by simp
    then show ?thesis using ok by (simp add: ov_ok_def)
  qed
  then show ?thesis using ok by (auto simp: visible_def Let_def ov_ok_def split: if_splits)
qed

section \<open>Properties\<close>

text \<open>C30: the selection of an overlay.  After any typing, erasing and moving, what is highlighted is
  what Enter acts on: a selected entry is one of the overlay's entries and its row, the only
  highlighted one, is among the rows on screen however the list is scrolled; nothing is selected
  only if nothing matches; at most as many rows as fit are drawn, all of them entries; and an
  empty query matches every entry, in order.\<close>

theorem overlay_selection:
  assumes "fuzzy_ok fz" and "1 \<le> height" and ov: "ov = ov_run fz ins ov0"
  shows "(case selected ov of
       None \<Rightarrow> OvFiltered ov = []
     | Some e \<Rightarrow> e \<in> set (OvEntries ov0) \<and> filter snd (visible ov height) = [(e, True)]) \<and>
    length (visible ov height) \<le> nat height \<and> fst ` set (visible ov height) \<subseteq> set (OvEntries ov0) \<and>
    (OvQuery ov = '''' \<longrightarrow> OvFiltered (refilter fz ov) = [0..<length (OvEntries ov0)])"
proof -
  have ok: "ov_ok ov" "OvEntries ov = OvEntries ov0" using ov_run_ok [OF assms(1)] by (simp_all add: ov)
  then show ?thesis
    using visible_selected [OF ok(1) assms(2)] selected_none [OF ok(1)] selected_in [OF ok(1)]
      visible_in [OF ok(1), of height] visible_length [of height ov] assms(2)
    by (auto simp: refilter_def Let_def split: option.split)
qed

definition demo_overlay :: overlay where
  "demo_overlay = color_choices ''h''"

theorem overlay_selection_witness:
  "map_option EntLabel (selected (ov_run (\<lambda>_ _. []) [Moved 1, Moved 1] demo_overlay)) = Some ''green'' \<and>
   length (visible (ov_run (\<lambda>_ _. []) [Moved 1, Moved 1] demo_overlay) 3) \<le> 3"
proof -
  have "fuzzy_ok (\<lambda>_ _. [])" by (simp add: fuzzy_ok_def)
  from overlay_selection [OF this, of 3 _ "[Moved 1, Moved 1]" demo_overlay, OF _ refl]
  have "length (visible (ov_run (\<lambda>_ _. []) [Moved 1, Moved 1] demo_overlay) 3) \<le> 3" by simp
  moreover have "map_option EntLabel (selected (ov_run (\<lambda>_ _. []) [Moved 1, Moved 1] demo_overlay)) = Some ''green''"
    by code_simp
  ultimately show ?thesis by simp
qed

text \<open>Backspace erases a byte, not a character.  It undoes the last typed character exactly when that
  is ASCII; after any other it leaves the first bytes of the character in the query.\<close>

theorem backspace_erases_a_byte:
  "OvQuery (erased fz (typed fz r ov)) = OvQuery ov \<longleftrightarrow> 0 \<le> r \<and> r < 128"
proof -
  have "OvQuery (erased fz (typed fz r ov)) = OvQuery ov @ string_of_bytes (butlast (utf8_encode r))"
    using utf8_encode_length [of r]
    by (auto simp: erased_def typed_def string_of_bytes_def butlast_conv_take map_butlast take_map)
  moreover have "butlast (utf8_encode r) = [] \<longleftrightarrow> 0 \<le> r \<and> r < 128"
    by (auto simp: utf8_encode_def Let_def)
  ultimately show ?thesis by (simp add: string_of_bytes_def)
qed

end
