(* ===== verification/Tui.thy ===== *)
theory Tui
  imports Server Overlay
begin

text \<open>
  \<open>internal/tui/tui.go\<close>, \<open>internal/tui/render.go\<close> and the actions of \<open>overlay.go\<close>: one attached
  interface.

  The state of a connection is the record \<open>connUI\<close>; every operation works on the pair of the
  server and the connection, \<open>('t, 'u) world\<close>.  The controller is the server of \<open>server.go\<close>, as
  \<open>cmd/dmux\<close> wires it.  Libraries are in the environment \<open>tui_env\<close>: the terminal emulator, the
  buttons, the fuzzy matcher and the layout engine, which places the pane beside a sidebar of a
  given width; with them the SSH side, the clock and the random ID of the moment.  Painting
  (\<open>screen\<close>, the escape sequences of \<open>enterTerm\<close> and \<open>exitTerm\<close>) has no effect on this state.
\<close>

section \<open>State\<close>

datatype mode = modeStream | modePrefix | modeOverlay

record ('t, 'u) connUI =
  u_id :: string
  u_mode :: mode
  u_viewing :: string
  u_sub :: "subscription option"
  u_size :: Size
  u_overlay :: "overlay option"
  u_pane :: "'t pane"
  u_bar :: "'u sidebar"
  u_scr :: "int \<times> int"
  u_redraw :: bool

type_synonym ('t, 'u) world = "Server \<times> ('t, 'u) connUI"

record ('t, 'u) tui_env =
  e_open :: "Host \<Rightarrow> OpenSpec \<Rightarrow> remote_error + sshPTY"
  e_newID :: string
  e_now :: int
  e_index :: "Host \<Rightarrow> index_error + Project list"
  e_order :: "nat list"
  e_fuzzy :: "string \<Rightarrow> string list \<Rightarrow> nat list"
  e_term :: "'t term_lib"
  e_btn :: "'u button_lib"
  e_layout :: "int \<Rightarrow> int \<times> int \<Rightarrow> int \<times> int \<times> int \<times> int"
  e_prefix :: byte

section \<open>Looking things up\<close>

definition firstRunning :: "Server \<Rightarrow> string option" where
  "firstRunning srv =
     map_option SessID (find (\<lambda>s. SessState s = StateRunning) (manager_List (srv_sessions srv)))"

definition firstUpHost :: "Server \<Rightarrow> Host option" where
  "firstUpHost srv = find (\<lambda>h. HostStatus h \<noteq> StatusDown) (registry_List (srv_hosts srv))"

definition paneSizeForWindow :: "Size \<Rightarrow> int \<Rightarrow> Size" where
  "paneSizeForWindow sz sidebarCols =
    (let cols = uint (Cols sz) - sidebarCols; cols' = (if cols < 1 then 1 else cols)
     in \<lparr>Rows = Rows sz, Cols = of_int cols'\<rparr>)"

definition expectedPaneSize :: "('t, 'u) connUI \<Rightarrow> Size" where
  "expectedPaneSize u = paneSizeForWindow (u_size u) (width (u_bar u))"

section \<open>Sizes and subscriptions\<close>

definition signalRedraw :: "('t, 'u) world \<Rightarrow> ('t, 'u) world" where
  "signalRedraw w = (case w of (srv, u) \<Rightarrow> (srv, u\<lparr>u_redraw := True\<rparr>))"

definition resizeSessionToNegotiated :: "string \<Rightarrow> Server \<Rightarrow> Server" where
  "resizeSessionToNegotiated i srv =
    (case NegotiatedSize (srv_clients srv) i (CfgResizePolicy (srv_cfg srv)) of
       Some sz \<Rightarrow> srv\<lparr>srv_sessions := snd (manager_Resize (srv_sessions srv) i sz)\<rparr>
     | None \<Rightarrow> srv)"

definition onPaneResize :: "int \<Rightarrow> int \<Rightarrow> ('t, 'u) world \<Rightarrow> ('t, 'u) world" where
  "onPaneResize cols rows w =
    (case w of (srv, u) \<Rightarrow>
       if cols \<le> 0 \<or> rows \<le> 0 then (srv, u)
       else
         let srv1 = srv\<lparr>srv_clients := snd (SetSize (srv_clients srv) (u_id u)
               \<lparr>Rows = of_int rows, Cols = of_int cols\<rparr>)\<rparr>
         in (if u_viewing u \<noteq> '''' then resizeSessionToNegotiated (u_viewing u) srv1 else srv1, u))"

definition setClientViewing :: "string \<Rightarrow> ('t, 'u) world \<Rightarrow> ('t, 'u) world" where
  "setClientViewing i w =
    (case w of (srv, u) \<Rightarrow>
       let old = (case attach_Get (srv_clients srv) (u_id u) of Some c \<Rightarrow> Viewing c | None \<Rightarrow> '''');
           srv1 = srv\<lparr>srv_clients := snd (SetViewing (srv_clients srv) (u_id u) i)\<rparr>
       in (if old \<noteq> '''' \<and> old \<noteq> i then resizeSessionToNegotiated old srv1 else srv1, u))"

text \<open>The function \<open>Subscribe\<close> returned: it does nothing for a session that was gone, and
  otherwise is the atomic step that removes and closes the channel.\<close>

definition run_cancel :: "subscription \<Rightarrow> manager \<Rightarrow> manager" where
  "run_cancel sub m =
    (case sub of
       Gone _ \<Rightarrow> m
     | Live p n \<Rightarrow> (case sm_step (OnLive p (LCancel n)) m of Next m' \<Rightarrow> m' | _ \<Rightarrow> m))"

definition stopSub :: "('t, 'u) world \<Rightarrow> ('t, 'u) world" where
  "stopSub w =
    (case w of (srv, u) \<Rightarrow>
       (case u_sub u of
          None \<Rightarrow> (srv, u)
        | Some sub \<Rightarrow> (srv\<lparr>srv_sessions := run_cancel sub (srv_sessions srv)\<rparr>, u\<lparr>u_sub := None\<rparr>)))"

definition on_pane :: "('t pane \<Rightarrow> 't pane) \<Rightarrow> ('t, 'u) world \<Rightarrow> ('t, 'u) world" where
  "on_pane f w = (case w of (srv, u) \<Rightarrow> (srv, u\<lparr>u_pane := f (u_pane u)\<rparr>))"

text \<open>\<open>switchView\<close>, up to the start of \<open>streamPump\<close>, whose turns are \<open>stream_event\<close>.\<close>

definition subscribe_view :: "string \<Rightarrow> ('t, 'u) world \<Rightarrow> ('t, 'u) world" where
  "subscribe_view i w =
    (case w of (srv, u) \<Rightarrow>
       (case manager_Subscribe (srv_sessions srv) i of
          (sub, m) \<Rightarrow> (srv\<lparr>srv_sessions := m\<rparr>, u\<lparr>u_viewing := i, u_sub := Some sub, u_mode := modeStream\<rparr>)))"

definition report_size :: "('t, 'u) world \<Rightarrow> ('t, 'u) world" where
  "report_size w =
    (case pane_size (u_pane (snd w)) of (pw, ph) \<Rightarrow>
       if pw > 0 \<and> ph > 0 then onPaneResize pw ph w else w)"

definition replay :: "('t, 'u) tui_env \<Rightarrow> string \<Rightarrow> ('t, 'u) world \<Rightarrow> ('t, 'u) world" where
  "replay env i w =
    (case manager_Scrollback (srv_sessions (fst w)) i of
       Some bs \<Rightarrow> on_pane (feed (e_term env) bs) w
     | None \<Rightarrow> w)"

definition switchView :: "('t, 'u) tui_env \<Rightarrow> string \<Rightarrow> ('t, 'u) world \<Rightarrow> ('t, 'u) world" where
  "switchView env i w =
     signalRedraw (replay env i (report_size (on_pane (reset (e_term env))
       (setClientViewing i (subscribe_view i (stopSub w))))))"

section \<open>Following the sessions\<close>

definition onViewStopped :: "('t, 'u) tui_env \<Rightarrow> ('t, 'u) world \<Rightarrow> ('t, 'u) world" where
  "onViewStopped env w =
    (case w of (srv, u) \<Rightarrow>
       let viewing = (case attach_Get (srv_clients srv) (u_id u) of Some c \<Rightarrow> Viewing c | None \<Rightarrow> '''')
       in if viewing \<noteq> '''' \<and> viewing \<noteq> u_viewing u then switchView env viewing w
          else case firstRunning srv of
            Some i \<Rightarrow> switchView env i w
          | None \<Rightarrow> signalRedraw (srv, u\<lparr>u_viewing := ''''\<rparr>))"

text \<open>One turn of \<open>streamPump\<close>.\<close>

definition stream_event :: "('t, 'u) tui_env \<Rightarrow> SessionEvent \<Rightarrow> ('t, 'u) world \<Rightarrow> ('t, 'u) world" where
  "stream_event env ev w =
    (if EvStopped ev then onViewStopped env w
     else if EvData ev \<noteq> [] then signalRedraw (on_pane (feed (e_term env) (EvData ev)) w)
     else w)"

section \<open>Calls to the server\<close>

definition open_project :: "('t, 'u) tui_env \<Rightarrow> Project \<Rightarrow> ('t, 'u) world \<Rightarrow> ('t, 'u) world" where
  "open_project env p w =
    (case w of (srv, u) \<Rightarrow>
       (case OpenProject (e_open env) (e_newID env) (e_now env) srv (u_id u) p of
          ((None, i), srv1) \<Rightarrow> switchView env i (srv1, u)
        | ((Some _, _), srv1) \<Rightarrow> (srv1, u)))"

definition selectSession :: "('t, 'u) tui_env \<Rightarrow> string \<Rightarrow> ('t, 'u) world \<Rightarrow> ('t, 'u) world" where
  "selectSession env i w =
    (case w of (srv, u) \<Rightarrow>
       (case Jump srv (u_id u) i of
          (None, srv1) \<Rightarrow> switchView env i (srv1, u)
        | (Some _, srv1) \<Rightarrow> (srv1, u)))"

definition autoAttach :: "('t, 'u) tui_env \<Rightarrow> ('t, 'u) world \<Rightarrow> ('t, 'u) world" where
  "autoAttach env w =
    (case firstRunning (fst w) of
       Some i \<Rightarrow> switchView env i w
     | None \<Rightarrow> (case firstUpHost (fst w) of
         Some h \<Rightarrow> open_project env \<lparr>ProjHost = HostID h, ProjRoot = '''', ProjName = Addr h\<rparr> w
       | None \<Rightarrow> w))"

definition on_registry :: "(fileRegistry \<Rightarrow> disk \<Rightarrow> reg_result) \<Rightarrow> ('t, 'u) world \<Rightarrow> ('t, 'u) world" where
  "on_registry f w =
    (case w of (srv, u) \<Rightarrow>
       (case f (srv_hosts srv) (srv_disk srv) of (_, r, fs) \<Rightarrow> (srv\<lparr>srv_hosts := r, srv_disk := fs\<rparr>, u)))"

section \<open>Overlays\<close>

definition startOverlay :: "('t, 'u) tui_env \<Rightarrow> overlay \<Rightarrow> ('t, 'u) world \<Rightarrow> ('t, 'u) world" where
  "startOverlay env ov w =
    (case w of (srv, u) \<Rightarrow> (srv, u\<lparr>u_overlay := Some (refilter (e_fuzzy env) ov), u_mode := modeOverlay\<rparr>))"

definition forceFullRepaint :: "('t, 'u) world \<Rightarrow> ('t, 'u) world" where
  "forceFullRepaint w = signalRedraw w"

definition closeOverlay :: "('t, 'u) world \<Rightarrow> ('t, 'u) world" where
  "closeOverlay w =
    (case w of (srv, u) \<Rightarrow> forceFullRepaint (srv, u\<lparr>u_overlay := None, u_mode := modeStream\<rparr>))"

definition openPicker :: "('t, 'u) tui_env \<Rightarrow> ('t, 'u) world \<Rightarrow> ('t, 'u) world" where
  "openPicker env w = startOverlay env (picker None (Projects (e_index env) (e_order env) (fst w))) w"

definition openList :: "('t, 'u) tui_env \<Rightarrow> ('t, 'u) world \<Rightarrow> ('t, 'u) world" where
  "openList env w = startOverlay env (jump_list (manager_List (srv_sessions (fst w)))) w"

definition openRename :: "('t, 'u) tui_env \<Rightarrow> ('t, 'u) world \<Rightarrow> ('t, 'u) world" where
  "openRename env w =
    (let i = u_viewing (snd w) in
     if i = '''' then w
     else startOverlay env (rename_prompt i (manager_Get (srv_sessions (fst w)) i)) w)"

definition openDevices :: "('t, 'u) tui_env \<Rightarrow> ('t, 'u) world \<Rightarrow> ('t, 'u) world" where
  "openDevices env w = startOverlay env (device_list (srv_hosts (fst w))) w"

definition applyDeviceColor :: "string \<Rightarrow> string \<Rightarrow> ('t, 'u) world \<Rightarrow> ('t, 'u) world" where
  "applyDeviceColor i c w = signalRedraw (on_registry (\<lambda>r. SetColor r i c) w)"

definition run_action :: "('t, 'u) tui_env \<Rightarrow> action \<Rightarrow> ('t, 'u) world \<Rightarrow> ('t, 'u) world" where
  "run_action env act w =
    (case act of
       DoOpenProject p \<Rightarrow> open_project env p w
     | DoJump i \<Rightarrow> selectSession env i w
     | DoDeviceActions i \<Rightarrow> startOverlay env (device_actions (srv_hosts (fst w)) i) w
     | DoColorChoices i \<Rightarrow> startOverlay env (color_choices i) w
     | DoRenameDevice i \<Rightarrow> startOverlay env (device_name_prompt (srv_hosts (fst w)) i) w
     | DoHomeDevice i \<Rightarrow> startOverlay env (home_prompt (srv_hosts (fst w)) i) w
     | DoColor i c \<Rightarrow> applyDeviceColor i c w)"

definition run_submit :: "submit \<Rightarrow> string \<Rightarrow> ('t, 'u) world \<Rightarrow> ('t, 'u) world" where
  "run_submit sub q w =
    (case sub of
       SubmitTitle i \<Rightarrow> (case w of (srv, u) \<Rightarrow>
         signalRedraw (srv\<lparr>srv_sessions := snd (manager_Rename (srv_sessions srv) i (trim_space q))\<rparr>, u))
     | SubmitDeviceName i \<Rightarrow> signalRedraw (on_registry (\<lambda>r. SetName r i (trim_space q)) w)
     | SubmitHome i \<Rightarrow>
         (let depth = (case registry_Get (srv_hosts (fst w)) i of Some h \<Rightarrow> ScanDepth (Home h) | None \<Rightarrow> 0)
          in signalRedraw (on_registry (\<lambda>r. SetHome r i \<lparr>Root = trim_space q, ScanDepth = depth\<rparr>) w)))"

definition selectOverlay :: "('t, 'u) tui_env \<Rightarrow> ('t, 'u) world \<Rightarrow> ('t, 'u) world" where
  "selectOverlay env w =
    (case u_overlay (snd w) of
       None \<Rightarrow> w
     | Some ov \<Rightarrow>
        (case OnSubmit ov of
           Some sub \<Rightarrow> run_submit sub (OvQuery ov) (closeOverlay w)
         | None \<Rightarrow>
            (case selected ov of
               None \<Rightarrow> closeOverlay w
             | Some e \<Rightarrow> run_action env (EntAction e) (closeOverlay w))))"

section \<open>Input\<close>

definition encode :: "keyEvent \<Rightarrow> byte list" where
  "encode ev =
    (case KType ev of
       KeyRune \<Rightarrow> if Ctrl ev then [of_int (Ch ev) - 0x40] else utf8_encode (Ch ev)
     | KeyEnter \<Rightarrow> [13]
     | KeyBackspace \<Rightarrow> [127]
     | KeyTab \<Rightarrow> [9]
     | KeyEscape \<Rightarrow> [0x1B]
     | KeyCtrlC \<Rightarrow> [3]
     | KeyArrowUp \<Rightarrow> bytes_of (ESC # ''[A'')
     | KeyArrowDown \<Rightarrow> bytes_of (ESC # ''[B'')
     | KeyArrowRight \<Rightarrow> bytes_of (ESC # ''[C'')
     | KeyArrowLeft \<Rightarrow> bytes_of (ESC # ''[D'')
     | KeyHome \<Rightarrow> bytes_of (ESC # ''[H'')
     | KeyEnd \<Rightarrow> bytes_of (ESC # ''[F'')
     | KeyPageUp \<Rightarrow> bytes_of (ESC # ''[5~'')
     | KeyPageDown \<Rightarrow> bytes_of (ESC # ''[6~'')
     | KeyDelete \<Rightarrow> bytes_of (ESC # ''[3~'')
     | KeyPaste \<Rightarrow> bytes_of (PasteText ev)
     | _ \<Rightarrow> [])"

definition set_mode :: "mode \<Rightarrow> ('t, 'u) world \<Rightarrow> ('t, 'u) world" where
  "set_mode m w = (case w of (srv, u) \<Rightarrow> (srv, u\<lparr>u_mode := m\<rparr>))"

definition write_view :: "byte list \<Rightarrow> ('t, 'u) world \<Rightarrow> ('t, 'u) world" where
  "write_view bs w =
    (case w of (srv, u) \<Rightarrow>
       if u_viewing u \<noteq> '''' then (srv\<lparr>srv_sessions := snd (manager_Write (srv_sessions srv) (u_viewing u) bs)\<rparr>, u)
       else (srv, u))"

definition toggleSidebar :: "('t, 'u) world \<Rightarrow> ('t, 'u) world" where
  "toggleSidebar w = (case w of (srv, u) \<Rightarrow> forceFullRepaint (srv, u\<lparr>u_bar := toggle (u_bar u)\<rparr>))"

definition run_click :: "('t, 'u) tui_env \<Rightarrow> click \<Rightarrow> ('t, 'u) world \<Rightarrow> ('t, 'u) world" where
  "run_click env c w = (case c of ClickCollapse \<Rightarrow> toggleSidebar w | ClickSession i \<Rightarrow> selectSession env i w)"

definition streamEvent :: "('t, 'u) tui_env \<Rightarrow> keyEvent \<Rightarrow> ('t, 'u) world \<Rightarrow> bool \<times> ('t, 'u) world" where
  "streamEvent env ev w =
    (if Mouse ev then
       (case routeMouse (e_btn env) ev (u_bar (snd w)) of
          (consumed, clicks, bar) \<Rightarrow>
            let w1 = foldl (\<lambda>w c. run_click env c w) (fst w, (snd w)\<lparr>u_bar := bar\<rparr>) clicks
            in (False, if consumed then signalRedraw w1 else w1))
     else if encode ev = [e_prefix env] then (False, set_mode modePrefix w)
     else if encode ev \<noteq> [] then (False, write_view (encode ev) w)
     else (False, w))"

definition key_in :: "keyEvent \<Rightarrow> string \<Rightarrow> bool" where
  "key_in ev cs \<longleftrightarrow> (\<exists>c \<in> set cs. Ch ev = int (code_of c))"

definition prefixEvent :: "('t, 'u) tui_env \<Rightarrow> keyEvent \<Rightarrow> ('t, 'u) world \<Rightarrow> bool \<times> ('t, 'u) world" where
  "prefixEvent env ev w =
    (if encode ev = [e_prefix env] then (False, write_view (encode ev) (set_mode modeStream w))
     else
       let w1 = set_mode modeStream w in
       if key_in ev ''pP'' then (False, openPicker env w1)
       else if key_in ev ''lLsS'' then (False, openList env w1)
       else if key_in ev ''rR'' then (False, openRename env w1)
       else if key_in ev ''kK'' then (False, openDevices env w1)
       else if key_in ev ''cC'' then (False, toggleSidebar w1)
       else (key_in ev ''dD'', w1))"

definition edit_overlay :: "(overlay \<Rightarrow> overlay) \<Rightarrow> ('t, 'u) world \<Rightarrow> ('t, 'u) world" where
  "edit_overlay f w = (case w of (srv, u) \<Rightarrow> (srv, u\<lparr>u_overlay := map_option f (u_overlay u)\<rparr>))"

definition overlayEvent :: "('t, 'u) tui_env \<Rightarrow> keyEvent \<Rightarrow> ('t, 'u) world \<Rightarrow> ('t, 'u) world" where
  "overlayEvent env ev w =
    (case u_overlay (snd w) of
       None \<Rightarrow> set_mode modeStream w
     | Some ov \<Rightarrow>
        (case KType ev of
           KeyEscape \<Rightarrow> closeOverlay w
         | KeyEnter \<Rightarrow> selectOverlay env w
         | KeyArrowUp \<Rightarrow> edit_overlay (move (-1)) w
         | KeyArrowDown \<Rightarrow> edit_overlay (move 1) w
         | KeyBackspace \<Rightarrow> edit_overlay (erased (e_fuzzy env)) w
         | KeyRune \<Rightarrow> if \<not> Ctrl ev \<and> Ch ev \<ge> 0x20 then edit_overlay (typed (e_fuzzy env) (Ch ev)) w else w
         | _ \<Rightarrow> w))"

definition handleEvent :: "('t, 'u) tui_env \<Rightarrow> keyEvent \<Rightarrow> ('t, 'u) world \<Rightarrow> bool \<times> ('t, 'u) world" where
  "handleEvent env ev w =
    (case u_mode (snd w) of
       modeOverlay \<Rightarrow> (False, overlayEvent env ev w)
     | modePrefix \<Rightarrow> prefixEvent env ev w
     | modeStream \<Rightarrow> streamEvent env ev w)"

section \<open>Painting and resizing\<close>

definition layout_pane :: "('t, 'u) tui_env \<Rightarrow> int \<times> int \<times> int \<times> int \<Rightarrow> ('t, 'u) world \<Rightarrow> ('t, 'u) world" where
  "layout_pane env r w =
    (case (w, r) of ((srv, u), (x, y, pw, ph)) \<Rightarrow>
       (case pane_Layout (e_term env) x y pw ph (u_pane u) of
          (p, Some (cols, rows)) \<Rightarrow> onPaneResize cols rows (srv, u\<lparr>u_pane := p\<rparr>)
        | (p, None) \<Rightarrow> (srv, u\<lparr>u_pane := p\<rparr>)))"

text \<open>While an overlay owns the screen nothing but the screen changes.\<close>

definition render :: "('t, 'u) tui_env \<Rightarrow> ('t, 'u) world \<Rightarrow> ('t, 'u) world" where
  "render env w =
    (case w of (srv, u) \<Rightarrow>
       if u_mode u = modeOverlay then w
       else
         let bar = rebuild (e_btn env) (deviceColor (srv_hosts srv)) (Some (deviceName (srv_hosts srv)))
               (manager_List (srv_sessions srv)) (u_viewing u) (u_bar u);
             w1 = layout_pane env (e_layout env (BarWidth bar) (u_scr u)) (srv, u\<lparr>u_bar := bar\<rparr>)
         in on_pane (\<lambda>p. snd (Render (e_term env) p)) w1)"

definition handleResize :: "Size \<Rightarrow> ('t, 'u) world \<Rightarrow> ('t, 'u) world" where
  "handleResize sz w =
    (case w of (srv, u) \<Rightarrow>
       if Rows sz = 0 \<or> Cols sz = 0 then w
       else (srv, u\<lparr>u_size := sz, u_scr := (uint (Cols sz), uint (Rows sz))\<rparr>))"

section \<open>A connection\<close>

definition buildTree :: "('t, 'u) tui_env \<Rightarrow> ('t, 'u) world \<Rightarrow> ('t, 'u) world" where
  "buildTree env w =
    (let sz = expectedPaneSize (snd w) in
     if Rows sz > 0 \<and> Cols sz > 0 then layout_pane env (0, 0, uint (Cols sz), uint (Rows sz)) w else w)"

text \<open>The interface as \<open>Handle\<close> and \<open>buildTree\<close> create it.\<close>

definition new_ui :: "('t, 'u) tui_env \<Rightarrow> string \<Rightarrow> Size \<Rightarrow> ('t, 'u) connUI" where
  "new_ui env i sz = \<lparr>u_id = i, u_mode = modeStream, u_viewing = '''', u_sub = None, u_size = sz,
     u_overlay = None, u_pane = newPane (e_term env), u_bar = newSidebar (e_btn env),
     u_scr = (uint (Cols sz), uint (Rows sz)), u_redraw = False\<rparr>"

text \<open>
  What the connection's goroutines see, in the order they handle it: a key, a new window size, a
  request to repaint, an event of the subscription, and a step of the sessions behind it.
\<close>

datatype ui_event = UiKey keyEvent | UiResize Size | UiRedraw | UiStream SessionEvent | UiSession sm_action

text \<open>Steps of a session that are not the calls of an interface.\<close>

fun background :: "sm_action \<Rightarrow> bool" where
  "background (OnLive p a) = (case a of LSubscribe \<Rightarrow> False | LCancel _ \<Rightarrow> False | LSize _ \<Rightarrow> False
     | LTitle _ \<Rightarrow> False | LRecv _ \<Rightarrow> True | _ \<Rightarrow> True)"
| "background (Unregister p) = True"
| "background (Register _ _ _ _ _) = False"
| "background (HookSet _) = False"

definition session_step :: "sm_action \<Rightarrow> ('t, 'u) world \<Rightarrow> ('t, 'u) world" where
  "session_step a w =
    (case w of (srv, u) \<Rightarrow>
       (if background a then (case sm_step a (srv_sessions srv) of
          Next m \<Rightarrow> (srv\<lparr>srv_sessions := m\<rparr>, u) | _ \<Rightarrow> w) else w))"

fun ui_step :: "('t, 'u) tui_env \<Rightarrow> ui_event \<Rightarrow> ('t, 'u) world \<Rightarrow> bool \<times> ('t, 'u) world" where
  "ui_step env (UiKey ev) w = (case handleEvent env ev w of (quit, w1) \<Rightarrow> (quit, if quit then w1 else render env w1))"
| "ui_step env (UiResize sz) w = (False, render env (handleResize sz w))"
| "ui_step env UiRedraw w = (case w of (srv, u) \<Rightarrow> (False, render env (srv, u\<lparr>u_redraw := False\<rparr>)))"
| "ui_step env (UiStream ev) w = (False, stream_event env ev w)"
| "ui_step env (UiSession a) w = (False, session_step a w)"

fun ui_loop :: "(('t, 'u) tui_env \<times> ui_event) list \<Rightarrow> ('t, 'u) world \<Rightarrow> ('t, 'u) world" where
  "ui_loop [] w = w"
| "ui_loop ((env, ev) # es) w = (case ui_step env ev w of (quit, w1) \<Rightarrow> if quit then w1 else ui_loop es w1)"

text \<open>Until the first paint, and the deferred calls.\<close>

definition ui_start :: "('t, 'u) tui_env \<Rightarrow> string \<Rightarrow> Size \<Rightarrow> Server \<Rightarrow> ('t, 'u) world" where
  "ui_start env i sz srv = render env (autoAttach env (buildTree env (srv, new_ui env i sz)))"

definition ui_end :: "('t, 'u) world \<Rightarrow> Server" where
  "ui_end w =
    (case stopSub w of (srv, u) \<Rightarrow> srv\<lparr>srv_clients := snd (attach_Detach (srv_clients srv) (u_id u))\<rparr>)"

text \<open>\<open>first\<close> is the size that was waiting in \<open>Resizes\<close>, if any.\<close>

definition Handle ::
  "('t, 'u) tui_env \<Rightarrow> string \<Rightarrow> string \<Rightarrow> Size option \<Rightarrow> (('t, 'u) tui_env \<times> ui_event) list \<Rightarrow> Server
     \<Rightarrow> bool \<times> Server" where
  "Handle env i iface first evs srv =
    (let sz = (case first of Some s \<Rightarrow> if Rows s > 0 then s else \<lparr>Rows = 24, Cols = 80\<rparr>
           | None \<Rightarrow> \<lparr>Rows = 24, Cols = 80\<rparr>)
     in case attach_Attach (srv_clients srv) \<lparr>ClientID = i, Interface = iface, Viewing = '''',
            ClientSize = paneSizeForWindow sz sidebarWidth\<rparr> of
          (Some _, _) \<Rightarrow> (False, srv)
        | (None, a) \<Rightarrow> (True, ui_end (ui_loop evs (ui_start env i sz (srv\<lparr>srv_clients := a\<rparr>)))))"

end
