(* ===== verification/TuiKeys.thy ===== *)
theory TuiKeys
  imports Tui
begin

text \<open>
  What the keys of an attached interface do: the prefix key and the three modes implement a
  transducer from key events to the bytes the viewed session receives, no other session sees any
  of them, and only the detach command ends the connection.
\<close>

section \<open>The transducer\<close>

text \<open>The bytes that reach the session, \<open>None\<close> once a command key follows the prefix; the flag
  tells whether a prefix is pending.\<close>

fun relay :: "byte \<Rightarrow> bool \<Rightarrow> keyEvent list \<Rightarrow> byte list option" where
  "relay k b [] = Some []"
| "relay k False (ev # evs) =
     (if encode ev = [k] then relay k True evs else map_option (\<lambda>bs. encode ev @ bs) (relay k False evs))"
| "relay k True (ev # evs) = (if encode ev = [k] then map_option (Cons k) (relay k False evs) else None)"

definition typing :: "('t, 'u) tui_env \<Rightarrow> keyEvent list \<Rightarrow> ('t, 'u) world \<Rightarrow> ('t, 'u) world" where
  "typing env evs w = foldl (\<lambda>w ev. snd (handleEvent env ev w)) w evs"

text \<open>The server after a session's PTY has received these bytes.\<close>

definition received :: "nat \<Rightarrow> byte list \<Rightarrow> Server \<Rightarrow> Server" where
  "received p bs srv = srv\<lparr>srv_sessions := upd_live p
     (\<lambda>ls. ls\<lparr>ls_pty := (ls_pty ls)\<lparr>input := input (ls_pty ls) @ bs\<rparr>\<rparr>) (srv_sessions srv)\<rparr>"

definition pty_at :: "Server \<Rightarrow> nat \<Rightarrow> sshPTY" where
  "pty_at srv p = ls_pty (m_heap (srv_sessions srv) ! p)"

definition view_of :: "Server \<Rightarrow> ('t, 'u) connUI \<Rightarrow> nat \<Rightarrow> bool" where
  "view_of srv u p \<longleftrightarrow> u_viewing u \<noteq> '''' \<and> gm_get (m_sessions (srv_sessions srv)) (u_viewing u) = Some p \<and>
     p < length (m_heap (srv_sessions srv)) \<and> stdin_open (pty_at srv p)"

lemma received_simps [simp]:
  "srv_clients (received p bs srv) = srv_clients srv" "srv_hosts (received p bs srv) = srv_hosts srv"
  "srv_disk (received p bs srv) = srv_disk srv" "srv_cfg (received p bs srv) = srv_cfg srv"
  "m_sessions (srv_sessions (received p bs srv)) = m_sessions (srv_sessions srv)"
  "length (m_heap (srv_sessions (received p bs srv))) = length (m_heap (srv_sessions srv))"
  by (simp_all add: received_def upd_live_def)

lemma received_pty:
  "p < length (m_heap (srv_sessions srv)) \<Longrightarrow>
   pty_at (received p bs srv) q = (if q = p then (pty_at srv p)\<lparr>input := input (pty_at srv p) @ bs\<rparr> else pty_at srv q)"
  by (simp add: received_def pty_at_def upd_live_def nth_list_update)

lemma received_append:
  "p < length (m_heap (srv_sessions srv)) \<Longrightarrow> received p bs' (received p bs srv) = received p (bs @ bs') srv"
  by (simp add: received_def upd_live_def)

lemma received_Nil: "p < length (m_heap (srv_sessions srv)) \<Longrightarrow> received p [] srv = srv"
  by (simp add: received_def upd_live_def)


lemma write_received: "view_of srv u p \<Longrightarrow> write_view bs (srv, u) = (received p bs srv, u)"
  by (simp add: write_view_def view_of_def manager_Write_def lookup_def received_def pty_Write_def pty_at_def upd_live_def)

lemma typing_relay:
  assumes "view_of srv u p" "relay (e_prefix env) b evs = Some bs" "list_all (\<lambda>ev. \<not> Mouse ev) evs"
    and "u_mode u = (if b then modePrefix else modeStream)"
  shows "\<exists>m. m \<noteq> modeOverlay \<and> typing env evs (srv, u) = (received p bs srv, u\<lparr>u_mode := m\<rparr>)"
  using assms
proof (induction env' \<equiv> "e_prefix env" b evs arbitrary: bs srv u rule: relay.induct)
  case (1 b)
  then show ?case
    by (intro exI [of _ "u_mode u"]) (auto simp: typing_def received_Nil view_of_def)
next
  case (2 ev evs)
  then have h: "handleEvent env ev (srv, u) =
      (if encode ev = [e_prefix env] then (False, srv, u\<lparr>u_mode := modePrefix\<rparr>)
       else (False, received p (encode ev) srv, u))"
    using write_received [OF 2(3), of "encode ev"] received_Nil [of p srv]
    by (auto simp: handleEvent_def streamEvent_def set_mode_def view_of_def)
  show ?case
  proof (cases "encode ev = [e_prefix env]")
    case True
    then show ?thesis
      using 2(1) [of srv "u\<lparr>u_mode := modePrefix\<rparr>" bs] 2(3-6) h by (auto simp: typing_def view_of_def)
  next
    case False
    then obtain rest where rest: "relay (e_prefix env) False evs = Some rest" "bs = encode ev @ rest"
      using 2(4) by auto
    have "view_of (received p (encode ev) srv) u p" using 2(3) by (simp add: view_of_def received_pty)
    from 2(2) [OF False this rest(1)] 2(5,6) obtain m where "m \<noteq> modeOverlay"
      "typing env evs (received p (encode ev) srv, u) = (received p rest (received p (encode ev) srv), u\<lparr>u_mode := m\<rparr>)"
      by auto
    then show ?thesis using False h 2(3) by (auto simp: typing_def received_append rest(2) view_of_def)
  qed
next
  case (3 ev evs)
  then obtain rest where rest: "relay (e_prefix env) False evs = Some rest" "bs = e_prefix env # rest"
      and pre: "encode ev = [e_prefix env]" by (auto split: if_splits)
  have h: "handleEvent env ev (srv, u) = (False, received p [e_prefix env] srv, u\<lparr>u_mode := modeStream\<rparr>)"
    using write_received [of srv "u\<lparr>u_mode := modeStream\<rparr>" p "[e_prefix env]"] 3(2,5) pre
    by (simp add: handleEvent_def prefixEvent_def set_mode_def view_of_def)
  have "view_of (received p [e_prefix env] srv) (u\<lparr>u_mode := modeStream\<rparr>) p"
    using 3(2) by (simp add: view_of_def received_pty)
  from 3(1) [OF pre this rest(1)] 3(4) obtain m where "m \<noteq> modeOverlay"
    "typing env evs (received p [e_prefix env] srv, u\<lparr>u_mode := modeStream\<rparr>) =
       (received p rest (received p [e_prefix env] srv), u\<lparr>u_mode := m\<rparr>)" by auto
  then show ?case using h 3(2) by (auto simp: typing_def received_append rest(2) view_of_def)
qed

section \<open>What acts on the server\<close>

lemma signalRedraw_fst [simp]: "fst (signalRedraw w) = fst w"
  by (cases w) (simp add: signalRedraw_def)

lemma set_mode_fst [simp]: "fst (set_mode m w) = fst w"
  by (cases w) (simp add: set_mode_def)

lemma startOverlay_fst [simp]: "fst (startOverlay env ov w) = fst w"
  by (cases w) (simp add: startOverlay_def)

lemma toggleSidebar_fst [simp]: "fst (toggleSidebar w) = fst w"
  by (cases w) (simp add: toggleSidebar_def forceFullRepaint_def)

lemma closeOverlay_fst [simp]: "fst (closeOverlay w) = fst w"
  by (cases w) (simp add: closeOverlay_def forceFullRepaint_def)

lemma edit_overlay_fst [simp]: "fst (edit_overlay f w) = fst w"
  by (cases w) (simp add: edit_overlay_def)

lemmas opener_defs = openPicker_def openList_def openRename_def openDevices_def Let_def

lemma prefix_quits:
  "fst (prefixEvent env ev w) \<longleftrightarrow> encode ev \<noteq> [e_prefix env] \<and> (Ch ev = 100 \<or> Ch ev = 68)"
  by (auto simp: prefixEvent_def key_in_def code_of_def Let_def)

lemma prefix_keeps_server:
  "encode ev \<noteq> [e_prefix env] \<Longrightarrow> fst (snd (prefixEvent env ev w)) = fst w"
  by (simp add: prefixEvent_def opener_defs)

lemma overlay_keeps_server:
  "KType ev \<noteq> KeyEnter \<or> u_overlay (snd w) = None \<Longrightarrow> fst (overlayEvent env ev w) = fst w"
  by (auto simp: overlayEvent_def split: option.split KeyType.split)

section \<open>Properties\<close>

text \<open>C7: what is typed is what the session reads.  From stream mode, the keys of an interface reach the
  PTY of the viewed session, encoded, in order and nothing else, as the transducer says: the
  prefix key is swallowed, and pressed twice it sends itself once; no other session and nothing
  else of the server changes.\<close>

theorem keys_reach_the_view:
  assumes "view_of srv u p" and "u_mode u = modeStream" and "list_all (\<lambda>ev. \<not> Mouse ev) evs"
    and "relay (e_prefix env) False evs = Some bs" and "typing env evs (srv, u) = (srv', u')"
  shows "input (pty_at srv' p) = input (pty_at srv p) @ bs \<and> (\<forall>q. q \<noteq> p \<longrightarrow> pty_at srv' q = pty_at srv q) \<and>
    srv_clients srv' = srv_clients srv \<and> srv_hosts srv' = srv_hosts srv \<and> u_viewing u' = u_viewing u \<and>
    u_mode u' \<noteq> modeOverlay"
proof -
  obtain m where "m \<noteq> modeOverlay" "typing env evs (srv, u) = (received p bs srv, u\<lparr>u_mode := m\<rparr>)"
    using typing_relay [where b = False, OF assms(1,4,3)] assms(2) by auto
  then show ?thesis using assms(1,5) by (auto simp: view_of_def received_pty)
qed

definition plain_key :: "int \<Rightarrow> keyEvent" where
  "plain_key c = \<lparr>KType = KeyRune, Ch = c, Ctrl = False, Mouse = False, MouseX = 0, MouseY = 0, PasteText = ''''\<rparr>"

definition ctrl_key :: "int \<Rightarrow> keyEvent" where
  "ctrl_key c = (plain_key c)\<lparr>Ctrl := True\<rparr>"

definition demo_term :: "unit term_lib" where
  "demo_term = \<lparr>TermNew = (\<lambda>_ _. ()), TermWrite = (\<lambda>t _. t), TermResize = (\<lambda>t _ _. t),
     TermCell = (\<lambda>_ _ _. \<lparr>GChar = 0, GFG = 0, GBG = 0\<rparr>), TermCursor = (\<lambda>_. (0, 0)),
     TermCursorVisible = (\<lambda>_. True), DefaultFG = 0x1000000, DefaultBG = 0x1000001\<rparr>"

text \<open>The layout of a row: the pane takes what the sidebar leaves.\<close>

definition beside :: "int \<Rightarrow> int \<times> int \<Rightarrow> int \<times> int \<times> int \<times> int" where
  "beside bar scr = (0, 0, fst scr - bar, snd scr)"

definition demo_env :: "(unit, unit) tui_env" where
  "demo_env = \<lparr>e_open = (\<lambda>_ _. Inr new_pty), e_newID = ''n'', e_now = 9, e_index = (\<lambda>_. Inr []), e_order = [],
     e_fuzzy = (\<lambda>_ _. []), e_term = demo_term, e_btn = still_lib, e_layout = beside, e_prefix = 4\<rparr>"

definition demo_ui :: "(unit, unit) connUI" where
  "demo_ui = (new_ui demo_env ''c'' \<lparr>Rows = 24, Cols = 80\<rparr>)\<lparr>u_viewing := ''a''\<rparr>"

theorem keys_reach_the_view_witness:
  "\<exists>p. view_of demo_srv demo_ui p \<and>
     input (pty_at (fst (typing demo_env [plain_key 97, ctrl_key 68, ctrl_key 68, plain_key 233] (demo_srv, demo_ui))) p) =
     input (pty_at demo_srv p) @ [97, 4, 0xC3, 0xA9]"
proof -
  let ?keys = "[plain_key 97, ctrl_key 68, ctrl_key 68, plain_key 233]"
  have view: "view_of demo_srv demo_ui 0" by code_simp
  moreover have "u_mode demo_ui = modeStream" by code_simp
  moreover have "list_all (\<lambda>ev. \<not> Mouse ev) ?keys" by code_simp
  moreover have "relay (e_prefix demo_env) False ?keys = Some [97, 4, 0xC3, 0xA9]" by code_simp
  ultimately show ?thesis
    using keys_reach_the_view [of demo_srv demo_ui 0 ?keys demo_env "[97, 4, 0xC3, 0xA9]"
        "fst (typing demo_env ?keys (demo_srv, demo_ui))" "snd (typing demo_env ?keys (demo_srv, demo_ui))"] by auto
qed

text \<open>Only commands act.  A key ends the connection exactly when it is d or D after the prefix; a
  command key after the prefix, every key in an overlay but Enter, and the prefix key itself leave
  the server untouched.\<close>

theorem only_commands_act:
  assumes "handleEvent env ev (srv, u) = (quit, srv', u')"
  shows "(quit \<longleftrightarrow> u_mode u = modePrefix \<and> encode ev \<noteq> [e_prefix env] \<and> (Ch ev = 100 \<or> Ch ev = 68)) \<and>
    (u_mode u = modePrefix \<and> encode ev \<noteq> [e_prefix env] \<longrightarrow> srv' = srv) \<and>
    (u_mode u = modeOverlay \<and> KType ev \<noteq> KeyEnter \<longrightarrow> srv' = srv) \<and>
    (u_mode u = modeStream \<and> \<not> Mouse ev \<and> encode ev = [e_prefix env] \<longrightarrow> srv' = srv \<and> u' = u\<lparr>u_mode := modePrefix\<rparr>)"
proof (cases "u_mode u")
  case modeStream
  then show ?thesis
    using assms by (auto simp: handleEvent_def streamEvent_def set_mode_def Let_def split: if_splits prod.splits)
next
  case modePrefix
  then have "prefixEvent env ev (srv, u) = (quit, srv', u')" using assms by (simp add: handleEvent_def)
  then show ?thesis
    using modePrefix prefix_quits [of env ev "(srv, u)"] prefix_keeps_server [of ev env "(srv, u)"] by simp
next
  case modeOverlay
  then have "quit = False" "overlayEvent env ev (srv, u) = (srv', u')" using assms by (auto simp: handleEvent_def)
  then show ?thesis
    using modeOverlay overlay_keeps_server [of ev "(srv, u)" env] by auto
qed

theorem only_commands_act_witness:
  "fst (handleEvent demo_env (plain_key 100) (demo_srv, demo_ui\<lparr>u_mode := modePrefix\<rparr>))"
  using only_commands_act [of demo_env "plain_key 100" demo_srv "demo_ui\<lparr>u_mode := modePrefix\<rparr>"
      "fst (handleEvent demo_env (plain_key 100) (demo_srv, demo_ui\<lparr>u_mode := modePrefix\<rparr>))"
      "fst (snd (handleEvent demo_env (plain_key 100) (demo_srv, demo_ui\<lparr>u_mode := modePrefix\<rparr>)))"
      "snd (snd (handleEvent demo_env (plain_key 100) (demo_srv, demo_ui\<lparr>u_mode := modePrefix\<rparr>)))"]
  by (simp add: plain_key_def encode_def utf8_encode_def demo_env_def)

end
