(* ===== verification/TuiLife.thy ===== *)
theory TuiLife
  imports TuiKeys
begin

text \<open>
  The life of an attached interface: what its operations keep of the server, the invariant of the
  loop of \<open>Handle\<close>, and what is left when it returns.
\<close>

section \<open>What a step of the sessions keeps\<close>

text \<open>The subscriptions that are open, by session and number.\<close>

definition live_subs :: "manager \<Rightarrow> (nat \<times> nat) set" where
  "live_subs m = {(p, n). p < length (m_heap m) \<and> gm_get (ls_subs (m_heap m ! p)) n \<noteq> None}"

text \<open>A subscription that was never made, and one whose session has ended.\<close>

definition unmade :: "manager \<Rightarrow> nat \<times> nat \<Rightarrow> bool" where
  "unmade m x \<longleftrightarrow> length (m_heap m) \<le> fst x \<or> ls_nextSub (m_heap m ! fst x) \<le> snd x"

definition over :: "manager \<Rightarrow> nat \<times> nat \<Rightarrow> bool" where
  "over m x \<longleftrightarrow> ls_closed (m_heap m ! fst x)"

text \<open>From \<open>m\<close> to \<open>m'\<close> no subscription outside \<open>P\<close> was cancelled: an open one is open, or its session has ended.\<close>

definition holds :: "(nat \<times> nat) set \<Rightarrow> manager \<Rightarrow> manager \<Rightarrow> bool" where
  "holds P m m' \<longleftrightarrow> (\<forall>x. \<not> unmade m x \<longrightarrow> \<not> unmade m' x \<and> (over m x \<longrightarrow> over m' x) \<and>
     (x \<in> live_subs m \<longrightarrow> x \<notin> P \<longrightarrow> x \<in> live_subs m' \<or> over m' x))"

lemma holds_refl: "holds P m m"
  by (simp add: holds_def)

lemma holds_trans: "holds P m m' \<Longrightarrow> holds P' m' m'' \<Longrightarrow> holds (P \<union> P') m m''"
  unfolding holds_def by blast

lemma holds_mono: "holds P m m' \<Longrightarrow> P \<subseteq> P' \<Longrightarrow> holds P' m m'"
  unfolding holds_def by blast

text \<open>
  From \<open>m\<close> to \<open>m'\<close> only sessions in \<open>T\<close> change size, only sessions in \<open>N\<close> are new, and only
  subscriptions in \<open>P\<close> are opened or cancelled; no session starts running again.
\<close>

definition mgr_keeps :: "string set \<Rightarrow> string set \<Rightarrow> (nat \<times> nat) set \<Rightarrow> manager \<Rightarrow> manager \<Rightarrow> bool" where
  "mgr_keeps T N P m m' \<longleftrightarrow> mgr_reach m' \<and> set (ids m) \<subseteq> set (ids m') \<and> set (ids m') \<subseteq> set (ids m) \<union> N \<and>
     (\<forall>i s'. i \<notin> N \<longrightarrow> manager_Get m' i = Some s' \<longrightarrow> SessState s' = StateRunning \<longrightarrow>
        (\<exists>s. manager_Get m i = Some s \<and> SessState s = StateRunning \<and> (i \<notin> T \<longrightarrow> SessSize s' = SessSize s))) \<and>
     live_subs m' \<subseteq> live_subs m \<union> P \<and> holds P m m'"

lemma keeps_refl: "mgr_reach m \<Longrightarrow> mgr_keeps T N P m m"
  by (auto simp: mgr_keeps_def holds_refl)

lemma keeps_trans: "mgr_keeps T N P m m' \<Longrightarrow> mgr_keeps T' N' P' m' m'' \<Longrightarrow> mgr_keeps (T \<union> T') (N \<union> N') (P \<union> P') m m''"
  unfolding mgr_keeps_def by (intro conjI) (blast, blast, blast, fastforce, blast, blast intro: holds_trans)

lemma keeps_mono: "mgr_keeps T N P m m' \<Longrightarrow> T \<subseteq> T' \<Longrightarrow> N \<subseteq> N' \<Longrightarrow> P \<subseteq> P' \<Longrightarrow> mgr_keeps T' N' P' m m'"
  unfolding mgr_keeps_def by (intro conjI) (blast, blast, blast, blast, blast, blast intro: holds_mono)

lemma live_step_rec:
  "live_step a ls = Next ls' \<Longrightarrow> SessState (ls_rec ls') = StateRunning \<Longrightarrow>
   SessState (ls_rec ls) = StateRunning \<and> ((\<forall>z. a \<noteq> LSize z) \<longrightarrow> SessSize (ls_rec ls') = SessSize (ls_rec ls))"
proof (cases a)
  case LPump
  then show "live_step a ls = Next ls' \<Longrightarrow> SessState (ls_rec ls') = StateRunning \<Longrightarrow> ?thesis"
    by (auto simp: pump_step.simps split: pump_pc.splits list.splits if_splits option.splits)
qed (auto simp: reader_read_def reader_broadcast_def broadcast_def reader_stop_def
      subscribe_live_def cancel_live_def split: if_splits reader_pc.splits option.splits)

lemma live_step_subs:
  "live_step a ls = Next ls' \<Longrightarrow> gm_get (ls_subs ls') n \<noteq> None \<Longrightarrow>
   (gm_get (ls_subs ls) n \<noteq> None \<or> a = LSubscribe \<and> n = ls_nextSub ls) \<and> a \<noteq> LCancel n"
proof (cases a)
  case LPump
  then show "live_step a ls = Next ls' \<Longrightarrow> gm_get (ls_subs ls') n \<noteq> None \<Longrightarrow> ?thesis"
    by (auto simp: pump_step.simps split: pump_pc.splits list.splits if_splits option.splits)
qed (auto simp: reader_read_def reader_broadcast_def broadcast_def reader_stop_def gomap_simps
      subscribe_live_def cancel_live_def split: if_splits reader_pc.splits option.splits)

lemma live_step_made: "live_step a ls = Next ls' \<Longrightarrow> ls_nextSub ls \<le> ls_nextSub ls' \<and> (ls_closed ls \<longrightarrow> ls_closed ls')"
proof (cases a)
  case LPump
  then show "live_step a ls = Next ls' \<Longrightarrow> ?thesis"
    by (auto simp: pump_step.simps split: pump_pc.splits list.splits if_splits option.splits)
qed (auto simp: reader_read_def reader_broadcast_def broadcast_def reader_stop_def
      subscribe_live_def cancel_live_def split: if_splits reader_pc.splits option.splits)

lemma live_step_held:
  "live_step a ls = Next ls' \<Longrightarrow> gm_get (ls_subs ls) n \<noteq> None \<Longrightarrow> a \<noteq> LCancel n \<Longrightarrow>
   gm_get (ls_subs ls') n \<noteq> None \<or> ls_closed ls'"
proof (cases a)
  case LPump
  then show "live_step a ls = Next ls' \<Longrightarrow> gm_get (ls_subs ls) n \<noteq> None \<Longrightarrow> a \<noteq> LCancel n \<Longrightarrow> ?thesis"
    by (auto simp: pump_step.simps split: pump_pc.splits list.splits if_splits option.splits)
qed (auto simp: reader_read_def reader_broadcast_def broadcast_def reader_stop_def gomap_simps
      subscribe_live_def cancel_live_def split: if_splits reader_pc.splits option.splits)

lemma heap_update:
  assumes ok: "mgr_ok m" and p: "p < length (m_heap m)" and m': "m' = m\<lparr>m_heap := (m_heap m)[p := ls]\<rparr>"
    and id: "SessID (ls_rec ls) = SessID (session_at m p)"
  shows "ids m' = ids m" and "manager_Get m' i = (if i = SessID (session_at m p)
    then map_option (\<lambda>_. ls_rec ls) (manager_Get m i) else manager_Get m i)"
proof -
  show "ids m' = ids m"
    using id p by (simp add: m' ids_def map_update session_at_def list_update_same_conv)
  show "manager_Get m' i = (if i = SessID (session_at m p)
    then map_option (\<lambda>_. ls_rec ls) (manager_Get m i) else manager_Get m i)"
  proof (cases "gm_get (m_sessions m) i")
    case None
    then show ?thesis by (auto simp: manager_Get_def m')
  next
    case (Some q)
    then have q: "q < length (m_heap m)" "SessID (session_at m q) = i" "\<not> is_done (m_heap m ! q)"
      using mgr_sess [OF ok] by auto
    have "p = q" if "i = SessID (session_at m p)"
      using ok that q p by (auto simp: mgr_ok_def maps_ok_def ids_def session_at_def distinct_conv_nth)
    then show ?thesis using Some q p by (cases "p = q") (auto simp: manager_Get_def m' session_at_def)
  qed
qed

lemma heap_update_subs:
  "p < length (m_heap m) \<Longrightarrow> (q, n) \<in> live_subs (m\<lparr>m_heap := (m_heap m)[p := ls]\<rparr>) \<longleftrightarrow>
     (if q = p then gm_get (ls_subs ls) n \<noteq> None else (q, n) \<in> live_subs m)"
  by (auto simp: live_subs_def nth_list_update)

fun touched :: "sm_action \<Rightarrow> manager \<Rightarrow> string set" where
  "touched (OnLive p (LSize z)) m = {SessID (session_at m p)}"
| "touched _ m = {}"

fun created :: "sm_action \<Rightarrow> string set" where
  "created (Register i _ _ _ _) = {i}"
| "created _ = {}"

fun subscribed :: "sm_action \<Rightarrow> manager \<Rightarrow> (nat \<times> nat) set" where
  "subscribed (OnLive p LSubscribe) m = {(p, ls_nextSub (m_heap m ! p))}"
| "subscribed (OnLive p (LCancel n)) m = {(p, n)}"
| "subscribed _ m = {}"

lemma step_keeps:
  assumes reach: "mgr_reach m" and step: "sm_step a m = Next m'" and adm: "admissible a m"
  shows "mgr_keeps (touched a m) (created a) (subscribed a m) m m'"
proof -
  have ok: "mgr_ok m" and reach': "mgr_reach m'" using mgr_reach_ok [OF reach] mgr_step [OF reach adm step] .
  show ?thesis
  proof (cases a)
    case (OnLive p la)
    then obtain ls where p: "p < length (m_heap m)" and ls: "live_step la (m_heap m ! p) = Next ls"
      and m': "m' = m\<lparr>m_heap := (m_heap m)[p := ls]\<rparr>"
      using step by (auto simp: on_live_def split: if_splits)
    have id: "SessID (ls_rec ls) = SessID (session_at m p)"
      using live_step_ident [OF ls] by (simp add: ident_def session_at_def)
    note upd = heap_update [OF ok p m' id]
    have get: "\<exists>s. manager_Get m i = Some s \<and> SessState s = StateRunning \<and>
        (i \<notin> touched a m \<longrightarrow> SessSize s' = SessSize s)"
      if "manager_Get m' i = Some s'" "SessState s' = StateRunning" for i s'
    proof (cases "i = SessID (session_at m p)")
      case True
      then have "map_option (\<lambda>_. ls_rec ls) (manager_Get m i) = Some s'" using that(1) upd(2) [of i] by simp
      then obtain s0 where s0: "manager_Get m i = Some s0" "s' = ls_rec ls" by (cases "manager_Get m i") auto
      then have "s0 = ls_rec (m_heap m ! p)"
        using True ok p mgr_sess [OF ok, of i] by (auto simp: manager_Get_def session_at_def
            mgr_ok_def maps_ok_def ids_def distinct_conv_nth)
      moreover have "\<forall>z. la \<noteq> LSize z" if "i \<notin> touched a m" using that True OnLive by (cases la) auto
      ultimately show ?thesis using live_step_rec [OF ls] s0 that(2) by auto
    next
      case False
      then show ?thesis using that upd(2) [of i] by simp
    qed
    have subs: "live_subs m' \<subseteq> live_subs m \<union> subscribed a m"
    proof (rule subrelI)
      fix q n assume "(q, n) \<in> live_subs m'"
      then show "(q, n) \<in> live_subs m \<union> subscribed a m"
        using live_step_subs [OF ls, of n] p
        by (cases "q = p") (auto simp: m' OnLive heap_update_subs live_subs_def)
    qed
    have "holds (subscribed a m) m m'"
    proof (unfold holds_def, intro allI impI)
      fix x assume made: "\<not> unmade m x"
      obtain q n where x: "x = (q, n)" by (cases x)
      have "a \<noteq> OnLive p (LCancel n)" if "q = p" "x \<notin> subscribed a m" using that x by auto
      then show "\<not> unmade m' x \<and> (over m x \<longrightarrow> over m' x) \<and>
          (x \<in> live_subs m \<longrightarrow> x \<notin> subscribed a m \<longrightarrow> x \<in> live_subs m' \<or> over m' x)"
        using made p live_step_made [OF ls] live_step_held [OF ls, of n]
        by (cases "q = p") (auto simp: unmade_def over_def x m' OnLive live_subs_def nth_list_update)
    qed
    then show ?thesis using reach' upd(1) get subs by (auto simp: mgr_keeps_def)
  next
    case (Unregister p)
    then obtain b where p: "p < length (m_heap m)" "m' = m\<lparr>m_heap := (m_heap m)[p := (m_heap m ! p)\<lparr>ls_pump := PumpDone b\<rparr>],
            m_sessions := gm_del (SessID (session_at m p)) (m_sessions m),
            m_byKey := gm_del (SessProject (session_at m p)) (m_byKey m),
            m_hooks := (if \<not> b \<and> m_hook m then m_hooks m @ [(p, SessHost (session_at m p))] else m_hooks m)\<rparr>"
      using step by (auto simp: unregister_eq)
    have "session_at m' q = session_at m q" for q using p by (cases "p = q") (simp_all add: session_at_def)
    then have at: "session_at m' = session_at m" by (rule ext)
    have sess: "m_sessions m' = gm_del (SessID (session_at m p)) (m_sessions m)"
      and heap: "m_heap m' = (m_heap m)[p := (m_heap m ! p)\<lparr>ls_pump := PumpDone b\<rparr>]"
      unfolding p(2) by simp_all
    have "manager_Get m' i = (if i = SessID (session_at m p) then None else manager_Get m i)" for i
      unfolding manager_Get_def at sess by (simp add: gomap_simps)
    moreover have "ids m' = ids m"
      using p(1) unfolding ids_def heap by (simp add: map_update list_update_same_conv)
    moreover have "live_subs m' = live_subs m" using p by (auto simp: live_subs_def nth_list_update split: if_splits)
    moreover have "holds {} m m'"
      using p by (auto simp: holds_def unmade_def over_def live_subs_def nth_list_update split: if_splits)
    ultimately show ?thesis using reach' Unregister by (auto simp: mgr_keeps_def split: if_splits)
  next
    case (Register i spec now lines pty)
    then have m': "m' = register_live (new_live ((new_session i spec now)\<lparr>SessState := StateRunning\<rparr>) pty lines) m"
      using step by simp
    have "manager_Get m' j = manager_Get m j" if "j \<noteq> i" for j
      using that mgr_sess [OF ok, of j]
      by (cases "gm_get (m_sessions m) j")
        (auto simp: m' manager_Get_def register_live_def gomap_simps session_at_def nth_append new_session_def)
    moreover have "ids m' = ids m @ [i]" by (simp add: m' register_live_def ids_def new_session_def)
    moreover have "live_subs m' \<subseteq> live_subs m"
      by (auto simp: live_subs_def m' register_live_def nth_append new_live_def split: if_splits)
    moreover have "holds {} m m'"
      by (auto simp: holds_def unmade_def over_def live_subs_def m' register_live_def nth_append)
    ultimately show ?thesis using reach' Register by (auto simp: mgr_keeps_def)
  next
    case (HookSet b)
    then have "m_heap m' = m_heap m" "m_sessions m' = m_sessions m" using step by (auto simp: SetHostDownHook_def)
    then show ?thesis
      using reach' by (auto simp: mgr_keeps_def ids_def manager_Get_def session_at_def live_subs_def holds_def
          unmade_def over_def)
  qed
qed

text \<open>Steps that only move a session's own state, and runs of them.\<close>

definition quiet :: "sm_action \<Rightarrow> bool" where
  "quiet a \<longleftrightarrow> (case a of OnLive p la \<Rightarrow> la \<noteq> LSubscribe \<and> (\<forall>n. la \<noteq> LCancel n) \<and> (\<forall>z. la \<noteq> LSize z) | Unregister p \<Rightarrow> True | _ \<Rightarrow> False)"

lemma quiet_keeps: "mgr_reach m \<Longrightarrow> sm_step a m = Next m' \<Longrightarrow> quiet a \<Longrightarrow> mgr_keeps {} {} {} m m'"
proof -
  assume "mgr_reach m" "sm_step a m = Next m'" and q: "quiet a"
  moreover have "admissible a m" "created a = {}" using q by (cases a; simp add: quiet_def admissible_def)+
  moreover have "touched a m = {}" using q by (cases "(a, m)" rule: touched.cases) (simp_all add: quiet_def)
  moreover have "subscribed a m = {}" using q by (cases "(a, m)" rule: subscribed.cases) (simp_all add: quiet_def)
  ultimately show ?thesis using step_keeps [of m a m'] by simp
qed

lemma run_keeps: "mgr_reach m \<Longrightarrow> sm_run as m = Next m' \<Longrightarrow> list_all quiet as \<Longrightarrow> mgr_keeps {} {} {} m m'"
proof (induction as arbitrary: m)
  case Nil
  then show ?case by (simp add: keeps_refl)
next
  case (Cons a as)
  then obtain m1 where m1: "sm_step a m = Next m1" "sm_run as m1 = Next m'" by (auto split: outcome.splits)
  have first: "mgr_keeps {} {} {} m m1" using quiet_keeps [OF Cons.prems(1) m1(1)] Cons.prems(3) by simp
  then have "mgr_reach m1" by (simp add: mgr_keeps_def)
  from keeps_trans [OF first Cons.IH [OF this m1(2)]] Cons.prems(3) show ?case by simp
qed

lemma call_keeps:
  assumes "mgr_reach m" "c = CallWrite bs \<or> c = CallRename t"
  shows "mgr_keeps {} {} {} m (call_result c i m)"
proof -
  have "list_all quiet (call_actions c i m)"
    using assms(2) by (auto simp: call_actions_def quiet_def split: option.split)
  then show ?thesis using run_keeps [OF assms(1)] call_reach [OF assms(1), of c i] by blast
qed

lemma Write_keeps: "mgr_reach m \<Longrightarrow> mgr_keeps {} {} {} m (snd (manager_Write m i bs))"
  using call_keeps [of m "CallWrite bs" bs _ i] by simp

lemma Rename_keeps: "mgr_reach m \<Longrightarrow> mgr_keeps {} {} {} m (snd (manager_Rename m i t))"
  using call_keeps [of m "CallRename t" _ t i] by simp

lemma Resize_keeps:
  assumes "mgr_reach m"
  shows "mgr_keeps {i} {} {} m (snd (manager_Resize m i sz))"
proof (cases "gm_get (m_sessions m) i")
  case None
  then show ?thesis using keeps_refl [OF assms] by (simp add: manager_Resize_def lookup_def)
next
  case (Some p)
  then have id: "SessID (session_at m p) = i" using mgr_sess [OF mgr_reach_ok [OF assms]] by simp
  have "sm_run [OnLive p (LSize sz), OnLive p (LPty (ResizeCalled sz))] m = Next (snd (manager_Resize m i sz))"
    using call_reach [OF assms, of "CallResize sz" i] Some by (simp add: call_actions_def)
  then obtain m1 where m1: "sm_step (OnLive p (LSize sz)) m = Next m1"
    "sm_run [OnLive p (LPty (ResizeCalled sz))] m1 = Next (snd (manager_Resize m i sz))"
    by (cases "sm_step (OnLive p (LSize sz)) m") simp_all
  have first: "mgr_keeps {i} {} {} m m1"
    using step_keeps [OF assms m1(1)] id by (simp add: admissible_def)
  then have "mgr_reach m1" by (simp add: mgr_keeps_def)
  from keeps_trans [OF first run_keeps [OF this m1(2)]] show ?thesis by (simp add: quiet_def)
qed

lemma Create_keeps:
  assumes "mgr_reach m" "i \<notin> set (ids m)" "\<forall>host spec pty. opn host spec = Inr pty \<longrightarrow> pty_ok pty"
  shows "mgr_keeps {} {i} {} m (snd (manager_Create get opn lines i now m spec))"
proof (cases "snd (manager_Create get opn lines i now m spec) = m")
  case True
  then show ?thesis using keeps_refl [OF assms(1)] by simp
next
  case False
  then obtain host pty where "opn host \<lparr>Cwd = SpecRoot spec, SpecSize = ReqSize spec\<rparr> = Inr pty" and
    m': "snd (manager_Create get opn lines i now m spec) =
      register_live (new_live ((new_session i spec now)\<lparr>SessState := StateRunning\<rparr>) pty lines) m"
    by (auto simp: manager_Create_def Let_def split: option.splits sum.splits)
  then have "admissible (Register i spec now lines pty) m" using assms(2,3) by (auto simp: admissible_def)
  from step_keeps [OF assms(1) _ this] show ?thesis by (simp add: m')
qed

text \<open>The channels a subscription stands for.\<close>

definition sub_of :: "subscription option \<Rightarrow> (nat \<times> nat) set" where
  "sub_of s = (case s of Some (Live p n) \<Rightarrow> {(p, n)} | _ \<Rightarrow> {})"

text \<open>Subscriptions that are open, or whose session has ended; and a step that leaves all subscriptions but
  those of \<open>S\<close> alone, and gives new ones for them.\<close>

definition owns :: "manager \<Rightarrow> (nat \<times> nat) set \<Rightarrow> bool" where
  "owns m S \<longleftrightarrow> (\<forall>x \<in> S. \<not> unmade m x \<and> (x \<in> live_subs m \<or> over m x))"

definition hands :: "(nat \<times> nat) set \<Rightarrow> (nat \<times> nat) set \<Rightarrow> manager \<Rightarrow> manager \<Rightarrow> bool" where
  "hands S S' m m' \<longleftrightarrow> holds S m m' \<and> (\<forall>x \<in> S'. x \<in> S \<or> unmade m x) \<and> (owns m S \<longrightarrow> owns m' S')"

lemma hands_refl [simp]: "hands S S m m"
  by (simp add: hands_def holds_refl)

lemma hands_trans: "hands S S' m m' \<Longrightarrow> hands S' S'' m' m'' \<Longrightarrow> hands S S'' m m''"
  unfolding hands_def holds_def by (intro conjI) (metis, metis, blast)

lemma owns_held: "holds P m m' \<Longrightarrow> owns m S \<Longrightarrow> S \<inter> P = {} \<Longrightarrow> owns m' S"
  unfolding holds_def owns_def by blast

lemma hands_kept: "mgr_keeps T N {} m m' \<Longrightarrow> hands S S m m'"
  using owns_held [of "{}" m m' S] holds_mono [of "{}" m m' S] by (auto simp: hands_def mgr_keeps_def)

lemma hands_cancel: "mgr_keeps T N S m m' \<Longrightarrow> hands S {} m m'"
  by (simp add: hands_def owns_def mgr_keeps_def)

lemma Subscribe_keeps:
  assumes "mgr_reach m" "manager_Subscribe m i = (s, m')"
  shows "mgr_keeps {} {} (sub_of (Some s)) m m'"
proof (cases "m' = m")
  case True
  then show ?thesis using keeps_refl [OF assms(1)] by simp
next
  case False
  then obtain p n ls where p: "gm_get (m_sessions m) i = Some p" "subscribe_live (m_heap m ! p) = (ls, Some n)"
    and s: "s = Live p n" and m': "m' = upd_live p (\<lambda>_. ls) m"
    using assms(2) by (auto simp: manager_Subscribe_def lookup_def split: option.splits sum.splits prod.splits)
  have "p < length (m_heap m)" using mgr_sess [OF mgr_reach_ok [OF assms(1)]] p(1) by simp
  then have "sm_step (OnLive p LSubscribe) m = Next m'"
    using p(2) by (simp add: on_live_def m' upd_live_def)
  from step_keeps [OF assms(1) this] show ?thesis
    using p(2) by (auto simp: admissible_def s sub_of_def subscribe_live_def split: if_splits)
qed

lemma hands_subscribe:
  assumes "mgr_reach m" "manager_Subscribe m i = (s, m')"
  shows "hands {} (sub_of (Some s)) m m'"
proof (cases "gm_get (m_sessions m) i")
  case None
  then show ?thesis
    using assms(2) by (auto simp: manager_Subscribe_def lookup_def sub_of_def hands_def holds_refl owns_def)
next
  case (Some p)
  have "p < length (m_heap m)" using mgr_sess [OF mgr_reach_ok [OF assms(1)]] Some by simp
  then show ?thesis
    using assms(2) Some by (auto simp: manager_Subscribe_def lookup_def sub_of_def hands_def holds_def owns_def subscribe_live_def
        upd_live_def unmade_def over_def live_subs_def nth_list_update gomap_simps split: if_splits)
qed

lemma cancel_keeps:
  assumes "mgr_reach m"
  shows "mgr_keeps {} {} (sub_of (Some s)) m (run_cancel s m)" and "live_subs (run_cancel s m) \<subseteq> live_subs m - sub_of (Some s)"
proof -
  show "mgr_keeps {} {} (sub_of (Some s)) m (run_cancel s m)"
  proof (cases s)
    case (Live p n)
    then show ?thesis
      using step_keeps [OF assms, of "OnLive p (LCancel n)"] keeps_refl [OF assms]
      by (auto simp: run_cancel_def sub_of_def admissible_def simp del: sm_step.simps split: outcome.split)
  qed (simp add: run_cancel_def keeps_refl [OF assms])
  show "live_subs (run_cancel s m) \<subseteq> live_subs m - sub_of (Some s)"
  proof (cases s)
    case (Gone ch)
    then show ?thesis by (simp add: run_cancel_def sub_of_def)
  next
    case (Live p n)
    show ?thesis
    proof (cases "sm_step (OnLive p (LCancel n)) m")
      case (Next m')
      then obtain ls where p: "p < length (m_heap m)" and ls: "live_step (LCancel n) (m_heap m ! p) = Next ls"
        and m': "m' = m\<lparr>m_heap := (m_heap m)[p := ls]\<rparr>" by (auto simp: on_live_def split: if_splits)
      have "live_subs m' \<subseteq> live_subs m - {(p, n)}"
      proof (rule subrelI)
        fix q k assume "(q, k) \<in> live_subs m'"
        then show "(q, k) \<in> live_subs m - {(p, n)}"
          using live_step_subs [OF ls, of k] p by (cases "q = p") (auto simp: m' heap_update_subs live_subs_def)
      qed
      then show ?thesis using Next Live by (simp add: run_cancel_def sub_of_def)
    next
      case Blocked
      have "\<not> p < length (m_heap m)"
      proof
        assume p: "p < length (m_heap m)"
        then have "live_ok (m_heap m ! p)" using mgr_reach_ok [OF assms] by (simp add: mgr_ok_def)
        from cancel_step [OF this, of n] show False using Blocked p by (auto simp: on_live_def)
      qed
      then show ?thesis using Blocked Live by (auto simp: run_cancel_def sub_of_def live_subs_def)
    next
      case Panic
      then show ?thesis using mgr_no_panic [OF mgr_reach_ok [OF assms]] by blast
    qed
  qed
qed

section \<open>Sizes of running sessions\<close>

definition rsized :: "Server \<Rightarrow> string \<Rightarrow> bool" where
  "rsized srv i \<longleftrightarrow> (\<forall>s sz. manager_Get (srv_sessions srv) i = Some s \<longrightarrow> SessState s = StateRunning \<longrightarrow>
     NegotiatedSize (srv_clients srv) i (CfgResizePolicy (srv_cfg srv)) = Some sz \<longrightarrow> SessSize s = sz)"

text \<open>No session, or one that will never run again.\<close>

definition idle :: "manager \<Rightarrow> string \<Rightarrow> bool" where
  "idle m v \<longleftrightarrow> v = '''' \<or> v \<in> set (ids m) \<and> (\<forall>s. manager_Get m v = Some s \<longrightarrow> SessState s \<noteq> StateRunning)"

definition known :: "manager \<Rightarrow> string \<Rightarrow> bool" where
  "known m v \<longleftrightarrow> v = '''' \<or> v \<in> set (ids m)"

lemma rsized_kept:
  assumes "mgr_keeps T N P (srv_sessions srv) (srv_sessions srv')" "srv_cfg srv' = srv_cfg srv"
    and "i \<notin> T" "i \<notin> N" "NegotiatedSize (srv_clients srv') i (CfgResizePolicy (srv_cfg srv)) =
      NegotiatedSize (srv_clients srv) i (CfgResizePolicy (srv_cfg srv))"
    and "rsized srv i"
  shows "rsized srv' i"
  using assms unfolding mgr_keeps_def rsized_def by fastforce

lemma idle_kept:
  "mgr_keeps T N P m m' \<Longrightarrow> idle m v \<Longrightarrow> v \<notin> N \<Longrightarrow> idle m' v"
  unfolding mgr_keeps_def idle_def by fastforce

lemma resize_is_renegotiate: "resizeSessionToNegotiated i srv = renegotiate i srv"
  by (simp add: resizeSessionToNegotiated_def renegotiate_def split: option.split)

lemma renegotiate_mgr: "srv_ok srv \<Longrightarrow> mgr_keeps {t} {} {} (srv_sessions srv) (srv_sessions (renegotiate t srv))"
  by (auto simp: renegotiate_def srv_ok_def Resize_keeps keeps_refl split: option.split)

lemma renegotiate_rsized: "srv_ok srv \<Longrightarrow> rsized (renegotiate t srv) t"
  using renegotiate_sized [of srv t] by (simp add: sized_at_def rsized_def)

lemma renegotiate_rsized_other: "srv_ok srv \<Longrightarrow> i \<noteq> t \<Longrightarrow> rsized srv i \<Longrightarrow> rsized (renegotiate t srv) i"
  using rsized_kept [OF renegotiate_mgr, of srv t i] by simp

text \<open>Changing the size of a client concerns the session it views.\<close>

lemma SetSize_get:
  "attach_Get (snd (SetSize a i z)) j =
     (if j = i then map_option (\<lambda>c. c\<lparr>ClientSize := z\<rparr>) (attach_Get a i) else attach_Get a j)"
  by (simp add: SetSize_def attach_Get_def gomap_simps split: option.split)

lemma SetSize_ok: "att_ok a \<Longrightarrow> att_ok (snd (SetSize a i z))"
  using att_key [of a i] att_ok_put [of a i] by (cases "gm_get (at_clients a) i") (simp_all add: SetSize_def)

lemma SetSize_negotiated:
  assumes "att_ok a" "\<And>c. attach_Get a i = Some c \<Longrightarrow> Viewing c \<noteq> s"
  shows "NegotiatedSize (snd (SetSize a i z)) s policy = NegotiatedSize a s policy"
proof (rule negotiated_cong)
  show "viewing_at (snd (SetSize a i z)) s = viewing_at a s"
    using assms(2) by (auto simp: viewing_at_def SetSize_get fun_eq_iff split: option.split)
qed (auto simp: SetSize_ok assms(1), simp add: SetSize_def split: option.split)

lemma Get_known: "mgr_reach m \<Longrightarrow> manager_Get m i = Some s \<Longrightarrow> known m i"
  using mgr_sess [OF mgr_reach_ok, of m i] by (force simp: manager_Get_def known_def ids_def session_at_def)

lemma List_running:
  assumes "mgr_reach m"
  shows "find (\<lambda>s. SessState s = StateRunning) (manager_List m) = None \<longleftrightarrow>
      (\<forall>i s. manager_Get m i = Some s \<longrightarrow> SessState s \<noteq> StateRunning)"
    and "find (\<lambda>s. SessState s = StateRunning) (manager_List m) = Some s \<Longrightarrow> known m (SessID s)"
proof -
  note get = manager_List_get [OF mgr_reach_ok [OF assms]]
  show "find (\<lambda>s. SessState s = StateRunning) (manager_List m) = None \<longleftrightarrow>
      (\<forall>i s. manager_Get m i = Some s \<longrightarrow> SessState s \<noteq> StateRunning)"
    using get Get_id [OF assms] by (auto simp: find_None_iff)
  show "find (\<lambda>s. SessState s = StateRunning) (manager_List m) = Some s \<Longrightarrow> known m (SessID s)"
    using get Get_known [OF assms] by (fastforce simp: find_Some_iff)
qed

section \<open>Worlds\<close>

definition foreign :: "('t, 'u) world \<Rightarrow> (nat \<times> nat) set" where
  "foreign w = live_subs (srv_sessions (fst w)) - sub_of (u_sub (snd w))"

text \<open>The records of all other clients.\<close>

definition others :: "string \<Rightarrow> Server \<Rightarrow> Server \<Rightarrow> bool" where
  "others i srv srv' \<longleftrightarrow> (\<forall>j. j \<noteq> i \<longrightarrow> attach_Get (srv_clients srv') j = attach_Get (srv_clients srv) j)"

lemma others_refl [simp]: "others i srv srv"
  by (simp add: others_def)

lemma others_trans: "others i srv srv' \<Longrightarrow> others i srv' srv'' \<Longrightarrow> others i srv srv''"
  by (simp add: others_def)

lemma others_clients [simp]: "srv_clients srv' = srv_clients srv \<Longrightarrow> others i srv srv'"
  by (simp add: others_def)

lemma others_renegotiate [simp]: "others i srv (renegotiate t srv') = others i srv srv'"
  by (simp add: others_def)

text \<open>The operation opened and cancelled no subscription but the interface's own, created no session outside \<open>N\<close>, changed
  no other client's record, and set no session going again.\<close>

definition wstep :: "string set \<Rightarrow> ('t, 'u) world \<Rightarrow> ('t, 'u) world \<Rightarrow> bool" where
  "wstep N w w' \<longleftrightarrow> foreign w' \<subseteq> foreign w \<and> set (ids (srv_sessions (fst w))) \<subseteq> set (ids (srv_sessions (fst w'))) \<and>
     set (ids (srv_sessions (fst w'))) \<subseteq> set (ids (srv_sessions (fst w))) \<union> N \<and> u_id (snd w') = u_id (snd w) \<and>
     others (u_id (snd w)) (fst w) (fst w') \<and>
     (\<forall>v. v \<notin> N \<longrightarrow> idle (srv_sessions (fst w)) v \<longrightarrow> idle (srv_sessions (fst w')) v) \<and>
     hands (sub_of (u_sub (snd w))) (sub_of (u_sub (snd w'))) (srv_sessions (fst w)) (srv_sessions (fst w'))"

lemma wstep_refl [simp]: "wstep N w w"
  by (auto simp: wstep_def)

lemma wstep_trans: "wstep N w w' \<Longrightarrow> wstep N w' w'' \<Longrightarrow> wstep N w w''"
  unfolding wstep_def by (auto intro: others_trans hands_trans)

lemma wstep_keeps:
  "mgr_keeps T N {} (srv_sessions srv) (srv_sessions srv') \<Longrightarrow> u_sub u' = u_sub u \<Longrightarrow> u_id u' = u_id u \<Longrightarrow>
   others (u_id u) srv srv' \<Longrightarrow> wstep N (srv, u) (srv', u')"
  using idle_kept [of T N "{}" "srv_sessions srv" "srv_sessions srv'"] hands_kept [of T N "srv_sessions srv" "srv_sessions srv'"]
  by (auto simp: mgr_keeps_def wstep_def foreign_def)

text \<open>A connection that is attached, on a server where every running session has its negotiated size,
  those in \<open>D\<close> perhaps not; the empty ID is in \<open>D\<close>.\<close>

definition ready :: "string set \<Rightarrow> ('t, 'u) world \<Rightarrow> bool" where
  "ready D w \<longleftrightarrow> srv_ok (fst w) \<and> attach_Get (srv_clients (fst w)) (u_id (snd w)) \<noteq> None \<and>
     '''' \<in> D \<and> (\<forall>i. i \<notin> D \<longrightarrow> rsized (fst w) i) \<and> 0 < PaneW (u_pane (snd w)) \<and> 0 < PaneH (u_pane (snd w))"

text \<open>The client's record and the connection agree on what is viewed, or it is over, or it is in \<open>D\<close>.\<close>

definition agrees :: "string set \<Rightarrow> ('t, 'u) world \<Rightarrow> bool" where
  "agrees D w \<longleftrightarrow> (\<forall>c. attach_Get (srv_clients (fst w)) (u_id (snd w)) = Some c \<longrightarrow>
     known (srv_sessions (fst w)) (Viewing c) \<and>
     (Viewing c = u_viewing (snd w) \<or> idle (srv_sessions (fst w)) (Viewing c) \<or> Viewing c \<in> D))"

lemma stopSub_step:
  assumes "srv_ok srv" "stopSub (srv, u) = (srv1, u1)"
  shows "mgr_keeps {} {} (sub_of (u_sub u)) (srv_sessions srv) (srv_sessions srv1) \<and> wstep {} (srv, u) (srv1, u1) \<and>
    srv1 = srv\<lparr>srv_sessions := srv_sessions srv1\<rparr> \<and> u1 = u\<lparr>u_sub := None\<rparr>"
proof (cases "u_sub u")
  case None
  then show ?thesis using assms keeps_refl by (auto simp: stopSub_def srv_ok_def)
next
  case (Some s)
  then have "srv1 = srv\<lparr>srv_sessions := run_cancel s (srv_sessions srv)\<rparr>" "u1 = u\<lparr>u_sub := None\<rparr>"
    using assms(2) by (simp_all add: stopSub_def)
  moreover have "mgr_reach (srv_sessions srv)" using assms(1) by (simp add: srv_ok_def)
  ultimately show ?thesis
    using cancel_keeps [of "srv_sessions srv" s] idle_kept [OF cancel_keeps(1), of "srv_sessions srv" _ s] Some
      hands_cancel [OF cancel_keeps(1), of "srv_sessions srv" s]
    by (auto simp: wstep_def foreign_def mgr_keeps_def sub_of_def)
qed

lemma subscribe_step:
  assumes "srv_ok srv" "u_sub u = None" "subscribe_view i (srv, u) = (srv1, u1)"
  shows "(\<exists>P. mgr_keeps {} {} P (srv_sessions srv) (srv_sessions srv1)) \<and> wstep {} (srv, u) (srv1, u1) \<and>
    srv1 = srv\<lparr>srv_sessions := srv_sessions srv1\<rparr> \<and>
    (\<exists>s. u1 = u\<lparr>u_viewing := i, u_sub := s, u_mode := modeStream\<rparr>)"
proof -
  obtain s m where sub: "manager_Subscribe (srv_sessions srv) i = (s, m)" by fastforce
  have keep: "mgr_keeps {} {} (sub_of (Some s)) (srv_sessions srv) m"
    using Subscribe_keeps [OF _ sub] assms(1) by (simp add: srv_ok_def)
  moreover from this have "wstep {} (srv, u) (srv1, u1)"
    using assms(1,2,3) sub idle_kept [OF keep] hands_subscribe [OF _ sub]
    by (auto simp: subscribe_view_def wstep_def foreign_def mgr_keeps_def srv_ok_def sub_of_def)
  ultimately show ?thesis using assms(2,3) sub by (auto simp: subscribe_view_def)
qed

lemma viewing_step:
  assumes ok: "srv_ok srv" and att: "attach_Get (srv_clients srv) (u_id u) = Some cl"
    and D: "'''' \<in> D" and sized: "\<And>j. j \<notin> D \<Longrightarrow> j \<noteq> i \<Longrightarrow> rsized srv j"
    and run: "setClientViewing i (srv, u) = (srv1, u1)"
  shows "srv_ok srv1 \<and> u1 = u \<and> wstep {} (srv, u) (srv1, u1) \<and> srv_hosts srv1 = srv_hosts srv \<and>
    attach_Get (srv_clients srv1) (u_id u) = Some (cl\<lparr>Viewing := i\<rparr>) \<and>
    (\<forall>j. j \<notin> D \<longrightarrow> j \<noteq> i \<longrightarrow> rsized srv1 j)"
proof -
  define srv' where "srv' = srv\<lparr>srv_clients := snd (SetViewing (srv_clients srv) (u_id u) i)\<rparr>"
  have srv1: "srv1 = (if Viewing cl \<noteq> '''' \<and> Viewing cl \<noteq> i then renegotiate (Viewing cl) srv' else srv')" "u1 = u"
    using run att by (auto simp: setClientViewing_def srv'_def resize_is_renegotiate Let_def)
  have ok': "srv_ok srv'" using ok by (simp add: srv_ok_def srv'_def SetViewing_ok)
  have keep: "mgr_keeps {} {} {} (srv_sessions srv) (srv_sessions srv')"
    using ok by (simp add: srv'_def srv_ok_def keeps_refl)
  have other: "rsized srv' j" if "j \<noteq> i" "j \<noteq> Viewing cl" "j \<notin> D" for j
    using rsized_kept [OF keep, of j] negotiated_move [of "srv_clients srv" j i "u_id u"] that att sized ok
    by (auto simp: srv'_def srv_ok_def)
  have "rsized srv1 j" if "j \<notin> D" "j \<noteq> i" for j
    using that D other [of j] renegotiate_rsized [OF ok', of j] renegotiate_rsized_other [OF ok', of j "Viewing cl"]
    by (cases "j = Viewing cl") (auto simp: srv1(1))
  moreover have "srv_clients srv1 = srv_clients srv'" "srv_hosts srv1 = srv_hosts srv"
    by (simp_all add: srv1(1) srv'_def)
  moreover have "attach_Get (srv_clients srv') (u_id u) = Some (cl\<lparr>Viewing := i\<rparr>)"
    using att by (simp add: srv'_def SetViewing_get)
  moreover have all: "mgr_keeps {Viewing cl} {} {} (srv_sessions srv) (srv_sessions (renegotiate (Viewing cl) srv'))"
    using keeps_trans [OF keep renegotiate_mgr [OF ok', of "Viewing cl"]] by simp
  have "others (u_id u) srv srv'" by (simp add: others_def srv'_def SetViewing_get)
  then have "wstep {} (srv, u) (srv1, u)"
    using wstep_keeps [OF all, of u u] wstep_keeps [OF keep, of u u] by (simp add: srv1(1))
  ultimately show ?thesis using srv1(2) ok' by (simp add: srv1(1) renegotiate_ok)
qed

text \<open>Reporting the pane's size settles the session it is reported for.\<close>

lemma size_step:
  assumes ok: "srv_ok srv" and att: "attach_Get (srv_clients srv) (u_id u) = Some cl"
    and view: "Viewing cl = u_viewing u \<or> idle (srv_sessions srv) (Viewing cl) \<or> Viewing cl \<in> D"
    and D: "'''' \<in> D" and sized: "\<And>j. j \<notin> D \<Longrightarrow> j \<noteq> u_viewing u \<Longrightarrow> rsized srv j"
    and run: "onPaneResize cols rows (srv, u) = (srv1, u1)" and pos: "0 < cols" "0 < rows"
  shows "srv_ok srv1 \<and> u1 = u \<and> wstep {} (srv, u) (srv1, u1) \<and> srv_hosts srv1 = srv_hosts srv \<and>
    (\<exists>z. attach_Get (srv_clients srv1) (u_id u) = Some (cl\<lparr>ClientSize := z\<rparr>)) \<and>
    (\<forall>j. j \<notin> D \<longrightarrow> rsized srv1 j) \<and> (\<forall>v. idle (srv_sessions srv) v \<longrightarrow> idle (srv_sessions srv1) v)"
proof -
  define srv' where "srv' = srv\<lparr>srv_clients := snd (SetSize (srv_clients srv) (u_id u)
               \<lparr>Rows = of_int rows, Cols = of_int cols\<rparr>)\<rparr>"
  have srv1: "srv1 = (if u_viewing u \<noteq> '''' then renegotiate (u_viewing u) srv' else srv')" "u1 = u"
    using run pos by (auto simp: onPaneResize_def srv'_def resize_is_renegotiate Let_def)
  have ok': "srv_ok srv'" using ok by (simp add: srv_ok_def srv'_def SetSize_ok)
  have keep: "mgr_keeps {} {} {} (srv_sessions srv) (srv_sessions srv')"
    using ok by (simp add: srv'_def srv_ok_def keeps_refl)
  have other: "rsized srv' j" if j: "j \<noteq> u_viewing u" "j \<notin> D" for j
  proof (cases "j = Viewing cl")
    case True
    then have "idle (srv_sessions srv) j" using view j by auto
    then show ?thesis using j D by (auto simp: srv'_def rsized_def idle_def)
  next
    case False
    then have "NegotiatedSize (srv_clients srv') j (CfgResizePolicy (srv_cfg srv)) =
        NegotiatedSize (srv_clients srv) j (CfgResizePolicy (srv_cfg srv))"
      unfolding srv'_def using SetSize_negotiated [of "srv_clients srv" "u_id u" j] att ok by (simp add: srv_ok_def)
    then show ?thesis using rsized_kept [OF keep, of j] sized [OF j(2,1)] by (simp add: srv'_def)
  qed
  have "rsized srv1 j" if "j \<notin> D" for j
    using that D other [of j] renegotiate_rsized [OF ok', of j] renegotiate_rsized_other [OF ok', of j "u_viewing u"]
    by (cases "j = u_viewing u") (auto simp: srv1(1))
  moreover have "srv_clients srv1 = srv_clients srv'" "srv_hosts srv1 = srv_hosts srv"
    by (simp_all add: srv1(1) srv'_def)
  moreover have "\<exists>z. attach_Get (srv_clients srv') (u_id u) = Some (cl\<lparr>ClientSize := z\<rparr>)"
    using att by (simp add: srv'_def SetSize_get) blast
  moreover have all: "mgr_keeps {u_viewing u} {} {} (srv_sessions srv) (srv_sessions (renegotiate (u_viewing u) srv'))"
    using keeps_trans [OF keep renegotiate_mgr [OF ok', of "u_viewing u"]] by simp
  have "others (u_id u) srv srv'" by (simp add: others_def srv'_def SetSize_get)
  then have "wstep {} (srv, u) (srv1, u)"
    using wstep_keeps [OF all, of u u] wstep_keeps [OF keep, of u u] by (simp add: srv1(1))
  moreover have "\<forall>v. idle (srv_sessions srv) v \<longrightarrow> idle (srv_sessions srv1) v"
    using idle_kept [OF all] idle_kept [OF keep] by (simp add: srv1(1))
  ultimately show ?thesis using srv1(2) ok' by (simp add: srv1(1) renegotiate_ok)
qed

section \<open>The operations\<close>

lemma sessions_kept:
  assumes "srv_ok srv" "mgr_keeps {} {} P (srv_sessions srv) m"
  shows "srv_ok (srv\<lparr>srv_sessions := m\<rparr>)" and "rsized srv j \<Longrightarrow> rsized (srv\<lparr>srv_sessions := m\<rparr>) j"
  using assms rsized_kept [of "{}" "{}" P srv "srv\<lparr>srv_sessions := m\<rparr>" j] by (auto simp: srv_ok_def mgr_keeps_def)

lemma report_step:
  assumes ok: "srv_ok srv" and att: "attach_Get (srv_clients srv) (u_id u) = Some cl"
    and view: "Viewing cl = u_viewing u" "known (srv_sessions srv) (Viewing cl)"
    and D: "'''' \<in> D" and sized: "\<And>j. j \<notin> D \<Longrightarrow> j \<noteq> u_viewing u \<Longrightarrow> rsized srv j"
    and pos: "0 < PaneW (u_pane u)" "0 < PaneH (u_pane u)" and run: "report_size (srv, u) = w"
  shows "ready D w \<and> agrees D w \<and> wstep {} (srv, u) w \<and> snd w = u"
proof -
  obtain srv1 u1 where w: "onPaneResize (PaneW (u_pane u)) (PaneH (u_pane u)) (srv, u) = (srv1, u1)" by fastforce
  then have "w = (srv1, u1)" using run pos by (simp add: report_size_def pane_size_def)
  then show ?thesis
    using size_step [OF ok att _ D sized w pos] view pos D by (auto simp: ready_def agrees_def known_def wstep_def)
qed

text \<open>The part of a connection that the invariants see.\<close>

definition core :: "('t, 'u) connUI \<Rightarrow> string \<times> string \<times> subscription option \<times> int \<times> int" where
  "core u = (u_id u, u_viewing u, u_sub u, PaneW (u_pane u), PaneH (u_pane u))"

lemma core_same:
  assumes "fst w' = fst w" "core (snd w') = core (snd w)"
  shows "ready D w' = ready D w" "agrees D w' = agrees D w" "wstep N x w' = wstep N x w" "wstep N w w'"
  using assms by (auto simp: core_def ready_def agrees_def wstep_def foreign_def)

lemma core_signal [simp]: "core (snd (signalRedraw w)) = core (snd w)"
  by (simp add: signalRedraw_def core_def split: prod.split)

lemma core_replay [simp]: "core (snd (replay env i w)) = core (snd w)" "fst (replay env i w) = fst w"
  by (simp_all add: replay_def on_pane_def feed_def core_def split: prod.split option.split)

lemma switchView_ok:
  fixes w :: "('t, 'u) world"
  assumes "ready D w" "known (srv_sessions (fst w)) i"
  shows "ready D (switchView env i w) \<and> agrees D (switchView env i w) \<and> wstep {} w (switchView env i w) \<and>
    u_viewing (snd (switchView env i w)) = i"
proof -
  obtain srv u where w: "w = (srv, u)" by (cases w)
  have ok: "srv_ok srv" and D: "'''' \<in> D" and sized: "\<And>j. j \<notin> D \<Longrightarrow> rsized srv j"
    and pos: "0 < PaneW (u_pane u)" "0 < PaneH (u_pane u)"
    using assms(1) by (simp_all add: ready_def w)
  obtain cl :: Client where att: "attach_Get (srv_clients srv) (u_id u) = Some cl"
    using assms by (auto simp: ready_def w)
  obtain srv1 u1 where r1: "stopSub (srv, u) = (srv1, u1)" by fastforce
  note s1 = stopSub_step [OF ok r1]
  then obtain m1 where srv1: "srv1 = srv\<lparr>srv_sessions := m1\<rparr>" by blast
  then have "mgr_keeps {} {} (sub_of (u_sub u)) (srv_sessions srv) m1" using s1 by simp
  from sessions_kept [OF ok this] have ok1: "srv_ok srv1" "\<And>j. j \<notin> D \<Longrightarrow> rsized srv1 j"
    using sized by (simp_all add: srv1)
  obtain srv2 u2 where r2: "subscribe_view i (srv1, u1) = (srv2, u2)" by fastforce
  have "u_sub u1 = None" using s1 by simp
  note s2 = subscribe_step [OF ok1(1) this r2]
  then obtain m2 where srv2: "srv2 = srv1\<lparr>srv_sessions := m2\<rparr>" by blast
  then obtain P where "mgr_keeps {} {} P (srv_sessions srv1) m2" using s2 by auto
  from sessions_kept [OF ok1(1) this] have ok2: "srv_ok srv2" "\<And>j. j \<notin> D \<Longrightarrow> rsized srv2 j"
    using ok1(2) by (simp_all add: srv2)
  have u2: "u_id u2 = u_id u" "u_viewing u2 = i" "u_pane u2 = u_pane u" using s1 s2 by auto
  have att2: "attach_Get (srv_clients srv2) (u_id u2) = Some cl" using att by (simp add: srv1 srv2 u2)
  obtain srv3 u3 where r3: "setClientViewing i (srv2, u2) = (srv3, u3)" by fastforce
  note s3 = viewing_step [OF ok2(1) att2 D ok2(2) r3]
  let ?u4 = "u2\<lparr>u_pane := reset (e_term env) (u_pane u2)\<rparr>"
  define w5 where "w5 = report_size (srv3, ?u4)"
  have "known (srv_sessions srv3) i"
    using assms(2) conjunct1 [OF conjunct2 [OF s1]] conjunct1 [OF conjunct2 [OF s2]]
      conjunct1 [OF conjunct2 [OF conjunct2 [OF s3]]] by (auto simp: w known_def wstep_def)
  then have s5: "ready D w5 \<and> agrees D w5 \<and> wstep {} (srv3, ?u4) w5 \<and> snd w5 = ?u4"
    using s3 u2 pos D unfolding w5_def
    by (intro report_step [where cl = "cl\<lparr>Viewing := i\<rparr>"]) (auto simp: reset_def)
  have "switchView env i w = signalRedraw (replay env i w5)"
    using r1 r2 r3 s3 by (simp add: switchView_def w on_pane_def w5_def)
  moreover have same: "fst (signalRedraw (replay env i w5)) = fst w5"
    "core (snd (signalRedraw (replay env i w5))) = core (snd w5)" by simp_all
  moreover have "wstep {} w w5"
  proof -
    have "wstep {} (srv3, u3) (srv3, ?u4)" using s3 by (simp add: wstep_def foreign_def)
    then have "wstep {} (srv3, u3) w5" using s5 wstep_trans by blast
    then show ?thesis
      unfolding w
      using wstep_trans [OF conjunct1 [OF conjunct2 [OF s1]] wstep_trans [OF conjunct1 [OF conjunct2 [OF s2]]
          conjunct1 [OF conjunct2 [OF conjunct2 [OF s3]]]]] wstep_trans by blast
  qed
  moreover have "u_viewing (snd (signalRedraw (replay env i w5))) = i"
    using same(2) s5 u2 by (simp add: core_def)
  ultimately show ?thesis using s5 by (simp add: core_same [OF same])
qed

text \<open>The calls that lead to a switch.\<close>

lemma Jump_ready:
  assumes ok: "srv_ok srv" and D: "'''' \<in> D" and sized: "\<And>j. j \<notin> D \<Longrightarrow> j \<noteq> i \<Longrightarrow> rsized srv j"
    and pos: "0 < PaneW (u_pane u)" "0 < PaneH (u_pane u)" and run: "Jump srv (u_id u) i = (None, srv1)"
  shows "ready D (srv1, u) \<and> wstep {} (srv, u) (srv1, u) \<and> known (srv_sessions srv1) i"
proof -
  obtain s where "manager_Get (srv_sessions srv) i = Some s" using Jump_success [OF run] by blast
  then have known: "known (srv_sessions srv) i" using ok Get_known by (auto simp: srv_ok_def)
  obtain cl :: Client where att: "attach_Get (srv_clients srv) (u_id u) = Some cl" and
    srv1: "srv1 = renegotiate i (if Viewing cl \<noteq> '''' \<and> Viewing cl \<noteq> i
      then renegotiate (Viewing cl) (srv\<lparr>srv_clients := snd (SetViewing (srv_clients srv) (u_id u) i)\<rparr>)
      else srv\<lparr>srv_clients := snd (SetViewing (srv_clients srv) (u_id u) i)\<rparr>)"
    using Jump_success [OF run] by blast
  obtain srv2 u2 where r: "setClientViewing i (srv, u) = (srv2, u2)" by fastforce
  have srv2: "srv1 = renegotiate i srv2"
    using r att by (auto simp: srv1 setClientViewing_def resize_is_renegotiate Let_def)
  note s = viewing_step [OF ok att D sized r]
  then have ok2: "srv_ok srv2" by simp
  have "rsized srv1 j" if "j \<notin> D" for j
    using that s renegotiate_rsized [OF ok2, of i] renegotiate_rsized_other [OF ok2, of j i] srv2
    by (cases "j = i") auto
  moreover have "wstep {} (srv2, u) (srv1, u)"
    using wstep_keeps [OF renegotiate_mgr [OF ok2, of i], of u u] by (simp add: srv2)
  ultimately show ?thesis
    using pos D s known renegotiate_ok [OF ok2, of i] wstep_trans [of "{}" "(srv, u)" "(srv2, u)"]
    by (auto simp: ready_def srv2 known_def wstep_def)
qed

lemma selectSession_ok:
  assumes "ready D (srv, u)" "agrees D (srv, u)"
  shows "ready D (selectSession env i (srv, u)) \<and> agrees D (selectSession env i (srv, u)) \<and>
    wstep {} (srv, u) (selectSession env i (srv, u))"
proof (cases "Jump srv (u_id u) i")
  case (Pair e srv1)
  show ?thesis
  proof (cases e)
    case None
    then have "ready D (srv1, u)" "wstep {} (srv, u) (srv1, u)" "known (srv_sessions srv1) i"
      using Jump_ready [of srv D i u srv1] assms(1) Pair by (auto simp: ready_def)
    with switchView_ok [where env = env and i = i, OF this(1)] wstep_trans [of "{}" "(srv, u)" "(srv1, u)"] show ?thesis
      using Pair None by (auto simp: selectSession_def)
  next
    case (Some err)
    then show ?thesis using Pair Jump_error [of srv "u_id u" i err srv1] assms by (simp add: selectSession_def)
  qed
qed

text \<open>What the environment guarantees at one moment: a fresh ID and good PTYs.\<close>

definition env_ok :: "('t, 'u) tui_env \<Rightarrow> string set \<Rightarrow> bool" where
  "env_ok env used \<longleftrightarrow> e_newID env \<notin> used \<and> (\<forall>h spec pty. e_open env h spec = Inr pty \<longrightarrow> pty_ok pty)"

lemma set_status_mgr [simp]: "srv_sessions (set_status now i st srv) = srv_sessions srv"
  by simp

lemma Create_cases:
  assumes "mgr_reach m" "i \<notin> set (ids m)" "manager_Create get opn lines i now m spec = (r, m')"
  shows "(\<exists>e. r = Inl e) \<and> m' = m \<or>
    r = Inr i \<and> manager_Get m' i = Some ((new_session i spec now)\<lparr>SessState := StateRunning\<rparr>)"
  using Create_result [OF assms(1,2), where get = get and opn = opn and lines = lines and now = now and spec = spec]
    assms(3) by (auto split: sum.splits session_error.splits)

lemma wstep_more: "wstep {} w w' \<Longrightarrow> wstep N w w'"
  by (auto simp: wstep_def)

lemma OpenProject_ready:
  assumes ready: "ready D (srv, u)" and env: "env_ok env (set (ids (srv_sessions srv)))"
    and run: "OpenProject (e_open env) (e_newID env) (e_now env) srv (u_id u) p = ((e, i), srv1)"
  shows "if e = None then ready D (srv1, u) \<and> wstep {e_newID env} (srv, u) (srv1, u) \<and> known (srv_sessions srv1) i
    else srv1 = srv"
proof (cases "manager_Find (srv_sessions srv) (KeyOf p)")
  case (Some j)
  then have "Jump srv (u_id u) j = (e, srv1)" "e = None \<longrightarrow> j = i"
    using run by (auto simp: OpenProject_def split: prod.splits option.splits)
  then show ?thesis
    using ready Jump_ready [of srv D j u srv1] Jump_error [of srv "u_id u" j _ srv1] wstep_more
    by (auto simp: ready_def)
next
  case None
  let ?n = "e_newID env"
  have ok: "srv_ok srv" and reach: "mgr_reach (srv_sessions srv)" and fresh: "?n \<notin> set (ids (srv_sessions srv))"
    and dialer: "\<forall>h spec pty. e_open env h spec = Inr pty \<longrightarrow> pty_ok pty"
    using ready env by (auto simp: ready_def srv_ok_def env_ok_def)
  define spec where "spec = \<lparr>SpecHost = ProjHost p, SpecRoot = ProjRoot p, SpecTitle = ProjName p,
    ReqSize = viewerSize srv (u_id u)\<rparr>"
  obtain r m where cr: "manager_Create (registry_Get (srv_hosts srv)) (e_open env) (ScrollbackLines (srv_cfg srv))
      ?n (e_now env) (srv_sessions srv) spec = (r, m)" by fastforce
  from Create_cases [OF reach fresh cr] show ?thesis
  proof
    assume "(\<exists>e. r = Inl e) \<and> m = srv_sessions srv"
    then show ?thesis using run None cr by (auto simp: OpenProject_def spec_def)
  next
    assume r: "r = Inr ?n \<and> manager_Get m ?n = Some ((new_session ?n spec (e_now env))\<lparr>SessState := StateRunning\<rparr>)"
    define srv' where "srv' = set_status (e_now env) (ProjHost p) StatusUp (srv\<lparr>srv_sessions := m\<rparr>)"
    have jump: "Jump srv' (u_id u) ?n = (e, srv1)" "i = ?n"
      using run None cr r by (auto simp: OpenProject_def spec_def srv'_def Let_def split: prod.splits)
    have keep: "mgr_keeps {} {?n} {} (srv_sessions srv) m"
      using Create_keeps [where opn = "e_open env", OF reach fresh dialer] cr by (metis snd_conv)
    then have ok': "srv_ok srv'"
      using ok unfolding srv'_def by (intro set_status_ok) (simp add: srv_ok_def mgr_keeps_def)
    have sized: "rsized srv' j" if "j \<notin> D" "j \<noteq> ?n" for j
      using rsized_kept [of "{}" "{?n}" "{}" srv srv' j] keep that ready by (simp add: srv'_def ready_def)
    obtain cl where "attach_Get (srv_clients srv') (u_id u) = Some cl"
      using ready by (auto simp: ready_def srv'_def)
    then have e: "e = None"
      using Jump_when [of srv' ?n _ "u_id u" cl] r jump by (simp add: srv'_def)
    have "ready D (srv1, u) \<and> wstep {} (srv', u) (srv1, u) \<and> known (srv_sessions srv1) ?n"
      using ok' sized ready jump e by (intro Jump_ready) (auto simp: ready_def)
    moreover have "wstep {?n} (srv, u) (srv', u)"
      using wstep_keeps [of "{}" "{?n}" srv srv' u u] keep by (simp add: srv'_def others_def)
    ultimately show ?thesis
      using e jump(2) wstep_trans [of "{?n}" "(srv, u)" "(srv', u)" "(srv1, u)"]
        wstep_more [of "(srv', u)" "(srv1, u)" "{?n}"] by simp
  qed
qed

lemma open_project_ok:
  assumes "ready D (srv, u)" "agrees D (srv, u)" "env_ok env (set (ids (srv_sessions srv)))"
  shows "ready D (open_project env p (srv, u)) \<and> agrees D (open_project env p (srv, u)) \<and>
    wstep {e_newID env} (srv, u) (open_project env p (srv, u))"
proof -
  obtain e i srv1 where run: "OpenProject (e_open env) (e_newID env) (e_now env) srv (u_id u) p = ((e, i), srv1)"
    by (metis prod.exhaust_sel)
  note res = OpenProject_ready [OF assms(1,3) run]
  show ?thesis
  proof (cases e)
    case None
    then have "ready D (srv1, u)" "wstep {e_newID env} (srv, u) (srv1, u)" "known (srv_sessions srv1) i" using res by auto
    with switchView_ok [where env = env and i = i, OF this(1)]
      wstep_trans [of "{e_newID env}" "(srv, u)" "(srv1, u)" "switchView env i (srv1, u)"]
      wstep_more [of "(srv1, u)" "switchView env i (srv1, u)" "{e_newID env}"]
    show ?thesis using run None by (simp add: open_project_def)
  next
    case (Some err)
    then show ?thesis using run res assms by (simp add: open_project_def)
  qed
qed

end
