(* ===== verification/TuiRun.thy ===== *)
theory TuiRun imports TuiLife begin

text \<open>
  Whole runs of one connection: every event the loop handles keeps the session
  machinery, the registries and the attach table consistent, keeps every session
  at its negotiated size, and keeps the view, the subscription and the attach
  record of the connection in agreement; and what a connection leaves behind.
\<close>

section \<open>Every event keeps the invariant\<close>

definition ui_inv :: "string set \<Rightarrow> ('t, 'u) world \<Rightarrow> bool" where
  "ui_inv D w \<longleftrightarrow> ready D w \<and> agrees D w"

definition good :: "string set \<Rightarrow> string set \<Rightarrow> ('t, 'u) world \<Rightarrow> ('t, 'u) world \<Rightarrow> bool" where
  "good D N w w' \<longleftrightarrow> (ui_inv D w \<longrightarrow> ui_inv D w' \<and> wstep N w w')"

lemma good_refl [intro, simp]: "good D N w w"
  by (simp add: good_def)

lemma good_trans: "good D N w w' \<Longrightarrow> good D N w' w'' \<Longrightarrow> good D N w w''"
  unfolding good_def by (blast intro: wstep_trans)

lemma good_more: "good D {} w w' \<Longrightarrow> good D N w w'"
  unfolding good_def by (blast intro: wstep_more)

lemma good_core: "fst w' = fst w \<Longrightarrow> core (snd w') = core (snd w) \<Longrightarrow> good D N w w'"
  using core_same [of w' w] by (simp add: good_def ui_inv_def)

lemma good_after: "good D N w w' \<Longrightarrow> fst w'' = fst w' \<Longrightarrow> core (snd w'') = core (snd w') \<Longrightarrow> good D N w w''"
  by (rule good_trans [OF _ good_core])

lemma core_simps [simp]:
  "core (snd (set_mode m w)) = core (snd w)" "core (snd (startOverlay env ov w)) = core (snd w)"
  "core (snd (toggleSidebar w)) = core (snd w)" "core (snd (closeOverlay w)) = core (snd w)"
  "core (snd (edit_overlay f w)) = core (snd w)" "core (u\<lparr>u_bar := bar\<rparr>) = core u"
  "core (u\<lparr>u_redraw := b\<rparr>) = core u" "core (u\<lparr>u_size := z, u_scr := xy\<rparr>) = core u"
  by (simp_all add: core_def set_mode_def startOverlay_def toggleSidebar_def closeOverlay_def edit_overlay_def
      forceFullRepaint_def signalRedraw_def split: prod.split)

lemma selectSession_good: "good D {} w (selectSession env i w)"
  by (cases w) (simp add: good_def ui_inv_def selectSession_ok [where D = D])

lemma open_project_good: "env_ok env (set (ids (srv_sessions (fst w)))) \<Longrightarrow> good D {e_newID env} w (open_project env p w)"
  by (cases w) (simp add: good_def ui_inv_def open_project_ok [where D = D])

text \<open>Changes of one part of the server.\<close>

lemma registry_good:
  assumes "\<And>r d. reg_wf r \<Longrightarrow> reg_wf (fst (snd (f r d)))"
  shows "good D N w (on_registry f w)"
proof -
  obtain srv u where w: "w = (srv, u)" by (cases w)
  obtain e r fs where f: "f (srv_hosts srv) (srv_disk srv) = (e, r, fs)"
    by (cases "f (srv_hosts srv) (srv_disk srv)") auto
  have "on_registry f w = (srv\<lparr>srv_hosts := r, srv_disk := fs\<rparr>, u)" by (simp add: w on_registry_def f)
  moreover have "reg_wf (srv_hosts srv) \<Longrightarrow> reg_wf r" using assms [of "srv_hosts srv" "srv_disk srv"] f by simp
  ultimately show ?thesis
    by (simp add: good_def ui_inv_def ready_def agrees_def wstep_def foreign_def srv_ok_def rsized_def w)
qed

lemma sessions_good:
  assumes "mgr_reach (srv_sessions srv) \<Longrightarrow> mgr_keeps {} {} {} (srv_sessions srv) m"
  shows "good D N (srv, u) (srv\<lparr>srv_sessions := m\<rparr>, u)"
proof (unfold good_def, rule impI)
  assume i: "ui_inv D (srv, u)"
  then have ok: "srv_ok srv" by (simp add: ui_inv_def ready_def)
  then have keep: "mgr_keeps {} {} {} (srv_sessions srv) m" using assms by (simp add: srv_ok_def)
  have "agrees D (srv\<lparr>srv_sessions := m\<rparr>, u)"
    using i idle_kept [OF keep] keep by (auto simp: ui_inv_def agrees_def known_def mgr_keeps_def)
  moreover have "wstep N (srv, u) (srv\<lparr>srv_sessions := m\<rparr>, u)"
    by (rule wstep_more, rule wstep_keeps [where T = "{}"]) (simp_all add: keep)
  ultimately show "ui_inv D (srv\<lparr>srv_sessions := m\<rparr>, u) \<and> wstep N (srv, u) (srv\<lparr>srv_sessions := m\<rparr>, u)"
    using i sessions_kept [OF ok keep] by (simp add: ui_inv_def ready_def)
qed

lemma write_good: "good D N w (write_view bs w)"
  by (cases w) (auto simp: write_view_def intro!: sessions_good Write_keeps)

lemma session_step_good: "good D N w (session_step a w)"
proof -
  obtain srv u where w: "w = (srv, u)" by (cases w)
  show ?thesis
  proof (cases "background a")
    case True
    then have "quiet a" by (cases a rule: background.cases) (auto simp: quiet_def)
    then show ?thesis
      by (auto simp: w session_step_def simp del: sm_step.simps split: outcome.split
          intro!: sessions_good quiet_keeps)
  qed (simp add: session_step_def w)
qed

lemma run_submit_good: "good D N w (run_submit sub q w)"
proof (cases sub)
  case (SubmitTitle i)
  obtain srv u where w: "w = (srv, u)" by (cases w)
  have "good D N w (srv\<lparr>srv_sessions := snd (manager_Rename (srv_sessions srv) i (trim_space q))\<rparr>, u)"
    unfolding w by (intro sessions_good Rename_keeps)
  then show ?thesis by (rule good_after) (simp_all add: SubmitTitle run_submit_def w)
next
  case (SubmitDeviceName i)
  have "good D N w (on_registry (\<lambda>r. SetName r i (trim_space q)) w)"
    by (rule registry_good) (metis name.setter_wf prod.collapse)
  then show ?thesis by (rule good_after) (simp_all add: SubmitDeviceName run_submit_def)
next
  case (SubmitHome i)
  have "good D N w (on_registry (\<lambda>r. SetHome r i cfg) w)" for cfg
    by (rule registry_good) (metis home.setter_wf prod.collapse)
  then show ?thesis by (rule good_after) (simp_all add: SubmitHome run_submit_def Let_def)
qed

lemma run_action_good:
  assumes "env_ok env (set (ids (srv_sessions (fst w))))"
  shows "good D {e_newID env} w (run_action env act w)"
proof (cases act)
  case (DoOpenProject p)
  then show ?thesis using open_project_good [OF assms] by (simp add: run_action_def)
next
  case (DoJump i)
  then show ?thesis using good_more [OF selectSession_good] by (simp add: run_action_def)
next
  case (DoColor i c)
  have "good D {e_newID env} w (on_registry (\<lambda>r. SetColor r i c) w)"
    by (rule registry_good) (metis color.setter_wf prod.collapse)
  then show ?thesis by (rule good_after) (simp_all add: DoColor run_action_def applyDeviceColor_def)
qed (auto intro!: good_core simp: run_action_def)

lemma selectOverlay_good:
  assumes "env_ok env (set (ids (srv_sessions (fst w))))"
  shows "good D {e_newID env} w (selectOverlay env w)"
proof -
  have close: "good D {e_newID env} w (closeOverlay w)" by (rule good_core) simp_all
  show ?thesis
    using close good_trans [OF close run_submit_good] good_trans [OF close run_action_good] assms
    by (auto simp: selectOverlay_def split: option.split)
qed

lemma clicks_good: "good D N w (foldl (\<lambda>w c. run_click env c w) w clicks)"
proof (induction clicks arbitrary: w)
  case Nil
  then show ?case by simp
next
  case (Cons c clicks)
  have "good D N w (run_click env c w)"
    using good_more [OF selectSession_good] good_core [of "toggleSidebar w" w D] by (cases c) (simp_all add: run_click_def)
  from good_trans [OF this Cons.IH] show ?case by simp
qed

lemma handleEvent_good:
  assumes "env_ok env (set (ids (srv_sessions (fst w))))"
  shows "good D {e_newID env} w (snd (handleEvent env ev w))"
proof (cases "u_mode (snd w)")
  case modeStream
  obtain c clicks bar where m: "routeMouse (e_btn env) ev (u_bar (snd w)) = (c, clicks, bar)"
    by (cases "routeMouse (e_btn env) ev (u_bar (snd w))") auto
  have "good D {e_newID env} w (fst w, (snd w)\<lparr>u_bar := bar\<rparr>)" by (rule good_core) simp_all
  from good_trans [OF this clicks_good] have
    "good D {e_newID env} w (foldl (\<lambda>w c. run_click env c w) (fst w, (snd w)\<lparr>u_bar := bar\<rparr>) clicks)" .
  from this good_after [OF this] show ?thesis
    using modeStream write_good [of D "{e_newID env}" w "encode ev"] good_core [of "set_mode modePrefix w" w D]
    by (auto simp: handleEvent_def streamEvent_def m Let_def)
next
  case modePrefix
  have mode: "good D {e_newID env} w (set_mode modeStream w)" by (rule good_core) simp_all
  have "core (snd (opener (set_mode modeStream w))) = core (snd w) \<and> fst (opener (set_mode modeStream w)) = fst w"
    if "opener \<in> {openPicker env, openList env, openRename env, openDevices env, toggleSidebar}" for opener
    using that by (auto simp: opener_defs)
  then have "good D {e_newID env} w (opener (set_mode modeStream w))"
    if "opener \<in> {openPicker env, openList env, openRename env, openDevices env, toggleSidebar}" for opener
    using that by (intro good_core) auto
  then show ?thesis
    using modePrefix mode good_trans [OF mode write_good] by (auto simp: handleEvent_def prefixEvent_def Let_def)
next
  case modeOverlay
  have "good D {e_newID env} w (overlayEvent env ev w)"
    using selectOverlay_good [OF assms]
    by (auto simp: overlayEvent_def intro!: good_core split: option.split KeyType.split)
  then show ?thesis using modeOverlay by (simp add: handleEvent_def)
qed

lemma resize_good:
  assumes "0 < cols" "0 < rows"
  shows "good D N w (onPaneResize cols rows w)"
proof (unfold good_def, rule impI)
  assume i: "ui_inv D w"
  obtain srv u where w: "w = (srv, u)" by (cases w)
  obtain srv1 u1 where run: "onPaneResize cols rows (srv, u) = (srv1, u1)" by fastforce
  obtain cl :: Client where att: "attach_Get (srv_clients srv) (u_id u) = Some cl"
    using i by (auto simp: ui_inv_def ready_def w)
  note s = size_step [OF _ att _ _ _ run assms, of D]
  show "ui_inv D (onPaneResize cols rows w) \<and> wstep N w (onPaneResize cols rows w)"
    using i att s wstep_more [of "(srv, u)" "(srv1, u)" N]
    by (auto simp: ui_inv_def ready_def agrees_def w run known_def wstep_def)
qed

lemma layout_good: "good D N w (layout_pane env r w)"
proof -
  obtain srv u where w: "w = (srv, u)" by (cases w)
  obtain x y pw ph where r: "r = (x, y, pw, ph)" by (cases r)
  obtain p cb where l: "pane_Layout (e_term env) x y pw ph (u_pane u) = (p, cb)" by fastforce
  have pos: "0 < PaneW (u_pane u) \<and> 0 < PaneH (u_pane u) \<Longrightarrow> 0 < PaneW p \<and> 0 < PaneH p"
    and cb: "cb = Some (cols, rows) \<Longrightarrow> 0 < cols \<and> 0 < rows" for cols rows
    using l by (auto simp: pane_Layout_def Let_def split: if_splits)
  have first: "good D N w (srv, u\<lparr>u_pane := p\<rparr>)"
    using pos by (auto simp: good_def ui_inv_def ready_def agrees_def wstep_def foreign_def w)
  show ?thesis
    using first good_trans [OF first resize_good] cb by (auto simp: layout_pane_def w r l split: option.split)
qed

lemma render_good: "good D N w (render env w)"
proof -
  obtain srv u where w: "w = (srv, u)" by (cases w)
  define bar where "bar = rebuild (e_btn env) (deviceColor (srv_hosts srv)) (Some (deviceName (srv_hosts srv)))
               (manager_List (srv_sessions srv)) (u_viewing u) (u_bar u)"
  define w1 where "w1 = layout_pane env (e_layout env (BarWidth bar) (u_scr u)) (srv, u\<lparr>u_bar := bar\<rparr>)"
  have "good D N w (srv, u\<lparr>u_bar := bar\<rparr>)" by (rule good_core) (simp_all add: w)
  from good_trans [OF this layout_good] have "good D N w w1" by (simp add: w1_def)
  then have "good D N w (on_pane (\<lambda>p. snd (Render (e_term env) p)) w1)"
    by (rule good_after) (simp_all add: on_pane_def core_def Render_def split: prod.split)
  moreover have "render env w = (if u_mode u = modeOverlay then w else on_pane (\<lambda>p. snd (Render (e_term env) p)) w1)"
    by (simp add: render_def w Let_def bar_def w1_def)
  ultimately show ?thesis by simp
qed

lemma firstRunning_known: "mgr_reach (srv_sessions srv) \<Longrightarrow> firstRunning srv = Some i \<Longrightarrow> known (srv_sessions srv) i"
  using List_running(2) by (auto simp: firstRunning_def)

lemma switchView_good: "known (srv_sessions (fst w)) i \<Longrightarrow> good D {} w (switchView env i w)"
  using switchView_ok [where D = D and env = env and i = i and w = w] by (simp add: good_def ui_inv_def)

lemma stopped_good: "good D {} w (onViewStopped env w)"
proof (unfold good_def, rule impI)
  assume i: "ui_inv D w"
  obtain srv u where w: "w = (srv, u)" by (cases w)
  obtain cl :: Client where att: "attach_Get (srv_clients srv) (u_id u) = Some cl"
    using i by (auto simp: ui_inv_def ready_def w)
  have known: "known (srv_sessions srv) (Viewing cl)" and reach: "mgr_reach (srv_sessions srv)"
    using i att by (auto simp: ui_inv_def agrees_def ready_def srv_ok_def w)
  show "ui_inv D (onViewStopped env w) \<and> wstep {} w (onViewStopped env w)"
  proof (cases "Viewing cl \<noteq> '''' \<and> Viewing cl \<noteq> u_viewing u")
    case True
    then show ?thesis
      using switchView_good [of w "Viewing cl" D env] known i by (simp add: onViewStopped_def w att good_def)
  next
    case False
    show ?thesis
    proof (cases "firstRunning srv")
      case (Some j)
      then have "onViewStopped env w = switchView env j w" using False by (auto simp: onViewStopped_def w att)
      then show ?thesis
        using switchView_good [of w j D env] firstRunning_known [OF reach Some] i by (simp add: w good_def)
    next
      case None
      then have "\<forall>i s. manager_Get (srv_sessions srv) i = Some s \<longrightarrow> SessState s \<noteq> StateRunning"
        using List_running(1) [OF reach] by (simp add: firstRunning_def)
      then have "idle (srv_sessions srv) (Viewing cl)" using known by (auto simp: idle_def known_def)
      then have "agrees D (signalRedraw (srv, u\<lparr>u_viewing := ''''\<rparr>))"
        using att known by (simp add: agrees_def signalRedraw_def)
      moreover have "ready D (signalRedraw (srv, u\<lparr>u_viewing := ''''\<rparr>))" "wstep {} w (signalRedraw (srv, u\<lparr>u_viewing := ''''\<rparr>))"
        using i by (simp_all add: ui_inv_def ready_def signalRedraw_def wstep_def foreign_def w)
      moreover have "onViewStopped env w = signalRedraw (srv, u\<lparr>u_viewing := ''''\<rparr>)"
        using False None by (auto simp: onViewStopped_def w att)
      ultimately show ?thesis by (simp add: ui_inv_def)
    qed
  qed
qed

lemma stream_good: "good D {} w (stream_event env ev w)"
proof (cases "EvStopped ev")
  case True
  then show ?thesis using stopped_good by (simp add: stream_event_def)
next
  case False
  then show ?thesis
    by (auto simp: stream_event_def on_pane_def feed_def core_def signalRedraw_def intro!: good_core split: prod.split)
qed

lemma ui_step_good:
  assumes "env_ok env (set (ids (srv_sessions (fst w))))"
  shows "good D {e_newID env} w (snd (ui_step env ev w))"
proof (cases ev)
  case (UiKey k)
  obtain quit w1 where k: "handleEvent env k w = (quit, w1)" by (rule prod.exhaust)
  then show ?thesis
    using handleEvent_good [OF assms, of D k] good_trans [OF handleEvent_good [OF assms, of D k] render_good] UiKey
    by simp
next
  case (UiResize sz)
  have "good D {e_newID env} w (handleResize sz w)"
    by (rule good_core) (auto simp: handleResize_def split: prod.split)
  from good_trans [OF this render_good] show ?thesis by (simp add: UiResize)
next
  case UiRedraw
  have "good D {e_newID env} w (fst w, (snd w)\<lparr>u_redraw := False\<rparr>)" by (rule good_core) simp_all
  from good_trans [OF this render_good] show ?thesis by (cases w) (simp add: UiRedraw)
next
  case (UiStream e)
  then show ?thesis using good_more [OF stream_good] by simp
next
  case (UiSession a)
  then show ?thesis using session_step_good by simp
qed

section \<open>The loop\<close>

text \<open>The IDs drawn while the interface is attached are new each time.\<close>

fun envs_ok :: "string set \<Rightarrow> ('t, 'u) tui_env list \<Rightarrow> bool" where
  "envs_ok used [] = True"
| "envs_ok used (env # envs) = (env_ok env used \<and> envs_ok (insert (e_newID env) used) envs)"

lemma env_ok_less: "env_ok env used \<Longrightarrow> A \<subseteq> used \<Longrightarrow> env_ok env A"
  by (auto simp: env_ok_def)

lemma good_ids:
  "good D {e_newID env} w w' \<Longrightarrow> ui_inv D w \<Longrightarrow> set (ids (srv_sessions (fst w))) \<subseteq> used \<Longrightarrow>
   set (ids (srv_sessions (fst w'))) \<subseteq> insert (e_newID env) used"
  by (auto simp: good_def wstep_def)

definition stays :: "string set \<Rightarrow> ('t, 'u) world \<Rightarrow> ('t, 'u) world \<Rightarrow> bool" where
  "stays D w w' \<longleftrightarrow> ui_inv D w' \<and> foreign w' \<subseteq> foreign w \<and> u_id (snd w') = u_id (snd w) \<and>
     set (ids (srv_sessions (fst w))) \<subseteq> set (ids (srv_sessions (fst w')))"

lemma good_stays: "good D N w w' \<Longrightarrow> ui_inv D w \<Longrightarrow> stays D w w'"
  by (auto simp: good_def stays_def wstep_def)

lemma stays_trans: "stays D w w' \<Longrightarrow> stays D w' w'' \<Longrightarrow> stays D w w''"
  by (auto simp: stays_def)

lemma ui_loop_stays:
  "ui_inv D w \<Longrightarrow> set (ids (srv_sessions (fst w))) \<subseteq> used \<Longrightarrow> envs_ok used (map fst evs) \<Longrightarrow> stays D w (ui_loop evs w)"
proof (induction evs arbitrary: w used)
  case Nil
  then show ?case by (simp add: stays_def)
next
  case (Cons e evs)
  obtain env ev where e: "e = (env, ev)" by (cases e)
  obtain quit w1 where step: "ui_step env ev w = (quit, w1)" by (rule prod.exhaust)
  have "env_ok env (set (ids (srv_sessions (fst w))))"
    using Cons.prems env_ok_less by (auto simp: e)
  from ui_step_good [OF this, of D ev] have g: "good D {e_newID env} w w1" by (simp add: step)
  have first: "stays D w w1" by (rule good_stays [OF g Cons.prems(1)])
  show ?case
  proof (cases quit)
    case True
    then show ?thesis using first by (simp add: e step)
  next
    case False
    have "stays D w1 (ui_loop evs w1)"
      using Cons.IH [of w1 "insert (e_newID env) used"] good_ids [OF g Cons.prems(1,2)] first Cons.prems(3)
      by (simp add: e stays_def)
    then show ?thesis using False stays_trans [OF first] by (simp add: e step)
  qed
qed

lemma autoAttach_good:
  assumes "env_ok env (set (ids (srv_sessions (fst w))))"
  shows "good D {e_newID env} w (autoAttach env w)"
proof (cases "firstRunning (fst w)")
  case (Some i)
  show ?thesis
  proof (unfold good_def, rule impI)
    assume i: "ui_inv D w"
    then have "known (srv_sessions (fst w)) i"
      using firstRunning_known Some by (auto simp: ui_inv_def ready_def srv_ok_def)
    from good_more [OF switchView_good [OF this]] i
    show "ui_inv D (autoAttach env w) \<and> wstep {e_newID env} w (autoAttach env w)"
      by (simp add: autoAttach_def Some good_def)
  qed
next
  case None
  then show ?thesis using open_project_good [OF assms] by (auto simp: autoAttach_def split: option.split)
qed

lemma start_good:
  assumes "env_ok env (set (ids (srv_sessions srv)))"
  shows "good D {e_newID env} (srv, new_ui env i sz) (ui_start env i sz srv)"
proof -
  let ?w = "(srv, new_ui env i sz)"
  have build: "good D N ?w (buildTree env ?w)" for N
    unfolding buildTree_def Let_def by (simp only: layout_good good_refl split: if_split) simp
  have "good D {e_newID env} ?w (autoAttach env (buildTree env ?w))"
  proof (unfold good_def, rule impI)
    assume w: "ui_inv D ?w"
    have b: "ui_inv D (buildTree env ?w)" "wstep {} ?w (buildTree env ?w)"
      using build [of "{}"] w by (simp_all add: good_def)
    then have "set (ids (srv_sessions (fst (buildTree env ?w)))) = set (ids (srv_sessions srv))"
      by (auto simp: wstep_def)
    then have "good D {e_newID env} (buildTree env ?w) (autoAttach env (buildTree env ?w))"
      using autoAttach_good [of env "buildTree env ?w"] assms by simp
    from good_trans [OF build this] w
    show "ui_inv D (autoAttach env (buildTree env ?w)) \<and> wstep {e_newID env} ?w (autoAttach env (buildTree env ?w))"
      by (simp add: good_def)
  qed
  from good_trans [OF this render_good] show ?thesis by (simp add: ui_start_def)
qed

text \<open>A newcomer views nothing, so it changes no negotiation.\<close>

lemma Attach_negotiated:
  assumes ok: "att_ok a" and run: "attach_Attach a c = (None, a')" and "Viewing c \<noteq> s"
  shows "NegotiatedSize a' s policy = NegotiatedSize a s policy"
proof (rule negotiated_cong)
  have new: "gm_get (at_clients a) (ClientID c) = None" "a' = a\<lparr>at_clients := gm_put (ClientID c) c (at_clients a)\<rparr>"
    using run by (auto simp: attach_Attach_def split: if_splits option.splits)
  show "att_ok a'" using att_ok_Attach [OF ok, of c] run by simp
  show "at_driver a' = at_driver a" using new by simp
  show "viewing_at a' s = viewing_at a s"
    using new assms(3) by (auto simp: viewing_at_def attach_Get_def gomap_simps fun_eq_iff split: option.split)
qed (rule ok)

lemma attached_inv:
  assumes "srv_ok srv" "\<And>j. j \<notin> D \<Longrightarrow> rsized srv j" and D: "'''' \<in> D"
    and run: "attach_Attach (srv_clients srv) \<lparr>ClientID = i, Interface = iface, Viewing = '''', ClientSize = z\<rparr> = (None, a)"
  shows "ui_inv D (srv\<lparr>srv_clients := a\<rparr>, new_ui env i sz)" (is "ui_inv D (?srv, _)")
proof -
  have get: "attach_Get a i = Some \<lparr>ClientID = i, Interface = iface, Viewing = '''', ClientSize = z\<rparr>"
    using run by (auto simp: attach_Attach_def attach_Get_def gomap_simps split: if_splits option.splits)
  have ok: "srv_ok ?srv" using assms(1) att_ok_Attach run by (auto simp: srv_ok_def) (metis snd_conv)
  have "rsized ?srv j" if "j \<notin> D" for j
  proof -
    have "j \<noteq> ''''" using that D by auto
    then show ?thesis
      using assms(2) [OF that] Attach_negotiated [OF _ run, of j] assms(1) by (simp add: rsized_def srv_ok_def)
  qed
  then show ?thesis using ok get D by (simp add: ui_inv_def ready_def agrees_def new_ui_def newPane_def known_def)
qed

section \<open>Whole connections\<close>

lemma Handle_runs:
  assumes "Handle env i iface first evs srv = (True, srv')"
  obtains sz z a where
    "attach_Attach (srv_clients srv) \<lparr>ClientID = i, Interface = iface, Viewing = '''', ClientSize = z\<rparr> = (None, a)"
    "srv' = ui_end (ui_loop evs (ui_start env i sz (srv\<lparr>srv_clients := a\<rparr>)))"
  using assms by (auto simp: Handle_def Let_def split: prod.splits option.splits if_splits)

lemma run_stays:
  assumes "srv_ok srv" "\<And>j. j \<notin> D \<Longrightarrow> rsized srv j" and D: "'''' \<in> D"
    and run: "attach_Attach (srv_clients srv) \<lparr>ClientID = i, Interface = iface, Viewing = '''', ClientSize = z\<rparr> = (None, a)"
    and envs: "envs_ok (set (ids (srv_sessions srv))) (env # map fst evs)"
  shows "stays D (srv\<lparr>srv_clients := a\<rparr>, new_ui env i sz) (ui_loop evs (ui_start env i sz (srv\<lparr>srv_clients := a\<rparr>)))"
    (is "stays D ?w (ui_loop evs ?w1)")
proof -
  have w: "ui_inv D ?w" by (rule attached_inv [OF assms(1,2) D run])
  have g: "good D {e_newID env} ?w ?w1" using envs by (intro start_good) simp
  have first: "stays D ?w ?w1" by (rule good_stays [OF g w])
  have "set (ids (srv_sessions (fst ?w1))) \<subseteq> insert (e_newID env) (set (ids (srv_sessions srv)))"
    using good_ids [OF g w] by simp
  with first envs have "stays D ?w1 (ui_loop evs ?w1)"
    by (intro ui_loop_stays) (auto simp: stays_def)
  with first show ?thesis by (rule stays_trans)
qed

lemma end_clean:
  assumes "ready D (srv, u)"
  shows "srv_ok (ui_end (srv, u)) \<and> attach_Get (srv_clients (ui_end (srv, u))) (u_id u) = None \<and>
    live_subs (srv_sessions (ui_end (srv, u))) \<subseteq> foreign (srv, u) \<and>
    set (ids (srv_sessions srv)) \<subseteq> set (ids (srv_sessions (ui_end (srv, u))))"
proof -
  obtain srv1 u1 where stop: "stopSub (srv, u) = (srv1, u1)" by (rule prod.exhaust)
  have ok: "srv_ok srv" using assms by (simp add: ready_def)
  have keep: "mgr_keeps {} {} (sub_of (u_sub u)) (srv_sessions srv) (srv_sessions srv1)" "wstep {} (srv, u) (srv1, u1)"
    and "srv1 = srv\<lparr>srv_sessions := srv_sessions srv1\<rparr>" and u1: "u1 = u\<lparr>u_sub := None\<rparr>"
    using stopSub_step [OF ok stop] by auto
  then obtain m where srv1: "srv1 = srv\<lparr>srv_sessions := m\<rparr>" by blast
  have "att_ok (snd (attach_Detach (srv_clients srv) (u_id u)))"
    using ok att_ok_Detach by (simp add: srv_ok_def)
  moreover have "attach_Get (snd (attach_Detach (srv_clients srv) (u_id u))) (u_id u) = None"
    by (auto simp: attach_Detach_def attach_Get_def gomap_simps split: option.split)
  moreover have "mgr_reach m" using keep(1) by (simp add: srv1 mgr_keeps_def)
  ultimately show ?thesis
    using ok keep(2) by (auto simp: ui_end_def stop srv1 u1 srv_ok_def wstep_def foreign_def sub_of_def)
qed


text \<open>A connection leaves nothing behind.  When \<open>Handle\<close> returns, its client is gone from the attach
table, every subscription it opened has been cancelled, the server is consistent, and every session
that existed before still does: detaching ends no session.  A connection whose client ID is refused
changes nothing.\<close>

theorem Handle_leaves_nothing:
  assumes "srv_ok srv" "\<forall>j. j \<noteq> '''' \<longrightarrow> rsized srv j"
    and "envs_ok (set (ids (srv_sessions srv))) (env # map fst evs)"
    and "Handle env i iface first evs srv = (started, srv')"
  shows "if started then srv_ok srv' \<and> attach_Get (srv_clients srv') i = None \<and>
      live_subs (srv_sessions srv') \<subseteq> live_subs (srv_sessions srv) \<and>
      set (ids (srv_sessions srv)) \<subseteq> set (ids (srv_sessions srv'))
    else srv' = srv"
proof (cases started)
  case True
  with assms(4) obtain sz z a where
    run: "attach_Attach (srv_clients srv) \<lparr>ClientID = i, Interface = iface, Viewing = '''', ClientSize = z\<rparr> = (None, a)"
    and e: "srv' = ui_end (ui_loop evs (ui_start env i sz (srv\<lparr>srv_clients := a\<rparr>)))" by (auto elim: Handle_runs)
  obtain srv1 u where w: "ui_loop evs (ui_start env i sz (srv\<lparr>srv_clients := a\<rparr>)) = (srv1, u)" by (rule prod.exhaust)
  have "stays {''''} (srv\<lparr>srv_clients := a\<rparr>, new_ui env i sz) (srv1, u)"
    using run_stays [OF assms(1) _ _ run assms(3), of "{''''}" sz] assms(2) by (simp add: w)
  then have "ready {''''} (srv1, u)" "u_id u = i" "foreign (srv1, u) \<subseteq> live_subs (srv_sessions srv)"
    "set (ids (srv_sessions srv)) \<subseteq> set (ids (srv_sessions srv1))"
    by (auto simp: stays_def ui_inv_def new_ui_def foreign_def sub_of_def)
  with end_clean [of "{''''}" srv1 u] True show ?thesis by (auto simp: e w)
next
  case False
  then show ?thesis using assms(4) by (auto simp: Handle_def Let_def split: prod.splits option.splits if_splits)
qed
text \<open>A server where a client views nothing yet, and an hour of another connection: a key, the prefix,
  and the detach command.\<close>

lemma demo_unviewed: "j \<noteq> [] \<Longrightarrow> NegotiatedSize (srv_clients demo_srv) j p = None"
proof -
  assume j: "j \<noteq> []"
  let ?c = "\<lparr>ClientID = ''c'', Interface = [], Viewing = [], ClientSize = \<lparr>Rows = 40, Cols = 100\<rparr>\<rparr>"
  have "attach_Attach NewAttachments ?c = (None, srv_clients demo_srv)" by code_simp
  from Attach_negotiated [OF att_ok_new this, of j] j
  have "NegotiatedSize (srv_clients demo_srv) j p = NegotiatedSize NewAttachments j p" by simp
  also have "\<dots> = None"
    by (simp add: NegotiatedSize_def NewAttachments_def smallest_def driver_size_def attach_List_def)
  finally show ?thesis .
qed

lemma demo_rsized: "\<forall>j. j \<noteq> [] \<longrightarrow> rsized demo_srv j"
  by (simp add: rsized_def demo_unviewed)

definition demo_moments :: "((unit, unit) tui_env \<times> ui_event) list" where
  "demo_moments = [(demo_env\<lparr>e_newID := ''n1''\<rparr>, UiKey (plain_key 120)), (demo_env\<lparr>e_newID := ''n2''\<rparr>, UiKey (ctrl_key 68)),
     (demo_env\<lparr>e_newID := ''n3''\<rparr>, UiKey (plain_key 100))]"

lemma demo_moments_ok: "envs_ok (set (ids (srv_sessions demo_srv))) (demo_env # map fst demo_moments)"
proof -
  have "ids (srv_sessions demo_srv) = [''a'']" by code_simp
  then show ?thesis using pty_ok_new by (simp add: demo_moments_def demo_env_def env_ok_def)
qed


theorem Handle_leaves_nothing_witness:
  "attach_Get (srv_clients (snd (Handle demo_env ''d'' ''cli'' None demo_moments demo_srv))) ''d'' = None"
proof -
  let ?a = "attach_Attach (srv_clients demo_srv) \<lparr>ClientID = ''d'', Interface = ''cli'', Viewing = '''',
      ClientSize = paneSizeForWindow \<lparr>Rows = 24, Cols = 80\<rparr> sidebarWidth\<rparr>"
  have "fst ?a = None" by code_simp
  then have "?a = (None, snd ?a)" by (simp add: prod_eq_iff)
  then obtain a where "?a = (None, a)" by blast
  then have "fst (Handle demo_env ''d'' ''cli'' None demo_moments demo_srv)"
    by (simp add: Handle_def)
  then show ?thesis
    using Handle_leaves_nothing [OF demo_srv_ok demo_rsized demo_moments_ok surjective_pairing
        [of "Handle demo_env ''d'' ''cli'' None demo_moments demo_srv"]] by simp
qed

text \<open>Leaving does not renegotiate.  A client with a 40 by 100 pane views session \<open>a\<close>, alone, and
the session has that size; a second one attaches from a 24 by 80 terminal, which shrinks the session
to 24 by 54, and detaches.  The size negotiated between the viewers is 40 by 100 again, and the
session stays at 24 by 54, because the deferred \<open>Detach\<close> of \<open>Handle\<close> is followed by no resize.\<close>

theorem detach_keeps_small_size:
  "(let srv = snd (Jump demo_srv ''c'' ''a''); srv' = snd (Handle demo_env ''d'' ''cli'' None (tl demo_moments) srv)
    in map_option SessSize (manager_Get (srv_sessions srv) ''a'') = Some \<lparr>Rows = 40, Cols = 100\<rparr> \<and>
       NegotiatedSize (srv_clients srv') ''a'' (CfgResizePolicy (srv_cfg srv')) = Some \<lparr>Rows = 40, Cols = 100\<rparr> \<and>
       map_option SessSize (manager_Get (srv_sessions srv') ''a'') = Some \<lparr>Rows = 24, Cols = 54\<rparr>)"
  by code_simp

end
