(* ===== verification/TuiView.thy ===== *)
theory TuiView imports TuiRun begin

text \<open>
  What a viewer sees: the goroutine that \<open>switchView\<close> starts (\<open>streamPump\<close> of
  \<open>internal/tui/tui.go\<close>), turn by turn, between the session's channel and the terminal emulator.
  Without a race the pane is fed the session's output, whole and in order; three theorems at the
  end say where the code shows or keeps something else: a chunk on its way during a switch, what a
  cancelled channel still holds, and two switches that overlap.
\<close>

section \<open>The goroutine behind a view\<close>

text \<open>One turn of \<open>streamPump\<close> on the channel \<open>c\<close> of the session at \<open>p\<close>: it waits, it goes on with
  the loop, or it returns, because a \<open>Stopped\<close> event came or the channel is closed and empty.\<close>

datatype 'w pump_turn = PumpWaits | PumpReturns 'w | PumpContinues 'w

definition chan_at :: "nat \<Rightarrow> nat \<Rightarrow> manager \<Rightarrow> chan" where
  "chan_at p c m = ls_chans (m_heap m ! p) ! c"

definition streamPump :: "('t, 'u) tui_env \<Rightarrow> nat \<Rightarrow> nat \<Rightarrow> ('t, 'u) world \<Rightarrow> ('t, 'u) world pump_turn" where
  "streamPump env p c w =
    (case w of (srv, u) \<Rightarrow>
       (case sm_step (OnLive p (LRecv c)) (srv_sessions srv) of
          Next m \<Rightarrow>
            let w1 = (srv\<lparr>srv_sessions := m\<rparr>, u) in
            (case ch_queue (chan_at p c (srv_sessions srv)) of
               [] \<Rightarrow> PumpReturns w1
             | ev # _ \<Rightarrow> if EvStopped ev then PumpReturns (stream_event env ev w1)
                 else PumpContinues (stream_event env ev w1))
        | _ \<Rightarrow> PumpWaits))"

text \<open>A view between two calls of \<open>switchView\<close>: steps of the sessions and turns of the pump, which
  alone reads its channel.  The run is cut off (\<open>None\<close>) where the pump waits or returns.\<close>

datatype view_event = ViewSession sm_action | ViewTurn

fun view_step :: "('t, 'u) tui_env \<Rightarrow> nat \<Rightarrow> nat \<Rightarrow> view_event \<Rightarrow> ('t, 'u) world \<Rightarrow> ('t, 'u) world option" where
  "view_step env p c (ViewSession a) w = (if a = OnLive p (LRecv c) then None else Some (session_step a w))"
| "view_step env p c ViewTurn w = (case streamPump env p c w of PumpContinues w1 \<Rightarrow> Some w1 | _ \<Rightarrow> None)"

fun view_run :: "('t, 'u) tui_env \<Rightarrow> nat \<Rightarrow> nat \<Rightarrow> view_event list \<Rightarrow> ('t, 'u) world \<Rightarrow> ('t, 'u) world option" where
  "view_run env p c [] w = Some w"
| "view_run env p c (e # es) w = Option.bind (view_step env p c e w) (view_run env p c es)"

section \<open>What a step keeps of a channel\<close>

text \<open>The parts of a session that its output goes through.\<close>

definition flow :: "liveSession \<Rightarrow> ringScrollback \<times> reader_pc \<times> byte list list \<times> byte list list \<times> bool \<times>
    (nat, nat) gomap \<times> nat \<times> chan list" where
  "flow ls = (ls_sb ls, ls_reader ls, ls_log ls, ls_sent ls, ls_closed ls, ls_subs ls, ls_nextSub ls, ls_chans ls)"

definition flows where
  "flows m = (m_sessions m, map flow (m_heap m))"

lemma flows_live: "flows m = flows m' \<Longrightarrow> m_sessions m = m_sessions m' \<and> length (m_heap m) = length (m_heap m') \<and>
    (p < length (m_heap m) \<longrightarrow> flow (m_heap m ! p) = flow (m_heap m' ! p))"
  unfolding flows_def by (metis length_map nth_map prod.inject)

lemma Resize_flows: "flows (snd (manager_Resize m i sz)) = flows m"
proof (cases "lookup m i")
  case (Inr p)
  obtain b pty where run: "pty_Resize (ls_pty (m_heap m ! p)) sz = (b, pty)" by fastforce
  have "map flow ((m_heap m)[p := f (m_heap m ! p)]) = map flow (m_heap m)"
    if "\<And>ls. flow (f ls) = flow ls" for f
    using that by (cases "p < length (m_heap m)") (simp_all add: map_update list_update_same_conv list_update_beyond)
  from this [of "\<lambda>ls. ls\<lparr>ls_rec := (ls_rec ls)\<lparr>SessSize := sz\<rparr>, ls_pty := pty\<rparr>"] show ?thesis
    using run Inr by (simp add: manager_Resize_def flows_def upd_live_def flow_def)
qed (simp add: manager_Resize_def)

lemma resize_flows [simp]: "flows (srv_sessions (resizeSessionToNegotiated i srv)) = flows (srv_sessions srv)"
  by (simp add: resizeSessionToNegotiated_def Resize_flows split: option.split)

lemma Scrollback_flows: "flows m = flows m' \<Longrightarrow> (\<And>j p. gm_get (m_sessions m) j = Some p \<Longrightarrow> p < length (m_heap m)) \<Longrightarrow>
    manager_Scrollback m i = manager_Scrollback m' i"
  using flows_live [of m m']
  by (auto simp: manager_Scrollback_def lookup_def flow_def split: option.split)

lemma viewing_flows: "flows (srv_sessions (fst (setClientViewing i w))) = flows (srv_sessions (fst w))"
  "snd (setClientViewing i w) = snd w"
  by (simp_all add: setClientViewing_def Let_def split: prod.split)

lemma report_flows: "flows (srv_sessions (fst (report_size w))) = flows (srv_sessions (fst w))"
  "snd (report_size w) = snd w"
  by (simp_all add: report_size_def onPaneResize_def Let_def split: prod.split)

text \<open>What a switch comes down to: cancel, subscribe, a fresh emulator, the scrollback.\<close>

lemma switchView_flow:
  assumes run: "stopSub (srv, u) = (srv1, u1)" "subscribe_view i (srv1, u1) = (srv2, u2)"
    and idx: "\<And>j p. gm_get (m_sessions (srv_sessions srv2)) j = Some p \<Longrightarrow> p < length (m_heap (srv_sessions srv2))"
    and w: "switchView env i (srv, u) = (srv', u')"
  shows "flows (srv_sessions srv') = flows (srv_sessions srv2) \<and> u_sub u' = u_sub u2 \<and> u_viewing u' = u_viewing u2 \<and>
    PaneTerm (u_pane u') = (case manager_Scrollback (srv_sessions srv2) i of
        Some bs \<Rightarrow> TermWrite (e_term env) (TermNew (e_term env) (PaneW (u_pane u2)) (PaneH (u_pane u2))) bs
      | None \<Rightarrow> TermNew (e_term env) (PaneW (u_pane u2)) (PaneH (u_pane u2)))"
proof -
  define w3 where "w3 = setClientViewing i (srv2, u2)"
  define w4 where "w4 = report_size (on_pane (reset (e_term env)) w3)"
  have w4: "flows (srv_sessions (fst w4)) = flows (srv_sessions srv2)"
      "snd w4 = u2\<lparr>u_pane := reset (e_term env) (u_pane u2)\<rparr>"
    using viewing_flows [of i "(srv2, u2)"]
    by (simp_all add: w4_def report_flows on_pane_def w3_def case_prod_beta)
  moreover have "manager_Scrollback (srv_sessions (fst w4)) i = manager_Scrollback (srv_sessions srv2) i"
    using Scrollback_flows [OF w4(1) [symmetric] idx, where i = i] by simp
  moreover have "signalRedraw (replay env i w4) = (srv', u')"
    using w run by (simp add: switchView_def w4_def w3_def)
  ultimately show ?thesis
    by (cases w4) (auto simp: replay_def signalRedraw_def on_pane_def feed_def reset_def split: option.splits)
qed

text \<open>Cancelling touches no output, and no event that is queued.\<close>

lemma cancel_live_flow:
  "cancel_live n ls = Next ls' \<Longrightarrow> ls_sb ls' = ls_sb ls \<and> ls_reader ls' = ls_reader ls \<and> ls_log ls' = ls_log ls \<and>
     ls_sent ls' = ls_sent ls \<and> ls_closed ls' = ls_closed ls \<and> length (ls_chans ls') = length (ls_chans ls) \<and>
     (c < length (ls_chans ls) \<longrightarrow> ch_queue (ls_chans ls' ! c) = ch_queue (ls_chans ls ! c) \<and>
        ch_got (ls_chans ls' ! c) = ch_got (ls_chans ls ! c))"
  by (cases "gm_get (ls_subs ls) n")
    (auto simp: cancel_live_def upd_chan_Next close_chan_def nth_list_update split: if_splits)

lemma stopSub_flow:
  assumes "stopSub (srv, u) = (srv1, u1)"
  shows "m_sessions (srv_sessions srv1) = m_sessions (srv_sessions srv) \<and>
    length (m_heap (srv_sessions srv1)) = length (m_heap (srv_sessions srv)) \<and> u_pane u1 = u_pane u \<and>
    (p < length (m_heap (srv_sessions srv)) \<longrightarrow>
      (let ls = m_heap (srv_sessions srv) ! p; ls1 = m_heap (srv_sessions srv1) ! p in
         ls_sb ls1 = ls_sb ls \<and> ls_reader ls1 = ls_reader ls \<and> ls_log ls1 = ls_log ls \<and> ls_sent ls1 = ls_sent ls \<and>
         ls_closed ls1 = ls_closed ls \<and> length (ls_chans ls1) = length (ls_chans ls) \<and>
         (c < length (ls_chans ls) \<longrightarrow> ch_queue (ls_chans ls1 ! c) = ch_queue (ls_chans ls ! c))))"
proof (cases "\<exists>q n m. u_sub u = Some (Live q n) \<and> sm_step (OnLive q (LCancel n)) (srv_sessions srv) = Next m")
  case True
  then obtain q n m where sub: "u_sub u = Some (Live q n)" and m: "sm_step (OnLive q (LCancel n)) (srv_sessions srv) = Next m"
    by blast
  then obtain ls' where q: "q < length (m_heap (srv_sessions srv))"
    and ls': "cancel_live n (m_heap (srv_sessions srv) ! q) = Next ls'"
    and m': "m = (srv_sessions srv)\<lparr>m_heap := (m_heap (srv_sessions srv))[q := ls']\<rparr>"
    by (auto simp: on_live_def split: if_splits)
  have "srv1 = srv\<lparr>srv_sessions := m\<rparr>" "u_pane u1 = u_pane u"
    using assms sub m by (auto simp: stopSub_def run_cancel_def simp del: sm_step.simps)
  then show ?thesis
    using cancel_live_flow [OF ls', of c] q by (auto simp: m' Let_def nth_list_update)
next
  case False
  then have "srv_sessions srv1 = srv_sessions srv \<and> u_pane u1 = u_pane u"
    using assms by (auto simp: stopSub_def run_cancel_def simp del: sm_step.simps
        split: option.splits subscription.splits outcome.splits)
  then show ?thesis by simp
qed

text \<open>Subscribing to a session that is open adds one fresh channel to it.\<close>

lemma subscribe_flow:
  assumes get: "gm_get (m_sessions (srv_sessions srv1)) i = Some p" "p < length (m_heap (srv_sessions srv1))"
    and ls: "ls = m_heap (srv_sessions srv1) ! p" "\<not> ls_closed ls" "ls_nextSub ls = length (ls_chans ls)"
    and run: "subscribe_view i (srv1, u1) = (srv2, u2)"
  shows "u_sub u2 = Some (Live p (length (ls_chans ls))) \<and> u_viewing u2 = i \<and> u_pane u2 = u_pane u1 \<and>
    srv_sessions srv2 = (srv_sessions srv1)\<lparr>m_heap := (m_heap (srv_sessions srv1))[p := fst (subscribe_live ls)]\<rparr> \<and>
    srv2 = srv1\<lparr>srv_sessions := srv_sessions srv2\<rparr>"
  using assms by (auto simp: subscribe_view_def manager_Subscribe_def lookup_def subscribe_live_def upd_live_def)

text \<open>Between two moments a channel at \<open>(p, c)\<close> took \<open>gs\<close>, and the session only went on.\<close>

definition went_on :: "nat \<Rightarrow> nat \<Rightarrow> SessionEvent list \<Rightarrow> manager \<Rightarrow> manager \<Rightarrow> bool" where
  "went_on p c gs m m' \<longleftrightarrow> p < length (m_heap m') \<and> c < length (ls_chans (m_heap m' ! p)) \<and>
     ch_got (chan_at p c m') = ch_got (chan_at p c m) @ gs \<and> ch_from (chan_at p c m') = ch_from (chan_at p c m) \<and>
     prefix (ls_sent (m_heap m ! p)) (ls_sent (m_heap m' ! p))"

lemma went_on_refl: "p < length (m_heap m) \<Longrightarrow> c < length (ls_chans (m_heap m ! p)) \<Longrightarrow> went_on p c [] m m"
  by (simp add: went_on_def)

lemma went_on_trans: "went_on p c gs m m' \<Longrightarrow> went_on p c gs' m' m'' \<Longrightarrow> went_on p c (gs @ gs') m m''"
  by (auto simp: went_on_def intro: prefix_order.trans)

lemma offers_got:
  "steps (\<lambda>d. upd_chan d (offer ev)) cs chs = Next chs' \<Longrightarrow> length chs' = length chs \<and>
     (c < length chs \<longrightarrow> ch_got (chs' ! c) = ch_got (chs ! c) \<and> ch_from (chs' ! c) = ch_from (chs ! c))"
proof (induction cs arbitrary: chs)
  case Nil
  then show ?case by simp
next
  case (Cons d cs)
  then obtain chs1 where 1: "upd_chan d (offer ev) chs = Next chs1"
    and 2: "steps (\<lambda>d. upd_chan d (offer ev)) cs chs1 = Next chs'" by (auto split: outcome.splits)
  have "length chs1 = length chs \<and> (c < length chs \<longrightarrow> ch_got (chs1 ! c) = ch_got (chs ! c) \<and> ch_from (chs1 ! c) = ch_from (chs ! c))"
    using 1 by (auto simp: upd_chan_Next offer_def nth_list_update split: if_splits)
  with Cons.IH [OF 2] show ?case by simp
qed

lemma live_step_goes_on:
  assumes "live_step a ls = Next ls'" "a \<noteq> LRecv c" "c < length (ls_chans ls)"
  shows "c < length (ls_chans ls') \<and> ch_got (ls_chans ls' ! c) = ch_got (ls_chans ls ! c) \<and>
    ch_from (ls_chans ls' ! c) = ch_from (ls_chans ls ! c) \<and> prefix (ls_sent ls) (ls_sent ls')"
proof (cases a)
  case LBroadcast
  then obtain bs chs where "steps (\<lambda>d. upd_chan d (offer (data_event bs))) (map snd (ls_subs ls)) (ls_chans ls) = Next chs"
    "ls' = ls\<lparr>ls_reader := ReadIdle, ls_sent := ls_sent ls @ [bs], ls_chans := chs\<rparr>"
    using assms(1) by (auto simp: reader_broadcast_def broadcast_def split: reader_pc.splits outcome.splits)
  with offers_got [OF this(1), of c] assms(3) show ?thesis by simp
next
  case LPump
  then show ?thesis
    using assms(1,3) by (auto simp: pump_step.simps upd_chan_Next send_def close_chan_def nth_list_update
        split: pump_pc.splits list.splits if_splits option.splits)
next
  case (LRecv d)
  then show ?thesis using assms by (auto simp: upd_chan_Next)
next
  case (LCancel n)
  then show ?thesis
    using assms(1,3) by (cases "gm_get (ls_subs ls) n")
      (auto simp: cancel_live_def upd_chan_Next close_chan_def nth_list_update split: if_splits)
qed (use assms in \<open>auto simp: reader_read_def reader_stop_def subscribe_live_def nth_append split: if_splits option.splits\<close>)

lemma sm_step_goes_on:
  assumes "sm_step a m = Next m'" "a \<noteq> OnLive p (LRecv c)" "p < length (m_heap m)" "c < length (ls_chans (m_heap m ! p))"
  shows "went_on p c [] m m'"
proof (cases a)
  case (OnLive q la)
  then obtain ls' where q: "q < length (m_heap m)" "live_step la (m_heap m ! q) = Next ls'"
    and m': "m' = m\<lparr>m_heap := (m_heap m)[q := ls']\<rparr>"
    using assms(1) by (auto simp: on_live_def split: if_splits)
  show ?thesis
  proof (cases "q = p")
    case True
    then have "la \<noteq> LRecv c" using OnLive assms(2) by simp
    from live_step_goes_on [OF q(2) this] True assms(3,4) show ?thesis
      by (simp add: went_on_def m' chan_at_def)
  next
    case False
    then show ?thesis using assms(3,4) by (simp add: went_on_def m' chan_at_def)
  qed
next
  case (Unregister q)
  then show ?thesis
    using assms by (cases "q = p") (auto simp: unregister_eq went_on_def chan_at_def)
next
  case (Register i spec now lines pty)
  then show ?thesis
    using assms by (auto simp: register_live_def went_on_def chan_at_def nth_append)
next
  case (HookSet b)
  then show ?thesis using assms by (auto simp: SetHostDownHook_def went_on_def chan_at_def)
qed

definition shown :: "SessionEvent list \<Rightarrow> byte list list" where
  "shown es = filter (\<lambda>d. d \<noteq> []) (map EvData es)"

lemma shown_append [simp]: "shown (es @ fs) = shown es @ shown fs"
  by (simp add: shown_def)

lemma concat_shown: "concat (shown es) = concat (map EvData es)"
  by (induction es) (simp_all add: shown_def)

lemma view_step_goes_on:
  assumes run: "view_step env p c e (srv, u) = Some (srv', u')" and reach: "mgr_reach (srv_sessions srv)"
    and pc: "p < length (m_heap (srv_sessions srv))" "c < length (ls_chans (m_heap (srv_sessions srv) ! p))"
  shows "mgr_reach (srv_sessions srv') \<and> (\<exists>gs. went_on p c gs (srv_sessions srv) (srv_sessions srv') \<and>
    list_all (\<lambda>ev. \<not> EvStopped ev) gs \<and>
    PaneTerm (u_pane u') = foldl (TermWrite (e_term env)) (PaneTerm (u_pane u)) (shown gs))"
proof (cases e)
  case (ViewSession a)
  then have a: "a \<noteq> OnLive p (LRecv c)" and step: "session_step a (srv, u) = (srv', u')"
    using run by (auto split: if_splits)
  show ?thesis
  proof (cases "background a \<and> (\<exists>m. sm_step a (srv_sessions srv) = Next m)")
    case True
    then obtain m where m: "sm_step a (srv_sessions srv) = Next m" by blast
    have "admissible a (srv_sessions srv)" using True by (cases a) (auto simp: admissible_def)
    from mgr_step [OF reach this m] sm_step_goes_on [OF m a pc] show ?thesis
      using True m step by (auto simp: session_step_def shown_def simp del: sm_step.simps)
  next
    case False
    then have "srv' = srv \<and> u' = u"
      using step by (auto simp: session_step_def simp del: sm_step.simps split: if_splits outcome.splits)
    then show ?thesis using reach went_on_refl [OF pc] by (auto simp: shown_def)
  qed
next
  case ViewTurn
  then obtain m ev q where m: "sm_step (OnLive p (LRecv c)) (srv_sessions srv) = Next m"
    and ev: "ch_queue (chan_at p c (srv_sessions srv)) = ev # q" "\<not> EvStopped ev"
    and w: "stream_event env ev (srv\<lparr>srv_sessions := m\<rparr>, u) = (srv', u')"
    using run by (auto simp: streamPump_def Let_def simp del: sm_step.simps
        split: option.splits pump_turn.splits outcome.splits list.splits if_splits)
  have "went_on p c [ev] (srv_sessions srv) m"
    using m pc ev by (auto simp: on_live_def upd_chan_Next recv_def went_on_def chan_at_def)
  moreover have "mgr_reach m" using mgr_step [OF reach _ m] by (simp add: admissible_def)
  moreover have "srv_sessions srv' = m \<and>
      PaneTerm (u_pane u') = foldl (TermWrite (e_term env)) (PaneTerm (u_pane u)) (shown [ev])"
    using w ev(2) by (auto simp: stream_event_def shown_def signalRedraw_def on_pane_def feed_def split: if_splits)
  ultimately show ?thesis using ev(2) by (intro conjI exI [of _ "[ev]"]) auto
qed

lemma view_run_goes_on:
  assumes "view_run env p c es (srv, u) = Some (srv', u')" "mgr_reach (srv_sessions srv)"
    and "p < length (m_heap (srv_sessions srv))" "c < length (ls_chans (m_heap (srv_sessions srv) ! p))"
  shows "mgr_reach (srv_sessions srv') \<and> (\<exists>gs. went_on p c gs (srv_sessions srv) (srv_sessions srv') \<and>
    list_all (\<lambda>ev. \<not> EvStopped ev) gs \<and>
    PaneTerm (u_pane u') = foldl (TermWrite (e_term env)) (PaneTerm (u_pane u)) (shown gs))"
  using assms
proof (induction es arbitrary: srv u)
  case Nil
  then show ?case by (auto simp: shown_def intro!: exI [of _ "[]"] went_on_refl)
next
  case (Cons e es)
  then obtain srv1 u1 where 1: "view_step env p c e (srv, u) = Some (srv1, u1)"
    and 2: "view_run env p c es (srv1, u1) = Some (srv', u')" by (auto simp: bind_eq_Some_conv)
  from view_step_goes_on [OF 1 Cons.prems(2-4)] obtain gs where
    gs: "mgr_reach (srv_sessions srv1)" "went_on p c gs (srv_sessions srv) (srv_sessions srv1)"
      "list_all (\<lambda>ev. \<not> EvStopped ev) gs"
      "PaneTerm (u_pane u1) = foldl (TermWrite (e_term env)) (PaneTerm (u_pane u)) (shown gs)" by blast
  have pc: "p < length (m_heap (srv_sessions srv1))" "c < length (ls_chans (m_heap (srv_sessions srv1) ! p))"
    using gs(2) by (simp_all add: went_on_def)
  from Cons.IH [OF 2 gs(1) pc] obtain gs' where
    gs': "mgr_reach (srv_sessions srv')" "went_on p c gs' (srv_sessions srv1) (srv_sessions srv')"
      "list_all (\<lambda>ev. \<not> EvStopped ev) gs'"
      "PaneTerm (u_pane u') = foldl (TermWrite (e_term env)) (PaneTerm (u_pane u1)) (shown gs')" by blast
  show ?case
    using gs gs' went_on_trans [OF gs(2) gs'(2)] by (intro conjI exI [of _ "gs @ gs'"]) auto
qed

section \<open>After a switch\<close>

lemma switch_parts:
  assumes "ready D (srv, u)" "switchView env i (srv, u) = (srv1, u1)"
  obtains srv2 u2 srv3 u3 where "stopSub (srv, u) = (srv2, u2)" "subscribe_view i (srv2, u2) = (srv3, u3)"
    "mgr_reach (srv_sessions srv2)" "mgr_reach (srv_sessions srv3)"
    "flows (srv_sessions srv1) = flows (srv_sessions srv3)" "u_sub u1 = u_sub u3" "u_pane u3 = u_pane u"
    "PaneTerm (u_pane u1) = (case manager_Scrollback (srv_sessions srv3) i of
        Some bs \<Rightarrow> TermWrite (e_term env) (TermNew (e_term env) (PaneW (u_pane u)) (PaneH (u_pane u))) bs
      | None \<Rightarrow> TermNew (e_term env) (PaneW (u_pane u)) (PaneH (u_pane u)))"
proof -
  have ok: "srv_ok srv" using assms(1) by (simp add: ready_def)
  obtain srv2 u2 where r1: "stopSub (srv, u) = (srv2, u2)" by fastforce
  obtain srv3 u3 where r2: "subscribe_view i (srv2, u2) = (srv3, u3)" by fastforce
  note s1 = stopSub_step [OF ok r1]
  then obtain m2 where srv2: "srv2 = srv\<lparr>srv_sessions := m2\<rparr>" by blast
  then have "mgr_keeps {} {} (sub_of (u_sub u)) (srv_sessions srv) m2" using s1 by simp
  then have ok2: "srv_ok srv2" using sessions_kept(1) [OF ok] srv2 by simp
  have u2: "u_sub u2 = None" "u_pane u2 = u_pane u" using s1 by simp_all
  note s2 = subscribe_step [OF ok2 u2(1) r2]
  then have reach: "mgr_reach (srv_sessions srv2)" "mgr_reach (srv_sessions srv3)"
    using ok2 by (auto simp: srv_ok_def mgr_keeps_def)
  have u3: "u_pane u3 = u_pane u" using s2 u2 by auto
  have idx: "\<And>j p. gm_get (m_sessions (srv_sessions srv3)) j = Some p \<Longrightarrow> p < length (m_heap (srv_sessions srv3))"
    using mgr_sess [OF mgr_reach_ok [OF reach(2)]] by simp
  have fl: "flows (srv_sessions srv1) = flows (srv_sessions srv3)" "u_sub u1 = u_sub u3"
    "PaneTerm (u_pane u1) = (case manager_Scrollback (srv_sessions srv3) i of
        Some bs \<Rightarrow> TermWrite (e_term env) (TermNew (e_term env) (PaneW (u_pane u3)) (PaneH (u_pane u3))) bs
      | None \<Rightarrow> TermNew (e_term env) (PaneW (u_pane u3)) (PaneH (u_pane u3)))"
    using switchView_flow [OF r1 r2 _ assms(2)] idx by blast+
  show thesis by (rule that [OF r1 r2 reach fl(1,2) u3]) (use fl(3) in \<open>simp only: u3\<close>)
qed

lemma switch_live:
  assumes ready: "ready D (srv, u)" and get: "gm_get (m_sessions (srv_sessions srv)) i = Some p"
    and ls: "ls = m_heap (srv_sessions srv) ! p" "\<not> ls_closed ls"
    and sw: "switchView env i (srv, u) = (srv1, u1)" and ls1: "ls1 = m_heap (srv_sessions srv1) ! p"
  shows "mgr_reach (srv_sessions srv1) \<and> p < length (m_heap (srv_sessions srv1)) \<and>
    u_sub u1 = Some (Live p (length (ls_chans ls))) \<and> length (ls_chans ls1) = Suc (length (ls_chans ls)) \<and>
    ls_chans ls1 ! length (ls_chans ls) = new_chan (length (ls_sent ls)) \<and> ls_sent ls1 = ls_sent ls \<and>
    ls_reader ls1 = ls_reader ls \<and> ls_log ls1 = ls_log ls \<and> length (ls_chans ls) \<in> set (sub_chans ls1) \<and>
    PaneTerm (u_pane u1) = TermWrite (e_term env) (TermNew (e_term env) (PaneW (u_pane u)) (PaneH (u_pane u)))
      (Snapshot (ls_sb ls))"
proof -
  obtain srv2 u2 srv3 u3 where r: "stopSub (srv, u) = (srv2, u2)" "subscribe_view i (srv2, u2) = (srv3, u3)"
    and reach: "mgr_reach (srv_sessions srv2)" "mgr_reach (srv_sessions srv3)"
    and fl: "flows (srv_sessions srv1) = flows (srv_sessions srv3)" "u_sub u1 = u_sub u3"
    and pane: "PaneTerm (u_pane u1) = (case manager_Scrollback (srv_sessions srv3) i of
        Some bs \<Rightarrow> TermWrite (e_term env) (TermNew (e_term env) (PaneW (u_pane u)) (PaneH (u_pane u))) bs
      | None \<Rightarrow> TermNew (e_term env) (PaneW (u_pane u)) (PaneH (u_pane u)))"
    by (rule switch_parts [OF ready sw])
  have mok: "mgr_ok (srv_sessions srv)" using ready mgr_reach_ok by (auto simp: ready_def srv_ok_def)
  then have p: "p < length (m_heap (srv_sessions srv))" using get mgr_sess by blast
  let ?ls2 = "m_heap (srv_sessions srv2) ! p"
  have s1: "m_sessions (srv_sessions srv2) = m_sessions (srv_sessions srv)"
    "length (m_heap (srv_sessions srv2)) = length (m_heap (srv_sessions srv))"
    "ls_sb ?ls2 = ls_sb ls" "ls_reader ?ls2 = ls_reader ls" "ls_log ?ls2 = ls_log ls" "ls_sent ?ls2 = ls_sent ls" "ls_closed ?ls2 = ls_closed ls"
    "length (ls_chans ?ls2) = length (ls_chans ls)"
    using stopSub_flow [OF r(1), of p] p by (auto simp: ls Let_def)
  have "live_ok ?ls2" using mgr_reach_ok [OF reach(1)] p s1(2) by (simp add: mgr_ok_def)
  then have next_: "ls_nextSub ?ls2 = length (ls_chans ?ls2)" by (simp add: live_ok_def chans_ok_def)
  have open_: "\<not> ls_closed ?ls2" using ls(2) s1 by simp
  have s2: "u_sub u3 = Some (Live p (length (ls_chans ?ls2)))"
    "srv_sessions srv3 = (srv_sessions srv2)\<lparr>m_heap := (m_heap (srv_sessions srv2))[p := fst (subscribe_live ?ls2)]\<rparr>"
    using subscribe_flow [OF _ _ refl open_ next_ r(2)] get p s1 by simp_all
  have at3: "m_heap (srv_sessions srv3) ! p = fst (subscribe_live ?ls2)" "p < length (m_heap (srv_sessions srv3))"
    using s2(2) p s1(2) by simp_all
  have f: "flow ls1 = flow (fst (subscribe_live ?ls2))" "p < length (m_heap (srv_sessions srv1))"
    using flows_live [OF fl(1), of p] at3 by (simp_all add: ls1)
  have "mgr_reach (srv_sessions srv1)"
  proof -
    have "known (srv_sessions srv) i" using get mok mgr_sess [OF mok, of i p]
      by (force simp: known_def ids_def session_at_def)
    from switchView_ok [OF ready, of i env] this sw show ?thesis by (simp add: ready_def srv_ok_def)
  qed
  moreover have "manager_Scrollback (srv_sessions srv3) i = Some (Snapshot (ls_sb ls))"
    using get s1 open_ at3 by (simp add: manager_Scrollback_def lookup_def s2(2) subscribe_live_def)
  moreover have "v \<in> set (map snd (gm_put k v xs))" for k :: nat and v :: nat and xs
    by (induction xs) auto
  ultimately show ?thesis
    using f fl(2) s2(1) s1 open_ pane by (simp add: flow_def subscribe_live_def nth_append sub_chans_def)
qed

lemma Subscribe_heap:
  "m_heap (snd (manager_Subscribe m i)) = m_heap m \<or>
   (\<exists>q. m_heap (snd (manager_Subscribe m i)) = (m_heap m)[q := fst (subscribe_live (m_heap m ! q))])"
proof (cases "lookup m i")
  case (Inr q)
  then show ?thesis
    by (cases "subscribe_live (m_heap m ! q)"; cases "snd (subscribe_live (m_heap m ! q))")
      (auto simp: manager_Subscribe_def upd_live_def intro!: exI [of _ q])
qed (simp add: manager_Subscribe_def)

lemma switch_queue:
  assumes ready: "ready D (srv, u)" and sw: "switchView env i (srv, u) = (srv1, u1)"
    and pc: "p < length (m_heap (srv_sessions srv))" "c < length (ls_chans (m_heap (srv_sessions srv) ! p))"
  shows "p < length (m_heap (srv_sessions srv1)) \<and> c < length (ls_chans (m_heap (srv_sessions srv1) ! p)) \<and>
    ch_queue (chan_at p c (srv_sessions srv1)) = ch_queue (chan_at p c (srv_sessions srv))"
proof -
  obtain srv2 u2 srv3 u3 where r: "stopSub (srv, u) = (srv2, u2)" "subscribe_view i (srv2, u2) = (srv3, u3)"
    and fl: "flows (srv_sessions srv1) = flows (srv_sessions srv3)"
    by (rule switch_parts [OF ready sw])
  let ?ls2 = "m_heap (srv_sessions srv2) ! p"
  have s1: "length (m_heap (srv_sessions srv2)) = length (m_heap (srv_sessions srv))"
    "length (ls_chans ?ls2) = length (ls_chans (m_heap (srv_sessions srv) ! p))"
    "ch_queue (ls_chans ?ls2 ! c) = ch_queue (ls_chans (m_heap (srv_sessions srv) ! p) ! c)"
    using stopSub_flow [OF r(1), of p c] pc by (auto simp: Let_def)
  have "srv_sessions srv3 = snd (manager_Subscribe (srv_sessions srv2) i)"
    using r(2) by (auto simp: subscribe_view_def split: prod.splits)
  with Subscribe_heap [of "srv_sessions srv2" i]
  have "length (m_heap (srv_sessions srv3)) = length (m_heap (srv_sessions srv2)) \<and>
      length (ls_chans ?ls2) \<le> length (ls_chans (m_heap (srv_sessions srv3) ! p)) \<and>
      ls_chans (m_heap (srv_sessions srv3) ! p) ! c = ls_chans ?ls2 ! c"
  proof (elim disjE exE)
    fix q
    assume "m_heap (snd (manager_Subscribe (srv_sessions srv2) i)) =
        (m_heap (srv_sessions srv2))[q := fst (subscribe_live (m_heap (srv_sessions srv2) ! q))]"
      and "srv_sessions srv3 = snd (manager_Subscribe (srv_sessions srv2) i)"
    then show ?thesis using pc s1 by (cases "q = p") (auto simp: subscribe_live_def nth_append)
  qed simp
  then show ?thesis
    using flows_live [OF fl, of p] s1 pc by (auto simp: flow_def chan_at_def)
qed

section \<open>Properties\<close>


text \<open>A terminal that keeps what it was fed.\<close>

definition log_term :: "byte list term_lib" where
  "log_term = \<lparr>TermNew = (\<lambda>_ _. []), TermWrite = (@), TermResize = (\<lambda>t _ _. t),
     TermCell = (\<lambda>_ _ _. \<lparr>GChar = 0, GFG = 0, GBG = 0\<rparr>), TermCursor = (\<lambda>_. (0, 0)),
     TermCursorVisible = (\<lambda>_. True), DefaultFG = 0x1000000, DefaultBG = 0x1000001\<rparr>"

definition log_env :: "(byte list, unit) tui_env" where
  "log_env = \<lparr>e_open = (\<lambda>_ _. Inr new_pty), e_newID = ''n'', e_now = 9, e_index = (\<lambda>_. Inr []), e_order = [],
     e_fuzzy = (\<lambda>_ _. []), e_term = log_term, e_btn = still_lib, e_layout = beside, e_prefix = 4\<rparr>"

definition log_ui :: "(byte list, unit) connUI" where
  "log_ui = new_ui log_env ''c'' \<lparr>Rows = 24, Cols = 80\<rparr>"

lemma log_ready: "ready {''''} (demo_srv, log_ui)"
proof -
  have "attach_Get (srv_clients demo_srv) ''c'' \<noteq> None" by code_simp
  then show ?thesis
    using demo_srv_ok demo_rsized by (simp add: ready_def log_ui_def new_ui_def newPane_def)
qed

definition log_events :: "view_event list" where
  "log_events = [ViewSession (OnLive 0 (LRead [8, 9])), ViewSession (OnLive 0 LBroadcast), ViewTurn]"


section \<open>Where a view shows something else\<close>

text \<open>C38: the scrollback is read after the subscription starts, and the reader stores a chunk before it
  broadcasts it.  A chunk that is on its way at the moment of a switch is therefore fed to the
  emulator twice, once with the scrollback and once from the channel, though the session printed
  it once.\<close>

theorem pending_chunk_shown_twice:
  assumes ready: "ready D (srv, u)" and get: "gm_get (m_sessions (srv_sessions srv)) i = Some p"
    and ls: "ls = m_heap (srv_sessions srv) ! p" "\<not> ls_closed ls"
    and bs: "ls_reader ls = ReadHave bs" "bs \<noteq> []" and fits: "int (length (concat (ls_log ls))) \<le> sb_cap (ls_sb ls)"
    and sw: "switchView env i (srv, u) = (srv1, u1)"
  shows "\<exists>n srv2 u2. u_sub u1 = Some (Live p n) \<and>
    view_run env p n [ViewSession (OnLive p LBroadcast), ViewTurn] (srv1, u1) = Some (srv2, u2) \<and>
    PaneTerm (u_pane u2) = foldl (TermWrite (e_term env))
      (TermNew (e_term env) (PaneW (u_pane u)) (PaneH (u_pane u))) [concat (ls_sent ls) @ bs, bs] \<and>
    concat (ls_log (m_heap (srv_sessions srv2) ! p)) = concat (ls_sent ls) @ bs"
proof -
  let ?n = "length (ls_chans ls)" and ?ls1 = "m_heap (srv_sessions srv1) ! p"
  have s: "mgr_reach (srv_sessions srv1)" "p < length (m_heap (srv_sessions srv1))" "u_sub u1 = Some (Live p ?n)"
    "length (ls_chans ?ls1) = Suc ?n" "ls_chans ?ls1 ! ?n = new_chan (length (ls_sent ls))"
    "ls_reader ?ls1 = ReadHave bs" "ls_log ?ls1 = ls_log ls" "?n \<in> set (sub_chans ?ls1)"
    "PaneTerm (u_pane u1) = TermWrite (e_term env) (TermNew (e_term env) (PaneW (u_pane u)) (PaneH (u_pane u)))
      (Snapshot (ls_sb ls))"
    using switch_live [OF ready get ls sw refl] bs by simp_all
  have "live_ok ?ls1" using mgr_reach_ok [OF s(1)] s(2) by (simp add: mgr_ok_def)
  from broadcast_eq [OF this s(6)] obtain chs where
    b: "reader_broadcast ?ls1 = Next (?ls1\<lparr>ls_reader := ReadIdle, ls_sent := ls_sent ?ls1 @ [bs], ls_chans := chs\<rparr>)"
    "length chs = Suc ?n" "chs ! ?n = offered (data_event bs) (new_chan (length (ls_sent ls)))"
    using s by auto
  have ev: "ch_queue (chs ! ?n) = [data_event bs]" "ch_got (chs ! ?n) = []"
    by (simp_all add: b(3) offered_def new_chan_def subBuffer_def)
  have "Snapshot (ls_sb ls) = concat (ls_log ls) \<and> concat (ls_log ls) = concat (ls_sent ls) @ bs"
  proof -
    have "mgr_ok (srv_sessions srv)" using ready mgr_reach_ok by (auto simp: ready_def srv_ok_def)
    then have "live_ok ls" using get mgr_sess by (auto simp: mgr_ok_def ls)
    then show ?thesis
      using bs(1) fits ring.tail_complete [of "ls_sb ls" "ls_log ls"]
      by (simp add: live_ok_def streams_ok_def ring_cap_def le_nat_iff)
  qed
  then show ?thesis
    using s b ev bs(2)
    by (intro exI [of _ ?n]) (simp add: session_step_def on_live_def streamPump_def chan_at_def upd_chan_def recv_def
        Let_def stream_event_def data_event_def signalRedraw_def on_pane_def feed_def)
qed

definition pending_srv :: Server where
  "pending_srv = demo_srv\<lparr>srv_sessions := (case sm_step (OnLive 0 (LRead [8])) demo_state of Next m \<Rightarrow> m | _ \<Rightarrow> demo_state)\<rparr>"

theorem pending_chunk_shown_twice_witness:
  "\<exists>n srv2 u2. view_run log_env 0 n [ViewSession (OnLive 0 LBroadcast), ViewTurn]
     (switchView log_env ''a'' (pending_srv, log_ui)) = Some (srv2, u2) \<and> PaneTerm (u_pane u2) = [7, 8, 8] \<and>
     concat (ls_log (m_heap (srv_sessions srv2) ! 0)) = [7, 8]"
proof -
  let ?a = "OnLive 0 (LRead [8])" and ?ls = "m_heap (srv_sessions pending_srv) ! 0"
  have "(case sm_step ?a demo_state of Next m \<Rightarrow> True | _ \<Rightarrow> False)" by code_simp
  then obtain m where m: "sm_step ?a demo_state = Next m" by (auto simp del: sm_step.simps split: outcome.splits)
  have "ui_inv {''''} (demo_srv, log_ui)"
  proof -
    have "u_viewing log_ui = ''''" "attach_Get (srv_clients demo_srv) (u_id log_ui) =
      Some \<lparr>ClientID = ''c'', Interface = '''', Viewing = '''', ClientSize = \<lparr>Rows = 40, Cols = 100\<rparr>\<rparr>" by code_simp+
    then show ?thesis using log_ready by (simp add: ui_inv_def agrees_def known_def)
  qed
  then have "ui_inv {''''} (session_step ?a (demo_srv, log_ui))"
    using session_step_good [of "{''''}" "{}" "(demo_srv, log_ui)" ?a] by (simp add: good_def)
  moreover have "session_step ?a (demo_srv, log_ui) = (pending_srv, log_ui)"
    using m by (simp add: pending_srv_def session_step_def demo_srv_def del: sm_step.simps)
  ultimately have ready: "ready {''''} (pending_srv, log_ui)" by (simp add: ui_inv_def)
  have get: "gm_get (m_sessions (srv_sessions pending_srv)) ''a'' = Some 0" and o: "\<not> ls_closed ?ls"
    and h: "ls_reader ?ls = ReadHave [8]" and fits: "int (length (concat (ls_log ?ls))) \<le> sb_cap (ls_sb ?ls)"
    and sent: "ls_sent ?ls = [[7]]" by code_simp+
  from pending_chunk_shown_twice [OF ready get refl o h _ fits surjective_pairing, of log_env] sent
  show ?thesis by (auto simp: log_env_def log_term_def)
qed

text \<open>Cancelling a subscription closes its channel but does not empty it, and the goroutine that reads
  it goes on until it is empty.  What it still held of the session that was left is fed to the
  emulator of the session switched to.\<close>

theorem stale_output_shown:
  assumes ready: "ready D (srv, u)" and "known (srv_sessions srv) j"
    and pc: "p < length (m_heap (srv_sessions srv))" "c < length (ls_chans (m_heap (srv_sessions srv) ! p))"
    and queue: "ch_queue (chan_at p c (srv_sessions srv)) = ev # evs" "\<not> EvStopped ev" "EvData ev \<noteq> []"
    and sw: "switchView env j (srv, u) = (srv1, u1)"
  shows "\<exists>srv2 u2. streamPump env p c (srv1, u1) = PumpContinues (srv2, u2) \<and> u_viewing u2 = j \<and>
    PaneTerm (u_pane u2) = TermWrite (e_term env) (PaneTerm (u_pane u1)) (EvData ev)"
proof -
  have "u_viewing u1 = j" using switchView_ok [OF ready, of j env] assms(2) sw by simp
  then show ?thesis
    using switch_queue [OF ready sw pc] queue
    by (auto simp: streamPump_def on_live_def chan_at_def upd_chan_def recv_def Let_def stream_event_def
        signalRedraw_def on_pane_def feed_def)
qed

text \<open>A second session beside the first.\<close>

definition other_srv :: Server where
  "other_srv = demo_srv\<lparr>srv_sessions := (case sm_run [Register ''b'' other_spec 8 10 new_pty] demo_state of
     Next m \<Rightarrow> m | _ \<Rightarrow> demo_state)\<rparr>"

lemma unviewed_ready:
  assumes "mgr_reach m"
  shows "ready {''''} (demo_srv\<lparr>srv_sessions := m\<rparr>, log_ui\<lparr>u_viewing := v, u_sub := s\<rparr>)"
  using log_ready assms demo_unviewed by (auto simp: ready_def srv_ok_def rsized_def)

theorem stale_output_shown_witness:
  "\<exists>srv2 u2. streamPump log_env 0 0 (switchView log_env ''b''
       (other_srv, log_ui\<lparr>u_viewing := ''a'', u_sub := Some (Live 0 0)\<rparr>)) = PumpContinues (srv2, u2) \<and>
     u_viewing u2 = ''b'' \<and> PaneTerm (u_pane u2) = [7]"
proof -
  let ?a = "[Register ''b'' other_spec 8 10 new_pty]" and ?u = "log_ui\<lparr>u_viewing := ''a'', u_sub := Some (Live 0 0)\<rparr>"
  have adm: "adm_run ?a demo_state" and m: "sm_run ?a demo_state = Next (srv_sessions other_srv)" by code_simp+
  from mgr_reach_run [OF demo_reach adm m] have reach: "mgr_reach (srv_sessions other_srv)" .
  have srv: "other_srv = demo_srv\<lparr>srv_sessions := srv_sessions other_srv\<rparr>" by (simp add: other_srv_def)
  have ready: "ready {''''} (other_srv, ?u)" using unviewed_ready [OF reach] srv by metis
  have "ids (srv_sessions other_srv) = [''a'', ''b'']" by code_simp
  then have known: "known (srv_sessions other_srv) ''b''" by (simp add: known_def)
  have pc: "0 < length (m_heap (srv_sessions other_srv))" "0 < length (ls_chans (m_heap (srv_sessions other_srv) ! 0))"
    and q: "ch_queue (chan_at 0 0 (srv_sessions other_srv)) = [data_event [7]]"
    and pane: "PaneTerm (u_pane (snd (switchView log_env ''b'' (other_srv, ?u)))) = []" by code_simp+
  from stale_output_shown [OF ready known pc q _ _ surjective_pairing, of log_env] pane show ?thesis
    by (auto simp: data_event_def log_env_def log_term_def)
qed

text \<open>\<open>switchView\<close> is called by the connection's loop and by the goroutine of the current view, without a
  common lock; these are its parts before and after the two critical sections.\<close>

definition finish_switch :: "('t, 'u) tui_env \<Rightarrow> string \<Rightarrow> ('t, 'u) world \<Rightarrow> ('t, 'u) world" where
  "finish_switch env i w =
     signalRedraw (replay env i (report_size (on_pane (reset (e_term env)) (setClientViewing i w))))"

lemma switchView_parts: "switchView env i w = finish_switch env i (subscribe_view i (stopSub w))"
  by (simp add: switchView_def finish_switch_def)

lemma live_subs_flows: "flows m = flows m' \<Longrightarrow> live_subs m = live_subs m'"
  using flows_live [of m m'] by (auto simp: live_subs_def flow_def)

lemma paint_parts [simp]:
  "fst (replay env i w) = fst w" "u_sub (snd (replay env i w)) = u_sub (snd w)"
  "fst (signalRedraw w) = fst w" "u_sub (snd (signalRedraw w)) = u_sub (snd w)"
  "fst (on_pane f w) = fst w" "u_sub (snd (on_pane f w)) = u_sub (snd w)"
  by (cases w; simp add: replay_def signalRedraw_def on_pane_def split: option.split)+

lemma finish_subs: "live_subs (srv_sessions (fst (finish_switch env i w))) = live_subs (srv_sessions (fst w)) \<and>
    u_sub (snd (finish_switch env i w)) = u_sub (snd w)"
proof
  have "flows (srv_sessions (fst (finish_switch env i w))) = flows (srv_sessions (fst w))"
    by (simp add: finish_switch_def report_flows viewing_flows)
  then show "live_subs (srv_sessions (fst (finish_switch env i w))) = live_subs (srv_sessions (fst w))"
    by (rule live_subs_flows)
  show "u_sub (snd (finish_switch env i w)) = u_sub (snd w)"
    by (simp add: finish_switch_def report_flows viewing_flows)
qed

lemma Subscribe_subs:
  assumes "mgr_ok m" "manager_Subscribe m j = (s, m')" "(p, n) \<in> live_subs m"
  shows "(p, n) \<in> live_subs m' \<and> (p, n) \<notin> sub_of (Some s)"
proof (cases "\<exists>q. lookup m j = Inr q \<and> \<not> ls_closed (m_heap m ! q)")
  case True
  then obtain q where q: "lookup m j = Inr q" "\<not> ls_closed (m_heap m ! q)" by blast
  let ?ls = "m_heap m ! q"
  have len: "q < length (m_heap m)" using q(1) mgr_sess [OF assms(1), of j q] by (auto simp: lookup_def split: option.splits)
  then have ok: "live_ok ?ls" using assms(1) by (simp add: mgr_ok_def)
  have "gm_get (ls_subs ?ls) (ls_nextSub ?ls) = None"
  proof (rule ccontr)
    assume "gm_get (ls_subs ?ls) (ls_nextSub ?ls) \<noteq> None"
    then obtain c where c: "(ls_nextSub ?ls, c) \<in> set (ls_subs ?ls)" using map_of_SomeD by fastforce
    then have "c = length (ls_chans ?ls)" using ok by (force simp: live_ok_def chans_ok_def)
    moreover have "c \<in> set (refs ?ls)" using c by (force simp: refs_def sub_chans_def)
    ultimately show False using live_ok_refs [OF ok, of c] by simp
  qed
  moreover have "s = Live q (ls_nextSub ?ls)" "m' = upd_live q (\<lambda>_. fst (subscribe_live ?ls)) m"
    using assms(2) q by (auto simp: manager_Subscribe_def subscribe_live_def)
  ultimately show ?thesis
    using assms(3) len by (auto simp: live_subs_def sub_of_def upd_live_def nth_list_update subscribe_live_def q(2) gomap_simps)
next
  case False
  then have "(\<exists>ch. s = Gone ch) \<and> m' = m"
    using assms(2) by (auto simp: manager_Subscribe_def subscribe_live_def split: sum.splits)
  then show ?thesis using assms(3) by (auto simp: sub_of_def)
qed

lemma cancel_other:
  assumes "(p, n) \<in> live_subs m" "(p, n) \<notin> sub_of (Some s)"
  shows "(p, n) \<in> live_subs (run_cancel s m)"
proof (cases "\<exists>q k m'. s = Live q k \<and> sm_step (OnLive q (LCancel k)) m = Next m'")
  case True
  then obtain q k m' where s: "s = Live q k" and m': "sm_step (OnLive q (LCancel k)) m = Next m'" by blast
  then obtain ls where ls: "q < length (m_heap m)" "cancel_live k (m_heap m ! q) = Next ls"
    and heap: "m' = m\<lparr>m_heap := (m_heap m)[q := ls]\<rparr>" by (auto simp: on_live_def split: if_splits)
  have "ls_subs ls = ls_subs (m_heap m ! q) \<or> ls_subs ls = gm_del k (ls_subs (m_heap m ! q))"
    using ls(2) by (auto simp: cancel_live_def split: option.splits)
  then show ?thesis
    using assms s m' ls by (auto simp: run_cancel_def heap heap_update_subs live_subs_def sub_of_def gomap_simps
        nth_list_update simp del: sm_step.simps)
next
  case False
  then have "run_cancel s m = m"
    by (auto simp: run_cancel_def simp del: sm_step.simps split: subscription.split outcome.split)
  then show ?thesis using assms(1) by simp
qed

lemma fresh_sub:
  assumes "live_ok ls"
  shows "gm_get (ls_subs ls) (length (ls_chans ls)) = None"
proof (rule ccontr)
  let ?n = "length (ls_chans ls)"
  assume "gm_get (ls_subs ls) ?n \<noteq> None"
  then obtain c where c: "(?n, c) \<in> set (ls_subs ls)" using map_of_SomeD by fastforce
  then have "c = ?n" using assms by (force simp: live_ok_def chans_ok_def)
  then have "?n \<in> set (refs ls)" using c by (force simp: refs_def sub_chans_def)
  then show False using live_ok_refs [OF assms] by simp
qed

text \<open>C39: two switches that overlap.  The loop of the connection moves to \<open>i\<close> while the goroutine of the
  view moves to \<open>j\<close>: if both have passed \<open>stopSub\<close> before either subscribes, only the second
  subscription is remembered.  When the connection ends, the client is gone, but the first
  subscription stays open, and the session goes on filling its channel.\<close>

theorem racing_switches_leak:
  assumes ok: "srv_ok srv" and get: "gm_get (m_sessions (srv_sessions srv)) i = Some p"
    and ls: "ls = m_heap (srv_sessions srv) ! p" "\<not> ls_closed ls"
    and both: "w1 = subscribe_view i (stopSub (stopSub (srv, u)))"
    and w2: "w2 = finish_switch env j (finish_switch env i (subscribe_view j w1))"
  shows "(p, length (ls_chans ls)) \<notin> live_subs (srv_sessions srv) \<and>
    (p, length (ls_chans ls)) \<in> live_subs (srv_sessions (ui_end w2)) \<and>
    attach_Get (srv_clients (ui_end w2)) (u_id (snd w2)) = None"
proof -
  let ?n = "length (ls_chans ls)"
  obtain srv1 u1 where r1: "stopSub (srv, u) = (srv1, u1)" by fastforce
  note s1 = stopSub_step [OF ok r1]
  then obtain m1 where srv1: "srv1 = srv\<lparr>srv_sessions := m1\<rparr>" by blast
  then have "mgr_keeps {} {} (sub_of (u_sub u)) (srv_sessions srv) m1" using s1 by simp
  then have ok1: "srv_ok srv1" using sessions_kept(1) [OF ok] srv1 by simp
  have u1: "u_sub u1 = None" using s1 by simp
  then have "stopSub (srv1, u1) = (srv1, u1)" by (simp add: stopSub_def)
  then have again: "stopSub (stopSub (srv, u)) = (srv1, u1)" by (simp add: r1)
  obtain srv2 u2 where r2: "subscribe_view i (srv1, u1) = (srv2, u2)" by fastforce
  have mok: "mgr_ok (srv_sessions srv)" "mgr_ok (srv_sessions srv1)" "mgr_ok (srv_sessions srv2)"
    using ok ok1 subscribe_step [OF ok1 u1 r2] mgr_reach_ok by (auto simp: srv_ok_def mgr_keeps_def)
  have p: "p < length (m_heap (srv_sessions srv))" using get mgr_sess [OF mok(1)] by blast
  let ?ls1 = "m_heap (srv_sessions srv1) ! p"
  have f: "m_sessions (srv_sessions srv1) = m_sessions (srv_sessions srv)" "\<not> ls_closed ?ls1"
    "length (m_heap (srv_sessions srv1)) = length (m_heap (srv_sessions srv))" "length (ls_chans ?ls1) = ?n"
    using stopSub_flow [OF r1, of p] p ls by (auto simp: Let_def)
  have live: "live_ok ls" "live_ok ?ls1" using mok p f(3) by (simp_all add: mgr_ok_def ls)
  then have next_: "ls_nextSub ?ls1 = length (ls_chans ?ls1)" by (simp add: live_ok_def chans_ok_def)
  have "(p, ?n) \<notin> live_subs (srv_sessions srv)"
    using fresh_sub [OF live(1)] by (simp add: live_subs_def ls(1) [symmetric])
  moreover have "(p, ?n) \<in> live_subs (srv_sessions (ui_end w2))"
  proof -
    have "srv_sessions srv2 = (srv_sessions srv1)\<lparr>m_heap := (m_heap (srv_sessions srv1))[p := fst (subscribe_live ?ls1)]\<rparr>"
      using subscribe_flow [OF _ _ refl f(2) next_ r2] get p f by simp
    then have mem: "(p, ?n) \<in> live_subs (srv_sessions srv2)"
      using p f next_ by (simp add: live_subs_def subscribe_live_def gomap_simps)
    obtain s m3 where sub: "manager_Subscribe (srv_sessions srv2) j = (s, m3)" by fastforce
    note kept = Subscribe_subs [OF mok(3) sub mem]
    have "w1 = (srv2, u2)" using both again r2 by simp
    then have "live_subs (srv_sessions (fst w2)) = live_subs m3 \<and> u_sub (snd w2) = Some s"
      using sub by (simp add: w2 subscribe_view_def finish_subs)
    then have "(p, ?n) \<in> live_subs (srv_sessions (fst w2))" "(p, ?n) \<notin> sub_of (u_sub (snd w2))"
      "u_sub (snd w2) = Some s" using kept by simp_all
    from cancel_other [OF this(1), of s] this show ?thesis
      by (cases w2) (simp add: ui_end_def stopSub_def)
  qed
  moreover have "attach_Get (srv_clients (ui_end w2)) (u_id (snd w2)) = None"
    by (cases w2) (auto simp: ui_end_def stopSub_def attach_Detach_def attach_Get_def gomap_simps split: option.split)
  ultimately show ?thesis by simp
qed

theorem racing_switches_leak_witness:
  "let w1 = subscribe_view ''a'' (stopSub (stopSub (other_srv, log_ui)));
     w2 = finish_switch log_env ''b'' (finish_switch log_env ''a'' (subscribe_view ''b'' w1))
   in (0, 1) \<in> live_subs (srv_sessions (ui_end w2)) \<and> attach_Get (srv_clients (ui_end w2)) ''c'' = None"
proof -
  have "adm_run [Register ''b'' other_spec 8 10 new_pty] demo_state"
    "sm_run [Register ''b'' other_spec 8 10 new_pty] demo_state = Next (srv_sessions other_srv)" by code_simp+
  from mgr_reach_run [OF demo_reach this] demo_srv_ok have ok: "srv_ok other_srv"
    by (simp add: srv_ok_def other_srv_def)
  have get: "gm_get (m_sessions (srv_sessions other_srv)) ''a'' = Some 0"
    and o: "\<not> ls_closed (m_heap (srv_sessions other_srv) ! 0)"
    and n: "length (ls_chans (m_heap (srv_sessions other_srv) ! 0)) = 1" by code_simp+
  have i: "u_id (snd (finish_switch log_env ''b'' (finish_switch log_env ''a''
      (subscribe_view ''b'' (subscribe_view ''a'' (stopSub (stopSub (other_srv, log_ui)))))))) = ''c''" by code_simp
  from racing_switches_leak [OF ok get refl o refl refl, of log_env "''b''" log_ui] n i
  show ?thesis by (simp only: Let_def)
qed

end
