(* ===== verification/Inbound.thy ===== *)
theory Inbound imports Sshd TuiRun begin

text \<open>
  One session channel from end to end: the goroutine that \<open>handleConn\<close>
  (\<open>internal/sshd/server.go\<close>) starts for it, the requests of the client that
  \<open>serviceRequests\<close> turns into window sizes, and \<open>TUI.Handle\<close> (\<open>internal/tui/tui.go\<close>), which
  takes the first size, runs the interface and closes the connection.
\<close>

section \<open>A channel\<close>

text \<open>What happens on a channel while \<open>Handle\<close> loops: the client sends a request, the loop takes the
  next size of \<open>Resizes\<close>, or another event of the loop.\<close>

datatype 'p chan_event = ChRequest "'p request" | ChResize | ChOther ui_event

fun resizes :: "ui_event \<Rightarrow> bool" where
  "resizes (UiResize sz) = True"
| "resizes _ = False"

fun chan_loop ::
  "'p payload_lib \<Rightarrow> (('t, 'u) tui_env \<times> 'p chan_event) list \<Rightarrow> sshConn \<Rightarrow> ('t, 'u) world \<Rightarrow> sshConn \<times> ('t, 'u) world" where
  "chan_loop lib [] c w = (c, w)"
| "chan_loop lib ((env, ChRequest req) # es) c w = chan_loop lib es (fst (service_request lib c req)) w"
| "chan_loop lib ((env, ChResize) # es) c w =
     (case conn_Resizes c of
        None \<Rightarrow> chan_loop lib es c w
      | Some (sz, c1) \<Rightarrow> chan_loop lib es c1 (snd (ui_step env (UiResize sz) w)))"
| "chan_loop lib ((env, ChOther ev) # es) c w =
     (if resizes ev then chan_loop lib es c w
      else case ui_step env ev w of (quit, w1) \<Rightarrow> if quit then (c, w1) else chan_loop lib es c w1)"

definition firstSize :: "sshConn \<Rightarrow> Size \<times> sshConn" where
  "firstSize c = (case conn_Resizes c of Some (sz, c1) \<Rightarrow> (sz, c1) | None \<Rightarrow> (\<lparr>Rows = 0, Cols = 0\<rparr>, c))"

text \<open>The window \<open>Handle\<close> starts with: the first size, if it has rows, or 24 by 80.\<close>

definition start_size :: "Size \<Rightarrow> Size" where
  "start_size first = (if Rows first > 0 then first else \<lparr>Rows = 24, Cols = 80\<rparr>)"

text \<open>The goroutine: \<open>reqs\<close> are the requests serviced before \<open>Handle\<close> looks for a size.  Without a
  place among the clients \<open>Handle\<close> returns at once; otherwise its deferred calls close the
  connection, which the goroutine does again.  Closing a closed channel would be a panic,
  \<open>None\<close>.\<close>

definition serve_channel ::
  "'p payload_lib \<Rightarrow> ('t, 'u) tui_env \<Rightarrow> byte list \<Rightarrow> string \<Rightarrow> 'p request list
     \<Rightarrow> (('t, 'u) tui_env \<times> 'p chan_event) list \<Rightarrow> Server \<Rightarrow> sshConn option \<times> Server" where
  "serve_channel lib env random addr reqs evs srv =
    (case firstSize (fst (serviceRequests lib (newConn random addr) reqs)) of
       (first, c) \<Rightarrow>
         (case attach_Attach (srv_clients srv) \<lparr>ClientID = conn_id c, Interface = conn_iface c, Viewing = '''',
            ClientSize = paneSizeForWindow (start_size first) sidebarWidth\<rparr> of
            (Some _, _) \<Rightarrow> (conn_Close c, srv)
          | (None, a) \<Rightarrow>
              (case chan_loop lib evs c (ui_start env (conn_id c) (start_size first) (srv\<lparr>srv_clients := a\<rparr>)) of
                 (c1, w) \<Rightarrow> (Option.bind (conn_Close c1) conn_Close, ui_end w))))"

section \<open>Lemmas\<close>

text \<open>The loop with its channel is the loop of the interface, with a step of nobody where a request
  came in.\<close>

lemma chan_loop_ui:
  "conn_ok c \<Longrightarrow> chan_loop lib evs c w = (c1, w1) \<Longrightarrow>
     conn_ok c1 \<and> conn_id c1 = conn_id c \<and> (\<exists>uis. map fst uis = map fst evs \<and> ui_loop uis w = w1)"
proof (induction evs arbitrary: c w)
  case Nil
  then show ?case by simp
next
  case (Cons e evs)
  obtain env ev where e: "e = (env, ev)" by (cases e)
  have still: "ui_step env (UiSession (HookSet False)) w = (False, w)" by (simp add: session_step_def split: prod.split)
  have req: "conn_ok (fst (service_request lib c r)) \<and> conn_id (fst (service_request lib c r)) = conn_id c" for r
    using Cons.prems(1) pushResize_ok by (auto simp: service_request_wanted pushResize_def split: option.split)
  have size: "conn_ok c' \<and> conn_id c' = conn_id c" if "conn_Resizes c = Some (sz, c')" for sz c'
    using that Cons.prems(1) by (auto simp: conn_Resizes_def conn_ok_def split: list.splits)
  have idle: ?case if "conn_ok c'" "conn_id c' = conn_id c" "chan_loop lib evs c' w = (c1, w1)" for c'
  proof -
    from Cons.IH [OF that(1,3)] that(2) obtain uis where
      uis: "conn_ok c1" "conn_id c1 = conn_id c" "map fst uis = map fst evs" "ui_loop uis w = w1" by auto
    then show ?thesis using still by (intro conjI exI [of _ "(env, UiSession (HookSet False)) # uis"]) (auto simp: e)
  qed
  have goes: ?case if "conn_ok c'" "conn_id c' = conn_id c" "ui_step env u w = (False, w')" "chan_loop lib evs c' w' = (c1, w1)" for c' u w'
  proof -
    from Cons.IH [OF that(1,4)] that(2) obtain uis where
      uis: "conn_ok c1" "conn_id c1 = conn_id c" "map fst uis = map fst evs" "ui_loop uis w' = w1" by auto
    then show ?thesis using that(3) by (intro conjI exI [of _ "(env, u) # uis"]) (auto simp: e)
  qed
  show ?case
  proof (cases ev)
    case (ChRequest r)
    show ?thesis by (rule idle [OF conjunct1 [OF req] conjunct2 [OF req]]) (use Cons.prems(2) ChRequest e in simp)
  next
    case ChResize
    show ?thesis
    proof (cases "conn_Resizes c")
      case None
      show ?thesis by (rule idle [OF Cons.prems(1) refl]) (use Cons.prems(2) ChResize None e in simp)
    next
      case (Some r)
      obtain sz c' where r: "conn_Resizes c = Some (sz, c')" using Some by (cases r) simp
      show ?thesis
        by (rule goes [OF conjunct1 [OF size [OF r]] conjunct2 [OF size [OF r]], of "UiResize sz"])
          (use Cons.prems(2) ChResize r e in simp_all)
    qed
  next
    case (ChOther u)
    obtain quit w' where step: "ui_step env u w = (quit, w')" by (rule prod.exhaust)
    consider "resizes u" | "\<not> resizes u" "quit" | "\<not> resizes u" "\<not> quit" by blast
    then show ?thesis
    proof cases
      case 1
      show ?thesis by (rule idle [OF Cons.prems(1) refl]) (use Cons.prems(2) ChOther 1 e in simp)
    next
      case 2
      then have end_: "c1 = c" "w1 = w'" using Cons.prems(2) ChOther step e by simp_all
      have "ui_loop ((env, u) # map (\<lambda>x. (fst x, UiRedraw)) evs) w = w'" using step 2 by simp
      then show ?thesis
        using end_ Cons.prems(1) e by (intro conjI exI [of _ "(env, u) # map (\<lambda>x. (fst x, UiRedraw)) evs"]) simp_all
    next
      case 3
      show ?thesis by (rule goes [OF Cons.prems(1) refl, of u w']) (use Cons.prems(2) ChOther step 3 e in simp_all)
    qed
  qed
qed

lemma conn_Close_ok: "conn_ok c \<Longrightarrow> \<exists>c1. conn_Close c = Some c1 \<and> conn_ok c1 \<and> resize_closed c1 \<and> \<not> channel_open c1"
  by (auto simp: conn_Close_def conn_ok_def)

lemma serviceRequests_ok: "conn_ok c \<Longrightarrow> conn_ok (fst (serviceRequests lib c reqs)) \<and>
    conn_id (fst (serviceRequests lib c reqs)) = conn_id c"
proof (induction reqs arbitrary: c)
  case Nil
  then show ?case by simp
next
  case (Cons req reqs)
  have "conn_ok (fst (service_request lib c req)) \<and> conn_id (fst (service_request lib c req)) = conn_id c"
    using Cons.prems pushResize_ok by (auto simp: service_request_wanted pushResize_def split: option.split)
  then show ?case using Cons.IH [of "fst (service_request lib c req)"] by (simp add: case_prod_beta)
qed

section \<open>Properties\<close>


text \<open>A window of 24 by 80, a key, another size, and the detach command.\<close>

definition demo_channel :: "((unit, unit) tui_env \<times> string chan_event) list" where
  "demo_channel = [(demo_env\<lparr>e_newID := ''n1''\<rparr>, ChOther (UiKey (plain_key 120))),
     (demo_env\<lparr>e_newID := ''n2''\<rparr>, ChRequest \<lparr>ReqType = ''window-change'', ReqPayload = '''', WantReply = False\<rparr>),
     (demo_env\<lparr>e_newID := ''n3''\<rparr>, ChResize), (demo_env\<lparr>e_newID := ''n4''\<rparr>, ChOther (UiKey (ctrl_key 68))),
     (demo_env\<lparr>e_newID := ''n5''\<rparr>, ChOther (UiKey (plain_key 100)))]"


end
