(* ===== verification/Clients.thy ===== *)
theory Clients imports Inbound begin

text \<open>
  The running server with all of its interfaces: any number of connections, each with its own
  interface (\<open>internal/tui\<close>), on one \<open>Server\<close> (\<open>internal/server\<close>), with the sessions' goroutines and
  the reaction to lost hosts between their events.  \<open>ui_step\<close> says what one connection does; here are
  what it guarantees to the others and the invariant of all of them together.
\<close>

section \<open>The system\<close>

text \<open>The server and the connections that are attached, by client ID.\<close>

record ('t, 'u) system =
  sys_srv :: Server
  sys_uis :: "(string, ('t, 'u) connUI) gomap"

text \<open>
  A connection attaches (\<open>Handle\<close> up to its first paint), its loop or its view handles an event, or it
  ends (the deferred calls); a goroutine of a session takes a step; the hook reports a lost host.
\<close>

datatype system_event =
    Joined string string Size | UiEvent string ui_event | Left string
  | Background sm_action | HostLost string

definition leave :: "string \<Rightarrow> ('t, 'u) connUI \<Rightarrow> ('t, 'u) system \<Rightarrow> ('t, 'u) system" where
  "leave i u sys = sys\<lparr>sys_srv := ui_end (sys_srv sys, u), sys_uis := gm_del i (sys_uis sys)\<rparr>"

definition background_step :: "sm_action \<Rightarrow> Server \<Rightarrow> Server" where
  "background_step a srv =
    (if background a then (case sm_step a (srv_sessions srv) of Next m \<Rightarrow> srv\<lparr>srv_sessions := m\<rparr> | _ \<Rightarrow> srv) else srv)"

fun system_step :: "('t, 'u) tui_env \<Rightarrow> system_event \<Rightarrow> ('t, 'u) system \<Rightarrow> ('t, 'u) system" where
  "system_step env (Joined i iface sz) sys =
    (case attach_Attach (srv_clients (sys_srv sys)) \<lparr>ClientID = i, Interface = iface, Viewing = '''',
        ClientSize = paneSizeForWindow (start_size sz) sidebarWidth\<rparr> of
       (Some _, _) \<Rightarrow> sys
     | (None, a) \<Rightarrow>
        (case ui_start env i (start_size sz) ((sys_srv sys)\<lparr>srv_clients := a\<rparr>) of
           (srv, u) \<Rightarrow> \<lparr>sys_srv = srv, sys_uis = gm_put i u (sys_uis sys)\<rparr>))"
| "system_step env (UiEvent i ev) sys =
    (case gm_get (sys_uis sys) i of
       None \<Rightarrow> sys
     | Some u \<Rightarrow>
        (case ui_step env ev (sys_srv sys, u) of
           (quit, (srv, u1)) \<Rightarrow>
             let sys1 = \<lparr>sys_srv = srv, sys_uis = gm_put i u1 (sys_uis sys)\<rparr>
             in if quit then leave i u1 sys1 else sys1))"
| "system_step env (Left i) sys =
    (case gm_get (sys_uis sys) i of None \<Rightarrow> sys | Some u \<Rightarrow> leave i u sys)"
| "system_step env (Background a) sys = sys\<lparr>sys_srv := background_step a (sys_srv sys)\<rparr>"
| "system_step env (HostLost h) sys = sys\<lparr>sys_srv := onHostDown (e_now env) h (sys_srv sys)\<rparr>"

definition system_run ::
  "(('t, 'u) tui_env \<times> system_event) list \<Rightarrow> ('t, 'u) system \<Rightarrow> ('t, 'u) system" where
  "system_run evs sys = foldl (\<lambda>s (env, ev). system_step env ev s) sys evs"

text \<open>The IDs of all sessions there were.\<close>

abbreviation sys_ids :: "('t, 'u) system \<Rightarrow> string set" where
  "sys_ids sys \<equiv> set (ids (srv_sessions (sys_srv sys)))"

text \<open>
  The sessions whose size an event may leave behind the negotiated one: those a leaving client was
  viewing, since nothing renegotiates them, and those of a lost host with the one their viewers are
  moved to.
\<close>

definition viewed :: "string \<Rightarrow> Server \<Rightarrow> string set" where
  "viewed i srv = (case attach_Get (srv_clients srv) i of None \<Rightarrow> {} | Some c \<Rightarrow> {Viewing c})"

fun disturbed :: "('t, 'u) tui_env \<Rightarrow> system_event \<Rightarrow> ('t, 'u) system \<Rightarrow> string set" where
  "disturbed env (Left i) sys = viewed i (sys_srv sys)"
| "disturbed env (UiEvent i ev) sys =
    (case gm_get (sys_uis sys) i of
       None \<Rightarrow> {}
     | Some u \<Rightarrow> (case ui_step env ev (sys_srv sys, u) of (quit, (srv, u1)) \<Rightarrow> if quit then viewed i srv else {}))"
| "disturbed env (HostLost h) sys =
    set (fst (manager_CloseHost (srv_sessions (sys_srv sys)) h)) \<union> set_option (anyOpenSession (sys_srv sys))"
| "disturbed env _ sys = {}"

fun disturbed_run :: "(('t, 'u) tui_env \<times> system_event) list \<Rightarrow> ('t, 'u) system \<Rightarrow> string set" where
  "disturbed_run [] sys = {''''}"
| "disturbed_run ((env, ev) # evs) sys = disturbed env ev sys \<union> disturbed_run evs (system_step env ev sys)"

section \<open>The invariant\<close>

text \<open>
  Every connection is as \<open>ui_inv\<close> says; the attached clients are the connections; every open
  subscription is the one some connection holds; and what a connection holds is its own, and is open
  until its session ends (\<open>tenants\<close>).
\<close>

definition tenants :: "manager \<Rightarrow> (string \<rightharpoonup> ('t, 'u) connUI) \<Rightarrow> bool" where
  "tenants m f \<longleftrightarrow> (\<forall>i u. f i = Some u \<longrightarrow> owns m (sub_of (u_sub u))) \<and>
     (\<forall>i u j v. f i = Some u \<longrightarrow> f j = Some v \<longrightarrow> j \<noteq> i \<longrightarrow> sub_of (u_sub u) \<inter> sub_of (u_sub v) = {})"

definition sys_inv :: "string set \<Rightarrow> ('t, 'u) system \<Rightarrow> bool" where
  "sys_inv D sys \<longleftrightarrow> srv_ok (sys_srv sys) \<and> '''' \<in> D \<and> (\<forall>j. j \<notin> D \<longrightarrow> rsized (sys_srv sys) j) \<and>
     (\<forall>i u. gm_get (sys_uis sys) i = Some u \<longrightarrow> u_id u = i \<and> ui_inv D (sys_srv sys, u)) \<and>
     (\<forall>i. attach_Get (srv_clients (sys_srv sys)) i \<noteq> None \<longleftrightarrow> gm_get (sys_uis sys) i \<noteq> None) \<and>
     live_subs (srv_sessions (sys_srv sys)) \<subseteq> (\<Union>u \<in> ran (gm_get (sys_uis sys)). sub_of (u_sub u)) \<and>
     tenants (srv_sessions (sys_srv sys)) (gm_get (sys_uis sys))"

text \<open>No connection cancels what another holds.\<close>

lemma tenants_kept: "tenants m f \<Longrightarrow> mgr_keeps T N {} m m' \<Longrightarrow> tenants m' f"
  using owns_held [of "{}" m m'] by (auto simp: tenants_def mgr_keeps_def)

lemma tenants_less: "tenants m f \<Longrightarrow> (\<And>i u. f' i = Some u \<Longrightarrow> f i = Some u) \<Longrightarrow> tenants m f'"
  unfolding tenants_def by blast

lemma tenants_move:
  assumes f: "tenants m f" "f i = Some u" and hands: "hands (sub_of (u_sub u)) (sub_of (u_sub u1)) m m'"
  shows "tenants m' (f(i \<mapsto> u1))"
proof -
  have other: "owns m (sub_of (u_sub v))" "sub_of (u_sub v) \<inter> sub_of (u_sub u) = {}" if "f j = Some v" "j \<noteq> i" for j v
    using f that unfolding tenants_def by blast+
  have "owns m' (sub_of (u_sub v))" if "f j = Some v" "j \<noteq> i" for j v
    using owns_held [OF _ other(1) [OF that] other(2) [OF that]] hands by (simp add: hands_def)
  moreover have "sub_of (u_sub v) \<inter> sub_of (u_sub u1) = {}" if "f j = Some v" "j \<noteq> i" for j v
    using other [OF that] hands by (auto simp: hands_def owns_def)
  moreover have "owns m' (sub_of (u_sub u1))" using f hands by (auto simp: tenants_def hands_def)
  ultimately show ?thesis using f(1) by (auto simp: tenants_def Int_commute split: if_splits)
qed

lemma tenants_join: "tenants m f \<Longrightarrow> u_sub u = None \<Longrightarrow> tenants m (f(i \<mapsto> u))"
  by (auto simp: tenants_def owns_def sub_of_def)

lemma tenants_leave:
  assumes "tenants m f" "f i = Some u" "mgr_keeps T N (sub_of (u_sub u)) m m'"
  shows "tenants m' (f(i := None))"
proof -
  have "tenants m' (f(i \<mapsto> u\<lparr>u_sub := None\<rparr>))"
    using tenants_move [OF assms(1,2), of "u\<lparr>u_sub := None\<rparr>" m'] hands_cancel [OF assms(3)] by (simp add: sub_of_def)
  then show ?thesis by (rule tenants_less) (simp split: if_splits)
qed

text \<open>What a step of the server asks of the connections that did not take it.\<close>

lemma bystander:
  assumes inv: "ui_inv D (srv, u)" and srv': "srv_ok srv'" "D \<subseteq> D'" "\<And>j. j \<notin> D' \<Longrightarrow> rsized srv' j"
    and ids: "set (ids (srv_sessions srv)) \<subseteq> set (ids (srv_sessions srv'))" "N \<inter> set (ids (srv_sessions srv)) = {}"
    and idle: "\<And>v. v \<notin> N \<Longrightarrow> idle (srv_sessions srv) v \<Longrightarrow> idle (srv_sessions srv') v"
    and att: "attach_Get (srv_clients srv) (u_id u) = Some c" "attach_Get (srv_clients srv') (u_id u) = Some c'"
    and view: "Viewing c' = Viewing c \<or> Viewing c' \<in> D' \<and> known (srv_sessions srv') (Viewing c')"
  shows "ui_inv D' (srv', u)"
proof -
  have c: "known (srv_sessions srv) (Viewing c)"
    "Viewing c = u_viewing u \<or> idle (srv_sessions srv) (Viewing c) \<or> Viewing c \<in> D"
    using inv att by (auto simp: ui_inv_def agrees_def)
  have "idle (srv_sessions srv') (Viewing c)" if i: "idle (srv_sessions srv) (Viewing c)"
  proof (cases "Viewing c = ''''")
    case False
    then have "Viewing c \<notin> N" using c(1) ids(2) by (auto simp: known_def)
    then show ?thesis using idle i by blast
  qed (simp add: idle_def)
  then have "agrees D' (srv', u)"
    using c view att(2) ids(1) srv'(2) by (auto simp: agrees_def known_def)
  then show ?thesis using inv srv' att by (auto simp: ui_inv_def ready_def)
qed

text \<open>A connection moves, and the others stand by.\<close>

lemma sys_inv_conn:
  assumes "sys_inv D sys" "gm_get (sys_uis sys) i = Some u"
  shows "u_id u = i" "ui_inv D (sys_srv sys, u)" "\<exists>c. attach_Get (srv_clients (sys_srv sys)) i = Some c"
  using assms by (auto simp: sys_inv_def)

lemma sys_inv_att:
  "sys_inv D sys \<Longrightarrow> attach_Get (srv_clients (sys_srv sys)) i = None \<longleftrightarrow> gm_get (sys_uis sys) i = None"
  unfolding sys_inv_def by blast

lemma sys_inv_held:
  "sys_inv D sys \<Longrightarrow> x \<in> live_subs (srv_sessions (sys_srv sys)) \<Longrightarrow>
     \<exists>j u. gm_get (sys_uis sys) j = Some u \<and> x \<in> sub_of (u_sub u)"
  unfolding sys_inv_def ran_def by blast

lemma ui_moves:
  assumes inv: "sys_inv D sys" and u: "gm_get (sys_uis sys) i = Some u"
    and good: "good D N (sys_srv sys, u) (srv1, u1)" and fresh: "N \<inter> set (ids (srv_sessions (sys_srv sys))) = {}"
  shows "sys_inv D \<lparr>sys_srv = srv1, sys_uis = gm_put i u1 (sys_uis sys)\<rparr>"
proof -
  let ?srv = "sys_srv sys" and ?uis = "sys_uis sys"
  note conn = sys_inv_conn [OF inv u]
  have w: "ui_inv D (srv1, u1)" "wstep N (?srv, u) (srv1, u1)" using good conn(2) by (simp_all add: good_def)
  then have srv1: "srv_ok srv1" "'''' \<in> D" "\<And>j. j \<notin> D \<Longrightarrow> rsized srv1 j" "u_id u1 = i"
    "attach_Get (srv_clients srv1) i \<noteq> None" using conn(1) by (auto simp: ui_inv_def ready_def wstep_def)
  have others: "attach_Get (srv_clients srv1) j = attach_Get (srv_clients ?srv) j" if "j \<noteq> i" for j
    using w(2) conn(1) that by (simp add: wstep_def others_def)
  have "ui_inv D (srv1, u')" if u': "gm_get ?uis j = Some u'" "j \<noteq> i" for j u'
  proof -
    note conn' = sys_inv_conn [OF inv u'(1)]
    obtain c where "attach_Get (srv_clients ?srv) j = Some c" using conn'(3) by blast
    then show ?thesis
      using bystander [OF conn'(2) srv1(1) order_refl srv1(3) _ fresh, of c c] w(2) conn'(1) others [OF u'(2)]
      by (auto simp: wstep_def)
  qed
  moreover have "live_subs (srv_sessions srv1) \<subseteq> (\<Union>u \<in> ran ((gm_get ?uis)(i \<mapsto> u1)). sub_of (u_sub u))"
  proof
    fix x assume x: "x \<in> live_subs (srv_sessions srv1)"
    show "x \<in> (\<Union>u \<in> ran ((gm_get ?uis)(i \<mapsto> u1)). sub_of (u_sub u))"
    proof (cases "x \<in> sub_of (u_sub u1)")
      case True
      then show ?thesis by (auto simp: ran_def)
    next
      case False
      then have "x \<in> live_subs (srv_sessions ?srv)" "x \<notin> sub_of (u_sub u)"
        using x w(2) by (auto simp: wstep_def foreign_def)
      then obtain j u' where j: "gm_get ?uis j = Some u'" "x \<in> sub_of (u_sub u')"
        using sys_inv_held [OF inv] by blast
      then have "j \<noteq> i" using u \<open>x \<notin> sub_of (u_sub u)\<close> by auto
      then show ?thesis using j by (auto simp: ran_def)
    qed
  qed
  moreover have "tenants (srv_sessions srv1) ((gm_get ?uis)(i \<mapsto> u1))"
    by (rule tenants_move [where f = "gm_get ?uis" and m = "srv_sessions ?srv", OF _ u])
      (use inv w(2) in \<open>simp_all add: sys_inv_def wstep_def\<close>)
  moreover have "attach_Get (srv_clients srv1) j \<noteq> None \<longleftrightarrow> ((gm_get ?uis)(i \<mapsto> u1)) j \<noteq> None" for j
    using srv1(5) others [of j] inv by (cases "j = i") (simp_all add: sys_inv_def)
  ultimately show ?thesis
    using srv1 w(1) sys_inv_conn(1) [OF inv] by (simp add: sys_inv_def gomap_simps)
qed

text \<open>Attaching.\<close>

lemma joined_inv:
  assumes inv: "sys_inv D sys"
    and run: "attach_Attach (srv_clients (sys_srv sys)) \<lparr>ClientID = i, Interface = iface, Viewing = '''', ClientSize = z\<rparr> = (None, a)"
  shows "sys_inv D \<lparr>sys_srv = (sys_srv sys)\<lparr>srv_clients := a\<rparr>, sys_uis = gm_put i (new_ui env i sz) (sys_uis sys)\<rparr>"
proof -
  let ?srv = "sys_srv sys" and ?uis = "sys_uis sys"
  let ?srv1 = "?srv\<lparr>srv_clients := a\<rparr>"
  have D: "'''' \<in> D" and sized: "\<And>j. j \<notin> D \<Longrightarrow> rsized ?srv j" and ok: "srv_ok ?srv"
    using inv by (simp_all add: sys_inv_def)
  have new: "ui_inv D (?srv1, new_ui env i sz)" by (rule attached_inv [OF ok sized D run])
  then have ok1: "srv_ok ?srv1" "\<And>j. j \<notin> D \<Longrightarrow> rsized ?srv1 j" by (auto simp: ui_inv_def ready_def)
  have get: "attach_Get (srv_clients ?srv) i = None" "attach_Get a j \<noteq> None \<longleftrightarrow> j = i \<or> attach_Get (srv_clients ?srv) j \<noteq> None"
    "j \<noteq> i \<Longrightarrow> attach_Get a j = attach_Get (srv_clients ?srv) j" for j
    using run by (auto simp: attach_Attach_def attach_Get_def gomap_simps split: if_splits option.splits)
  have none: "gm_get ?uis i = None" using get(1) sys_inv_att [OF inv] by simp
  have "ui_inv D (?srv1, u')" if u': "gm_get ?uis j = Some u'" for j u'
  proof -
    note conn = sys_inv_conn [OF inv u']
    obtain c where c: "attach_Get (srv_clients ?srv) j = Some c" using conn(3) by blast
    have "j \<noteq> i" using none u' by auto
    then show ?thesis
      using bystander [OF conn(2) ok1(1) order_refl ok1(2), of "{}" c c] c conn(1) get(3) by simp
  qed
  moreover have "(\<Union>u \<in> ran (gm_get ?uis). sub_of (u_sub u)) \<subseteq>
      (\<Union>u \<in> ran ((gm_get ?uis)(i \<mapsto> new_ui env i sz)). sub_of (u_sub u))"
    using none by (auto simp: ran_map_upd)
  moreover have "tenants (srv_sessions ?srv) ((gm_get ?uis)(i \<mapsto> new_ui env i sz))"
    by (rule tenants_join) (use inv in \<open>simp_all add: sys_inv_def new_ui_def\<close>)
  ultimately show ?thesis
    using inv new ok1 get(2) sys_inv_conn(1) [OF inv]
    by (auto simp: sys_inv_def gomap_simps new_ui_def)
qed

text \<open>Leaving.  Only the session the client viewed may keep a size that is no longer the negotiated one.\<close>

lemma leave_inv:
  assumes inv: "sys_inv D sys" and u: "gm_get (sys_uis sys) i = Some u"
  shows "sys_inv (D \<union> viewed i (sys_srv sys)) (leave i u sys)" (is "sys_inv ?D _")
proof -
  let ?srv = "sys_srv sys" and ?uis = "sys_uis sys"
  note conn = sys_inv_conn [OF inv u]
  have ok: "srv_ok ?srv" and ready: "ready D (?srv, u)" using inv conn(2) by (simp_all add: sys_inv_def ui_inv_def)
  obtain cl where cl: "attach_Get (srv_clients ?srv) i = Some cl" using conn(3) by blast
  define srv2 where "srv2 = ui_end (?srv, u)"
  obtain srv1 u1 where stop: "stopSub (?srv, u) = (srv1, u1)" by (rule prod.exhaust)
  note s = stopSub_step [OF ok stop]
  obtain m where srv1: "srv1 = ?srv\<lparr>srv_sessions := m\<rparr>" and u1: "u1 = u\<lparr>u_sub := None\<rparr>" using s by blast
  have keep: "mgr_keeps {} {} (sub_of (u_sub u)) (srv_sessions ?srv) m" using s by (simp add: srv1)
  have srv2: "srv2 = srv1\<lparr>srv_clients := snd (attach_Detach (srv_clients ?srv) i)\<rparr>"
    by (simp add: srv2_def ui_end_def stop srv1 u1 conn(1))
  note clean = end_clean [OF ready, folded srv2_def]
  have sized: "rsized srv2 j" if "j \<notin> ?D" for j
  proof (rule rsized_kept [of "{}" "{}" "sub_of (u_sub u)" ?srv])
    show "NegotiatedSize (srv_clients srv2) j (CfgResizePolicy (srv_cfg ?srv)) =
        NegotiatedSize (srv_clients ?srv) j (CfgResizePolicy (srv_cfg ?srv))"
      using Detach_negotiated [OF _ cl, of j] ok that cl by (auto simp: srv2 viewed_def srv_ok_def)
    show "rsized ?srv j" using inv that by (simp add: sys_inv_def)
  qed (use keep in \<open>simp_all add: srv2 srv1\<close>)
  have "ui_inv ?D (srv2, u')" if u': "gm_get ?uis j = Some u'" "j \<noteq> i" for j u'
  proof -
    note conn' = sys_inv_conn [OF inv u'(1)]
    obtain c where c: "attach_Get (srv_clients ?srv) j = Some c" using conn'(3) by blast
    show ?thesis
    proof (rule bystander [OF conn'(2) _ _ sized])
      show "srv_ok srv2" using clean by blast
      show "set (ids (srv_sessions ?srv)) \<subseteq> set (ids (srv_sessions srv2))"
        using keep by (simp add: srv2 srv1 mgr_keeps_def)
      show "\<And>v. v \<notin> {} \<Longrightarrow> idle (srv_sessions ?srv) v \<Longrightarrow> idle (srv_sessions srv2) v"
        using idle_kept [OF keep] by (simp add: srv2 srv1)
      show "attach_Get (srv_clients srv2) (u_id u') = Some c"
        using c u'(2) conn'(1) by (simp add: srv2 Detach_get)
    qed (use c conn'(1) in auto)
  qed
  moreover have "live_subs (srv_sessions srv2) \<subseteq> (\<Union>u \<in> ran ((gm_get ?uis)(i := None)). sub_of (u_sub u))"
  proof
    fix x assume "x \<in> live_subs (srv_sessions srv2)"
    then have x: "x \<in> live_subs (srv_sessions ?srv)" "x \<notin> sub_of (u_sub u)" using clean by (auto simp: foreign_def)
    obtain j u' where j: "gm_get ?uis j = Some u'" "x \<in> sub_of (u_sub u')" using sys_inv_held [OF inv x(1)] by blast
    then have "j \<noteq> i" using u x(2) by auto
    then show "x \<in> (\<Union>u \<in> ran ((gm_get ?uis)(i := None)). sub_of (u_sub u))" using j by (auto simp: ran_def)
  qed
  moreover have "tenants (srv_sessions srv2) ((gm_get ?uis)(i := None))"
    by (rule tenants_leave [where f = "gm_get ?uis" and m = "srv_sessions ?srv", OF _ u])
      (use inv keep in \<open>simp_all add: sys_inv_def srv2 srv1\<close>)
  moreover have "attach_Get (srv_clients srv2) j = None \<longleftrightarrow> ((gm_get ?uis)(i := None)) j = None" for j
    using sys_inv_att [OF inv, of j] by (simp add: srv2 Detach_get)
  ultimately show ?thesis
    using inv clean sized sys_inv_conn(1) [OF inv] by (auto simp: sys_inv_def leave_def srv2_def [symmetric] gomap_simps)
qed

text \<open>Steps of the sessions.\<close>

lemma background_quiet: "background a \<Longrightarrow> quiet a"
  by (cases a rule: background.cases) (auto simp: quiet_def)

lemma background_inv:
  assumes inv: "sys_inv D sys"
  shows "sys_inv D (sys\<lparr>sys_srv := background_step a (sys_srv sys)\<rparr>)"
proof (cases "\<exists>m. background a \<and> sm_step a (srv_sessions (sys_srv sys)) = Next m")
  case True
  then obtain m where a: "background a" and m: "sm_step a (srv_sessions (sys_srv sys)) = Next m" by blast
  have ok: "srv_ok (sys_srv sys)" using inv by (simp add: sys_inv_def)
  then have keep: "mgr_keeps {} {} {} (srv_sessions (sys_srv sys)) m"
    using quiet_keeps [OF _ m background_quiet [OF a]] by (simp add: srv_ok_def)
  have "ui_inv D ((sys_srv sys)\<lparr>srv_sessions := m\<rparr>, u)" if "gm_get (sys_uis sys) i = Some u" for i u
    using sessions_good [of "sys_srv sys" m D "{}" u] keep sys_inv_conn(2) [OF inv that] by (simp add: good_def)
  moreover have "live_subs m \<subseteq> live_subs (srv_sessions (sys_srv sys))" using keep by (simp add: mgr_keeps_def)
  moreover have "background_step a (sys_srv sys) = (sys_srv sys)\<lparr>srv_sessions := m\<rparr>"
    using a m by (simp add: background_step_def)
  ultimately show ?thesis
    using inv sessions_kept [OF ok keep] tenants_kept [OF _ keep] by (auto simp: sys_inv_def)
next
  case False
  then have "background_step a (sys_srv sys) = sys_srv sys" by (auto simp: background_step_def split: outcome.split)
  then show ?thesis using inv by simp
qed

text \<open>A lost host.\<close>

lemma CloseHost_keeps: "mgr_reach m \<Longrightarrow> mgr_keeps {} {} {} m (snd (manager_CloseHost m h))"
proof -
  assume m: "mgr_reach m"
  have "list_all quiet (call_actions CallCloseHost h m)"
    by (auto simp: call_actions_def end_actions_def quiet_def list_all_iff)
  from run_keeps [OF m conjunct1 [OF call_reach [OF m]] this] show ?thesis by simp
qed

text \<open>Moving clients from closed sessions to the session \<open>t\<close> that is open: all of them are in \<open>D\<close>.\<close>

definition moved_to :: "string option \<Rightarrow> string set \<Rightarrow> Server \<Rightarrow> Server \<Rightarrow> bool" where
  "moved_to t D srv srv' \<longleftrightarrow> srv_ok srv' \<and> (\<forall>j. j \<notin> D \<longrightarrow> rsized srv' j) \<and> anyOpenSession srv' = t \<and>
     mgr_keeps (set_option t) {} {} (srv_sessions srv) (srv_sessions srv') \<and>
     (\<forall>i. attach_Get (srv_clients srv') i = attach_Get (srv_clients srv) i \<or>
        (\<exists>c v. attach_Get (srv_clients srv) i = Some c \<and> t = Some v \<and>
           attach_Get (srv_clients srv') i = Some (c\<lparr>Viewing := v\<rparr>)))"

lemma moved_to_trans:
  assumes "moved_to t D srv srv'" "moved_to t D srv' srv''"
  shows "moved_to t D srv srv''"
proof -
  have "attach_Get (srv_clients srv'') i = attach_Get (srv_clients srv) i \<or>
        (\<exists>c v. attach_Get (srv_clients srv) i = Some c \<and> t = Some v \<and>
           attach_Get (srv_clients srv'') i = Some (c\<lparr>Viewing := v\<rparr>))" for i
    using assms unfolding moved_to_def by (elim conjE allE [of _ i]) auto
  moreover have "mgr_keeps (set_option t) {} {} (srv_sessions srv) (srv_sessions srv'')"
    using assms keeps_trans [of "set_option t" "{}" "{}" "srv_sessions srv" "srv_sessions srv'" "set_option t" "{}" "{}"]
    by (simp add: moved_to_def)
  ultimately show ?thesis using assms(2) by (simp add: moved_to_def)
qed

lemma move_client_moved:
  assumes ok: "srv_ok srv" and sized: "\<And>j. j \<notin> D \<Longrightarrow> rsized srv j" and D: "set closed \<subseteq> D" "set_option (anyOpenSession srv) \<subseteq> D"
    and c: "Viewing c \<in> set closed \<Longrightarrow> attach_Get (srv_clients srv) (ClientID c) = Some c' \<Longrightarrow> Viewing c' \<in> D"
    and att: "attach_Get (srv_clients srv) (ClientID c) = Some c'"
  shows "moved_to (anyOpenSession srv) D srv (move_client closed srv c)"
proof (cases "Viewing c \<in> set closed \<and> anyOpenSession srv \<noteq> None")
  case False
  then have "move_client closed srv c = srv" by (auto simp: move_client_def split: option.split)
  then show ?thesis using ok sized keeps_refl by (simp add: moved_to_def srv_ok_def)
next
  case True
  then obtain t where t: "anyOpenSession srv = Some t" by auto
  define srv1 where "srv1 = srv\<lparr>srv_clients := snd (SetViewing (srv_clients srv) (ClientID c) t)\<rparr>"
  have mv: "move_client closed srv c = renegotiate t srv1" using True t by (simp add: move_client_def srv1_def)
  have ok1: "srv_ok srv1" using ok by (simp add: srv1_def srv_ok_def SetViewing_ok)
  have keep: "mgr_keeps {t} {} {} (srv_sessions srv) (srv_sessions (renegotiate t srv1))"
    using renegotiate_mgr [OF ok1, of t] by (simp add: srv1_def)
  have "rsized (renegotiate t srv1) j" if j: "j \<notin> D" for j
  proof -
    have "j \<noteq> t" "Viewing c' \<noteq> j" using j t D c True att by auto
    then have "NegotiatedSize (srv_clients srv1) j p = NegotiatedSize (srv_clients srv) j p" for p
      using negotiated_move [of "srv_clients srv" j t "ClientID c"] ok att by (auto simp: srv1_def srv_ok_def)
    then have "rsized srv1 j" using sized [OF j] by (simp add: rsized_def srv1_def)
    then show ?thesis using renegotiate_rsized_other [OF ok1] \<open>j \<noteq> t\<close> by blast
  qed
  moreover have "anyOpenSession (move_client closed srv c) = Some t" using move_client_open [OF ok] t by simp
  moreover have "attach_Get (srv_clients (renegotiate t srv1)) i = attach_Get (srv_clients srv) i \<or>
      (\<exists>d. attach_Get (srv_clients srv) i = Some d \<and> attach_Get (srv_clients (renegotiate t srv1)) i = Some (d\<lparr>Viewing := t\<rparr>))" for i
    using att by (auto simp: srv1_def SetViewing_get)
  ultimately show ?thesis using keep move_client_ok [OF ok, of closed c] t by (auto simp: moved_to_def mv)
qed

lemma move_clients_moved:
  assumes "srv_ok srv" "\<And>j. j \<notin> D \<Longrightarrow> rsized srv j" "set closed \<subseteq> D" "set_option (anyOpenSession srv) \<subseteq> D"
    and "\<And>c. c \<in> set cs \<Longrightarrow> \<exists>c'. attach_Get (srv_clients srv) (ClientID c) = Some c' \<and>
      (Viewing c \<in> set closed \<longrightarrow> Viewing c' \<in> D)"
  shows "moved_to (anyOpenSession srv) D srv (foldl (move_client closed) srv cs)"
  using assms
proof (induction cs arbitrary: srv)
  case Nil
  then show ?case using keeps_refl by (simp add: moved_to_def srv_ok_def)
next
  case (Cons c cs)
  let ?srv1 = "move_client closed srv c"
  obtain c' where c': "attach_Get (srv_clients srv) (ClientID c) = Some c'" "Viewing c \<in> set closed \<longrightarrow> Viewing c' \<in> D"
    using Cons.prems(5) [of c] by auto
  have first: "moved_to (anyOpenSession srv) D srv ?srv1"
    using move_client_moved [OF Cons.prems(1-4) _ c'(1)] c'(2) by blast
  have rest: "\<exists>d'. attach_Get (srv_clients ?srv1) (ClientID d) = Some d' \<and> (Viewing d \<in> set closed \<longrightarrow> Viewing d' \<in> D)"
    if d: "d \<in> set cs" for d
  proof -
    obtain d' where d': "attach_Get (srv_clients srv) (ClientID d) = Some d'" "Viewing d \<in> set closed \<longrightarrow> Viewing d' \<in> D"
      using Cons.prems(5) [of d] d by auto
    show ?thesis using first d' Cons.prems(4) unfolding moved_to_def by (elim conjE allE [of _ "ClientID d"]) auto
  qed
  have "moved_to (anyOpenSession srv) D ?srv1 (foldl (move_client closed) ?srv1 cs)"
    using Cons.IH [of ?srv1] first rest Cons.prems(3,4) by (simp add: moved_to_def)
  from moved_to_trans [OF first this] show ?case by simp
qed

lemma open_known: "mgr_reach (srv_sessions srv) \<Longrightarrow> anyOpenSession srv = Some t \<Longrightarrow> known (srv_sessions srv) t"
  using List_running(2) by (auto simp: anyOpenSession_def)

lemma lost_inv:
  assumes inv: "sys_inv D sys"
  shows "sys_inv (D \<union> disturbed env (HostLost h) sys) (system_step env (HostLost h) sys) \<and>
    sys_ids (system_step env (HostLost h) sys) \<subseteq> sys_ids sys" (is "sys_inv ?D _ \<and> _")
proof -
  let ?srv = "sys_srv sys" and ?closed = "fst (manager_CloseHost (srv_sessions (sys_srv sys)) h)"
  define m where "m = snd (manager_CloseHost (srv_sessions ?srv) h)"
  define srv0 where "srv0 = set_status (e_now env) h StatusDown (?srv\<lparr>srv_sessions := m\<rparr>)"
  define srv1 where "srv1 = onHostDown (e_now env) h ?srv"
  have ok: "srv_ok ?srv" and reach: "mgr_reach (srv_sessions ?srv)" using inv by (simp_all add: sys_inv_def srv_ok_def)
  have srv1: "srv1 = foldl (move_client ?closed) srv0 (attach_List (srv_clients srv0))"
    by (simp add: srv1_def onHostDown_def srv0_def m_def split: prod.split)
  have keep0: "mgr_keeps {} {} {} (srv_sessions ?srv) (srv_sessions srv0)"
    using CloseHost_keeps [OF reach] by (simp add: srv0_def m_def)
  have ok0: "srv_ok srv0" using sessions_kept(1) [OF ok, of "{}" m] keep0 by (simp add: srv0_def set_status_ok)
  have open0: "anyOpenSession srv0 = anyOpenSession ?srv"
    by (rule open_same) (simp add: srv0_def m_def sm.close_list [OF mgr_reach_ok [OF reach]])
  have clients0: "srv_clients srv0 = srv_clients ?srv" by (simp add: srv0_def)
  have sized0: "rsized srv0 j" if "j \<notin> ?D" for j
    using rsized_kept [OF keep0] inv that by (simp add: srv0_def sys_inv_def)
  have att0: "att_ok (srv_clients srv0)" using ok0 by (simp add: srv_ok_def)
  have "moved_to (anyOpenSession srv0) ?D srv0 srv1"
    unfolding srv1
    by (rule move_clients_moved [OF ok0 sized0]) (auto simp: open0 attach_List_get [OF att0])
  then have ok1: "srv_ok srv1" and sized1: "\<And>j. j \<notin> ?D \<Longrightarrow> rsized srv1 j"
    and keep: "mgr_keeps (set_option (anyOpenSession ?srv)) {} {} (srv_sessions ?srv) (srv_sessions srv1)"
    and get: "\<And>i. attach_Get (srv_clients srv1) i = attach_Get (srv_clients ?srv) i \<or>
        (\<exists>c v. attach_Get (srv_clients ?srv) i = Some c \<and> anyOpenSession ?srv = Some v \<and>
           attach_Get (srv_clients srv1) i = Some (c\<lparr>Viewing := v\<rparr>))"
    using keeps_trans [OF keep0] by (auto simp: moved_to_def open0 clients0)
  have "ui_inv ?D (srv1, u)" if u: "gm_get (sys_uis sys) i = Some u" for i u
  proof -
    note conn = sys_inv_conn [OF inv u]
    obtain c where c: "attach_Get (srv_clients ?srv) i = Some c" using conn(3) by blast
    then obtain c' where c': "attach_Get (srv_clients srv1) i = Some c'"
      "Viewing c' = Viewing c \<or> anyOpenSession ?srv = Some (Viewing c')" using get [of i] by auto
    show ?thesis
    proof (rule bystander [OF conn(2) ok1 _ sized1])
      show "\<And>v. v \<notin> {} \<Longrightarrow> idle (srv_sessions ?srv) v \<Longrightarrow> idle (srv_sessions srv1) v" using idle_kept [OF keep] .
      show "set (ids (srv_sessions ?srv)) \<subseteq> set (ids (srv_sessions srv1))" using keep by (simp add: mgr_keeps_def)
      then show "Viewing c' = Viewing c \<or> Viewing c' \<in> ?D \<and> known (srv_sessions srv1) (Viewing c')"
        using c'(2) open_known [OF reach] by (auto simp: known_def)
    qed (use c c'(1) conn(1) in auto)
  qed
  moreover have "attach_Get (srv_clients srv1) i = None \<longleftrightarrow> attach_Get (srv_clients ?srv) i = None" for i
    using get [of i] by auto
  moreover have "live_subs (srv_sessions srv1) \<subseteq> live_subs (srv_sessions ?srv)"
    "set (ids (srv_sessions srv1)) \<subseteq> sys_ids sys" using keep by (simp_all add: mgr_keeps_def)
  ultimately show ?thesis
    using inv ok1 sized1 sys_inv_att [OF inv] tenants_kept [OF _ keep] by (auto simp: sys_inv_def srv1_def [symmetric])
qed

section \<open>Every step\<close>

lemma end_ids:
  assumes "srv_ok srv"
  shows "set (ids (srv_sessions (ui_end (srv, u)))) = set (ids (srv_sessions srv))"
proof -
  obtain srv1 u1 where stop: "stopSub (srv, u) = (srv1, u1)" by (rule prod.exhaust)
  have "wstep {} (srv, u) (srv1, u1)" using stopSub_step [OF assms stop] by blast
  then show ?thesis by (auto simp: ui_end_def stop wstep_def)
qed

lemma sys_inv_same: "sys_inv D \<lparr>sys_srv = srv, sys_uis = m\<rparr> \<Longrightarrow> gm_get m' = gm_get m \<Longrightarrow> sys_inv D \<lparr>sys_srv = srv, sys_uis = m'\<rparr>"
  by (simp add: sys_inv_def)

lemma ui_event_inv:
  assumes inv: "sys_inv D sys" and env: "env_ok env (sys_ids sys)"
  shows "sys_inv (D \<union> disturbed env (UiEvent i ev) sys) (system_step env (UiEvent i ev) sys) \<and>
    sys_ids (system_step env (UiEvent i ev) sys) \<subseteq> insert (e_newID env) (sys_ids sys)"
proof (cases "gm_get (sys_uis sys) i")
  case None
  then show ?thesis using inv by auto
next
  case (Some u)
  obtain quit srv1 u1 where step: "ui_step env ev (sys_srv sys, u) = (quit, (srv1, u1))" by (rule prod_cases3)
  let ?sys1 = "\<lparr>sys_srv = srv1, sys_uis = gm_put i u1 (sys_uis sys)\<rparr>"
  have good: "good D {e_newID env} (sys_srv sys, u) (srv1, u1)"
    using ui_step_good [of env "(sys_srv sys, u)" D ev] env by (simp add: step)
  have "{e_newID env} \<inter> sys_ids sys = {}" using env by (simp add: env_ok_def)
  from ui_moves [OF inv Some good this] have inv1: "sys_inv D ?sys1" .
  have ids1: "sys_ids ?sys1 \<subseteq> insert (e_newID env) (sys_ids sys)"
    using good sys_inv_conn(2) [OF inv Some] by (auto simp: good_def wstep_def)
  have get1: "gm_get (sys_uis ?sys1) i = Some u1" by (simp add: gomap_simps)
  have ok1: "srv_ok srv1" using inv1 by (simp add: sys_inv_def)
  show ?thesis
    using leave_inv [OF inv1 get1] inv1 ids1 end_ids [OF ok1, of u1] by (simp add: Some step Let_def leave_def)
qed

lemma join_inv:
  assumes inv: "sys_inv D sys" and env: "env_ok env (sys_ids sys)"
  shows "sys_inv D (system_step env (Joined i iface sz) sys) \<and>
    sys_ids (system_step env (Joined i iface sz) sys) \<subseteq> insert (e_newID env) (sys_ids sys)"
proof -
  let ?c = "\<lparr>ClientID = i, Interface = iface, Viewing = '''', ClientSize = paneSizeForWindow (start_size sz) sidebarWidth\<rparr>"
  obtain e a where att: "attach_Attach (srv_clients (sys_srv sys)) ?c = (e, a)" by (rule prod.exhaust)
  show ?thesis
  proof (cases e)
    case None
    let ?sys0 = "\<lparr>sys_srv = (sys_srv sys)\<lparr>srv_clients := a\<rparr>, sys_uis = gm_put i (new_ui env i (start_size sz)) (sys_uis sys)\<rparr>"
    obtain srv1 u1 where start: "ui_start env i (start_size sz) ((sys_srv sys)\<lparr>srv_clients := a\<rparr>) = (srv1, u1)"
      by (rule prod.exhaust)
    have inv0: "sys_inv D ?sys0" using joined_inv [OF inv] att None by simp
    have get0: "gm_get (sys_uis ?sys0) i = Some (new_ui env i (start_size sz))" by (simp add: gomap_simps)
    have good: "good D {e_newID env} (sys_srv ?sys0, new_ui env i (start_size sz)) (srv1, u1)"
      using start_good [of env "sys_srv ?sys0" D i "start_size sz"] env by (simp add: start)
    have "{e_newID env} \<inter> sys_ids ?sys0 = {}" using env by (simp add: env_ok_def)
    from ui_moves [OF inv0 get0 good this] have
      "sys_inv D \<lparr>sys_srv = srv1, sys_uis = gm_put i u1 (sys_uis sys)\<rparr>"
      by (rule sys_inv_same) (simp add: gomap_simps)
    moreover have "set (ids (srv_sessions srv1)) \<subseteq> insert (e_newID env) (sys_ids sys)"
      using good sys_inv_conn(2) [OF inv0 get0] by (auto simp: good_def wstep_def)
    ultimately show ?thesis using att None start by simp
  next
    case (Some x)
    then show ?thesis using inv att by auto
  qed
qed

lemma system_step_inv:
  assumes inv: "sys_inv D sys" and env: "env_ok env (sys_ids sys)"
  shows "sys_inv (D \<union> disturbed env ev sys) (system_step env ev sys) \<and>
    sys_ids (system_step env ev sys) \<subseteq> insert (e_newID env) (sys_ids sys)"
proof (cases ev)
  case (Joined i iface sz)
  then show ?thesis using join_inv [OF inv env] by simp
next
  case (UiEvent i e)
  then show ?thesis using ui_event_inv [OF inv env] by simp
next
  case (Left i)
  have ok: "srv_ok (sys_srv sys)" using inv by (simp add: sys_inv_def)
  show ?thesis
    using leave_inv [OF inv, of i] sys_inv_att [OF inv, of i] inv end_ids [OF ok]
    by (cases "gm_get (sys_uis sys) i") (auto simp: Left viewed_def leave_def)
next
  case (Background a)
  have ok: "mgr_reach (srv_sessions (sys_srv sys))" using inv by (simp add: sys_inv_def srv_ok_def)
  have "set (ids m) = sys_ids sys" if "background a" "sm_step a (srv_sessions (sys_srv sys)) = Next m" for m
    using quiet_keeps [OF ok that(2) background_quiet [OF that(1)]] by (auto simp: mgr_keeps_def)
  then have "sys_ids (system_step env ev sys) \<subseteq> sys_ids sys"
    by (auto simp: Background background_step_def simp del: sm_step.simps split: outcome.split)
  then show ?thesis using background_inv [OF inv, of a] Background by auto
next
  case (HostLost h)
  then show ?thesis using lost_inv [OF inv, of env h] by auto
qed

text \<open>Runs.\<close>

lemma system_run_simps [simp]:
  "system_run [] sys = sys" "system_run ((env, ev) # evs) sys = system_run evs (system_step env ev sys)"
  by (simp_all add: system_run_def)

lemma empty_disturbed: "'''' \<in> disturbed_run evs sys"
  by (induction evs sys rule: disturbed_run.induct) simp_all

lemma system_run_inv:
  "sys_inv D sys \<Longrightarrow> sys_ids sys \<subseteq> used \<Longrightarrow> envs_ok used (map fst evs) \<Longrightarrow>
   sys_inv (D \<union> disturbed_run evs sys) (system_run evs sys)"
proof (induction evs sys arbitrary: D used rule: disturbed_run.induct)
  case (1 sys)
  then show ?case by (simp add: sys_inv_def insert_absorb)
next
  case (2 env ev evs sys)
  have env: "env_ok env (sys_ids sys)" "envs_ok (insert (e_newID env) used) (map fst evs)"
    using 2 env_ok_less by auto
  note step = system_step_inv [OF "2.prems"(1) env(1), of ev]
  then have "sys_inv (D \<union> disturbed env ev sys \<union> disturbed_run evs (system_step env ev sys))
      (system_run evs (system_step env ev sys))"
    using "2.prems"(2) by (intro "2.IH" [OF _ _ env(2)]) auto
  then show ?case by (simp add: Un_assoc)
qed

section \<open>From startup on\<close>

text \<open>The server as \<open>runServe\<close> builds it, before anybody attaches.\<close>

definition started :: "Config \<Rightarrow> fileRegistry \<Rightarrow> disk \<Rightarrow> ('t, 'u) system" where
  "started cfg reg fs = \<lparr>sys_srv = server_New cfg reg fs (Some NewManager) NewAttachments, sys_uis = []\<rparr>"

lemma started_inv:
  assumes "reg_wf reg"
  shows "sys_inv {''''} (started cfg reg fs)" and "sys_ids (started cfg reg fs) = {}"
proof -
  have "mgr_reach (SetHostDownHook True NewManager)"
    by (rule mgr_step [OF mgr_init, of "HookSet True"]) (simp_all add: admissible_def)
  moreover have "m_heap (SetHostDownHook True NewManager) = []" "m_sessions (SetHostDownHook True NewManager) = []"
    by (simp_all add: SetHostDownHook_def NewManager_def)
  ultimately show "sys_inv {''''} (started cfg reg fs)" and "sys_ids (started cfg reg fs) = {}"
    using assms att_ok_new
    by (auto simp: started_def server_New_def sys_inv_def srv_ok_def rsized_def manager_Get_def live_subs_def ids_def
        NewAttachments_def attach_Get_def tenants_def)
qed

section \<open>Properties\<close>


text \<open>Two clients: the first opens a session on the host, types, and detaches while the second, which
  attached to the same session, looks at it.\<close>

definition demo_crowd :: "((unit, unit) tui_env \<times> system_event) list" where
  "demo_crowd = map (\<lambda>(n, ev). (demo_env\<lparr>e_newID := n\<rparr>, ev))
     [(''s1'', Joined ''p'' ''10.0.0.9:5'' \<lparr>Rows = 40, Cols = 120\<rparr>), (''s2'', Joined ''q'' ''10.0.0.8:5'' \<lparr>Rows = 24, Cols = 80\<rparr>),
      (''s3'', UiEvent ''p'' (UiKey (plain_key 120))), (''s4'', Background (OnLive 0 (LRead [65]))),
      (''s5'', Background (OnLive 0 LBroadcast)), (''s6'', UiEvent ''q'' (UiStream (data_event [65]))),
      (''s7'', UiEvent ''p'' (UiKey (ctrl_key 68))), (''s8'', UiEvent ''p'' (UiKey (plain_key 100)))]"

lemma demo_crowd_run:
  "map fst (sys_uis (system_run demo_crowd (started demo_cfg (srv_hosts demo_srv) empty_fs))) = [''q'']"
  by code_simp


text \<open>C6: a disturbed size lasts until somebody looks.  When an attached client selects a running session, it
  views that session, and the session has the size negotiated between its viewers, whatever its size
  was before; no other size is disturbed.\<close>

theorem visit_restores_size:
  assumes ready: "ready D (srv, u)" and s: "manager_Get (srv_sessions srv) i = Some s" "SessState s = StateRunning"
    and "i \<noteq> ''''" and run: "selectSession env i (srv, u) = (srv', u')"
  shows "u_viewing u' = i \<and> rsized srv' i \<and> (\<forall>j. j \<notin> D \<longrightarrow> rsized srv' j)"
proof -
  let ?D = "insert '''' (D - {i})"
  obtain cl where "attach_Get (srv_clients srv) (u_id u) = Some cl" using ready by (auto simp: ready_def)
  then obtain srv1 where jump: "Jump srv (u_id u) i = (None, srv1)"
    using Jump_when [OF s, of "u_id u" cl] by (metis prod.collapse)
  have "ready ?D (srv1, u) \<and> known (srv_sessions srv1) i"
    using Jump_ready [of srv ?D i u srv1] jump ready by (auto simp: ready_def)
  then have "ready ?D (switchView env i (srv1, u)) \<and> u_viewing (snd (switchView env i (srv1, u))) = i"
    using switchView_ok [of ?D "(srv1, u)" i env] by simp
  moreover have "switchView env i (srv1, u) = (srv', u')" using run jump by (simp add: selectSession_def)
  ultimately have v: "u_viewing u' = i" "rsized srv' j" if "j \<notin> ?D" for j using that by (auto simp: ready_def)
  have "j \<notin> ?D" if "j \<notin> D \<or> j = i" for j using that assms(4) ready by (auto simp: ready_def)
  then show ?thesis using v by blast
qed

text \<open>A session whose viewer has room for 40 by 100, left at 24 by 54.\<close>

definition small_srv :: Server where
  "small_srv = (let srv = snd (Jump demo_srv ''c'' ''a'') in
     srv\<lparr>srv_sessions := snd (manager_Resize (srv_sessions srv) ''a'' \<lparr>Rows = 24, Cols = 54\<rparr>)\<rparr>)"

lemma small_ready: "ready {'''', ''a''} (small_srv, demo_ui)"
proof -
  have "attach_Get (srv_clients demo_srv) (u_id demo_ui) \<noteq> None" "0 < PaneW (u_pane demo_ui)" "0 < PaneH (u_pane demo_ui)"
    by code_simp+
  then have "ready {''''} (demo_srv, demo_ui)" using demo_srv_ok demo_rsized by (simp add: ready_def)
  moreover have j: "Jump demo_srv (u_id demo_ui) ''a'' = (None, snd (Jump demo_srv ''c'' ''a''))"
  proof -
    have "fst (Jump demo_srv (u_id demo_ui) ''a'') = None" "u_id demo_ui = ''c''" by code_simp+
    then show ?thesis by (simp add: prod_eq_iff)
  qed
  ultimately have r: "ready {''''} (snd (Jump demo_srv ''c'' ''a''), demo_ui)"
    using Jump_ready [of demo_srv "{''''}" "''a''" demo_ui] by (auto simp: ready_def)
  then have keep: "mgr_keeps {''a''} {} {} (srv_sessions (snd (Jump demo_srv ''c'' ''a''))) (srv_sessions small_srv)"
    using Resize_keeps by (simp add: small_srv_def Let_def ready_def srv_ok_def)
  have "rsized small_srv j" if "j \<notin> {'''', ''a''}" for j
    using rsized_kept [OF keep, of j] r that by (simp add: small_srv_def Let_def ready_def)
  then show ?thesis using r keep by (simp add: ready_def small_srv_def Let_def srv_ok_def mgr_keeps_def)
qed

theorem visit_restores_size_witness:
  "map_option SessSize (manager_Get (srv_sessions small_srv) ''a'') = Some \<lparr>Rows = 24, Cols = 54\<rparr> \<and>
   (\<exists>srv' u'. selectSession demo_env ''a'' (small_srv, demo_ui) = (srv', u') \<and> rsized srv' ''a'')"
proof -
  have size: "map_option SessSize (manager_Get (srv_sessions small_srv) ''a'') = Some \<lparr>Rows = 24, Cols = 54\<rparr>"
    and run: "map_option SessState (manager_Get (srv_sessions small_srv) ''a'') = Some StateRunning" by code_simp+
  then obtain s where "manager_Get (srv_sessions small_srv) ''a'' = Some s" "SessState s = StateRunning" by auto
  from visit_restores_size [OF small_ready this _ surjective_pairing, of demo_env] size show ?thesis
    by (metis (no_types) list.distinct(1) surjective_pairing)
qed

end
