(* ===== verification/Flags.thy ===== *)
theory Flags
  imports GoLib
begin

text \<open>
  Command-line arguments: package \<open>flag\<close> of the standard library as far as \<open>cmd/dmux\<close> uses it
  (\<open>String\<close>, \<open>Int\<close> and \<open>Bool\<close> flags, \<open>Parse\<close>, \<open>Arg\<close>), and \<open>hoistFlags\<close> of \<open>main.go\<close>, which
  moves flags in front of the positional arguments.

  \<open>flag_parse\<close> is the loop of \<open>FlagSet.Parse\<close>, which stops at the first word that is no flag;
  \<open>anywhere\<close> is the reading \<open>hoistFlags\<close> is meant to give: flags and positional words in any order.
\<close>

section \<open>Values\<close>

datatype flag_kind = StrFlag | IntFlag | BoolFlag
datatype flag_val = FStr string | FInt int | FBool bool

datatype flag_error =
    BadSyntax string | FlagHelp | NotDefined string | BadBool string string
  | NeedsArg string | BadValue string string

text \<open>\<open>strconv.ParseInt\<close> with base 0 and 64 bits: signs, the prefixes of the bases 2, 8 and 16, and
  underscores between digits.\<close>

definition digit_value :: "char \<Rightarrow> nat option" where
  "digit_value c =
    (let n = code_of c; l = code_of (lower_char c) in
     if 48 \<le> n \<and> n \<le> 57 then Some (n - 48)
     else if 97 \<le> l \<and> l \<le> 122 then Some (l - 87) else None)"

fun digits_base :: "nat \<Rightarrow> int \<Rightarrow> string \<Rightarrow> int option" where
  "digits_base b acc [] = Some acc"
| "digits_base b acc (c # cs) =
     (if c = CHR ''_'' then digits_base b acc cs
      else case digit_value c of
        None \<Rightarrow> None
      | Some d \<Rightarrow> if d \<ge> b then None else digits_base b (acc * int b + int d) cs)"

text \<open>The flag tells whether the previous character lets an underscore follow.\<close>

fun underscores_between :: "bool \<Rightarrow> bool \<Rightarrow> bool \<Rightarrow> string \<Rightarrow> bool" where
  "underscores_between hex digit us [] = (\<not> us)"
| "underscores_between hex digit us (c # cs) =
     (let n = code_of c; l = code_of (lower_char c) in
      if 48 \<le> n \<and> n \<le> 57 \<or> hex \<and> 97 \<le> l \<and> l \<le> 102 then underscores_between hex True False cs
      else if c = CHR ''_'' then digit \<and> underscores_between hex False True cs
      else \<not> us \<and> underscores_between hex False False cs)"

definition base_prefix :: "string \<Rightarrow> char option" where
  "base_prefix s = (case s of
       z # p # _ \<Rightarrow> if z = CHR ''0'' \<and> lower_char p \<in> {CHR ''b'', CHR ''o'', CHR ''x''} then Some (lower_char p) else None
     | _ \<Rightarrow> None)"

definition underscoreOK :: "string \<Rightarrow> bool" where
  "underscoreOK s =
    (case base_prefix s of
       Some p \<Rightarrow> underscores_between (p = CHR ''x'') True False (drop 2 s)
     | None \<Rightarrow> underscores_between False False False s)"

definition parse_uint :: "string \<Rightarrow> int option" where
  "parse_uint s =
    (if s = [] then None
     else
       let (b, t) =
         (if hd s = CHR ''0'' then
            (case (if length s \<ge> 3 then base_prefix s else None) of
               Some p \<Rightarrow> (if p = CHR ''b'' then 2 else if p = CHR ''o'' then 8 else 16, drop 2 s)
             | None \<Rightarrow> (8, drop 1 s))
          else (10, s))
       in case digits_base b 0 t of
            None \<Rightarrow> None
          | Some n \<Rightarrow> if CHR ''_'' \<in> set t \<and> \<not> underscoreOK s then None else Some n)"

definition parse_int :: "string \<Rightarrow> int option" where
  "parse_int s =
    (let neg = has_prefix s ''-''; t = (if neg \<or> has_prefix s ''+'' then drop 1 s else s) in
     case parse_uint t of
       None \<Rightarrow> None
     | Some n \<Rightarrow>
         if neg then (if n \<le> 2 ^ 63 then Some (- n) else None)
         else (if n < 2 ^ 63 then Some n else None))"

definition parse_bool :: "string \<Rightarrow> bool option" where
  "parse_bool s =
    (if s \<in> {''1'', ''t'', ''T'', ''TRUE'', ''true'', ''True''} then Some True
     else if s \<in> {''0'', ''f'', ''F'', ''FALSE'', ''false'', ''False''} then Some False
     else None)"

section \<open>Parsing\<close>

type_synonym formals = "(string \<times> flag_kind) list"
type_synonym settings = "(string \<times> flag_val) list"

datatype token = NotFlag | Terminator | BadToken | FlagToken string "string option"

definition classify :: "string \<Rightarrow> token" where
  "classify s =
    (if length s < 2 \<or> hd s \<noteq> CHR ''-'' then NotFlag
     else if s = ''--'' then Terminator
     else
       let name = (if s ! 1 = CHR ''-'' then drop 2 s else drop 1 s) in
       if name = [] \<or> hd name = CHR ''-'' \<or> hd name = CHR ''='' then BadToken
       else case index_of (CHR ''='') name of
         Some k \<Rightarrow> FlagToken (take k name) (Some (drop (k + 1) name))
       | None \<Rightarrow> FlagToken name None)"

definition read_value :: "flag_kind \<Rightarrow> string \<Rightarrow> string \<Rightarrow> flag_error + flag_val" where
  "read_value k name t =
    (case k of
       StrFlag \<Rightarrow> Inr (FStr t)
     | IntFlag \<Rightarrow> (case parse_int t of Some n \<Rightarrow> Inr (FInt n) | None \<Rightarrow> Inl (BadValue t name))
     | BoolFlag \<Rightarrow> (case parse_bool t of Some b \<Rightarrow> Inr (FBool b) | None \<Rightarrow> Inl (BadBool t name)))"

text \<open>A flag takes its value after \<open>=\<close>, or else, unless it is boolean, the next word.\<close>

definition set_flag ::
  "formals \<Rightarrow> string \<Rightarrow> string option \<Rightarrow> string list \<Rightarrow> flag_error + (flag_val \<times> string list)" where
  "set_flag fm name v rest =
    (case map_of fm name of
       None \<Rightarrow> Inl (if name = ''help'' \<or> name = ''h'' then FlagHelp else NotDefined name)
     | Some k \<Rightarrow>
        (case v of
           Some t \<Rightarrow> map_sum id (\<lambda>x. (x, rest)) (read_value k name t)
         | None \<Rightarrow>
            if k = BoolFlag then Inr (FBool True, rest)
            else (case rest of
                [] \<Rightarrow> Inl (NeedsArg name)
              | t # rest' \<Rightarrow> map_sum id (\<lambda>x. (x, rest')) (read_value k name t))))"

lemma set_flag_shorter: "set_flag fm name v rest = Inr (x, rest') \<Longrightarrow> length rest' \<le> length rest"
  by (auto simp: set_flag_def map_sum_def split: option.splits list.splits if_splits sum.splits)

function flag_parse :: "formals \<Rightarrow> string list \<Rightarrow> flag_error + (settings \<times> string list)" where
  "flag_parse fm [] = Inr ([], [])"
| "flag_parse fm (s # rest) =
    (case classify s of
       NotFlag \<Rightarrow> Inr ([], s # rest)
     | Terminator \<Rightarrow> Inr ([], rest)
     | BadToken \<Rightarrow> Inl (BadSyntax s)
     | FlagToken name v \<Rightarrow>
        (case set_flag fm name v rest of
           Inl e \<Rightarrow> Inl e
         | Inr (x, rest') \<Rightarrow>
            map_sum id (\<lambda>(sets, pos). ((name, x) # sets, pos)) (flag_parse fm rest')))"
  by pat_completeness auto

termination
  by (relation "measure (\<lambda>(fm, args). length args)") (auto dest!: set_flag_shorter)

text \<open>The last setting of a flag counts.\<close>

definition flag_str :: "string \<Rightarrow> string \<Rightarrow> settings \<Rightarrow> string" where
  "flag_str name d sets = (case map_of (rev sets) name of Some (FStr s) \<Rightarrow> s | _ \<Rightarrow> d)"

definition flag_int :: "string \<Rightarrow> int \<Rightarrow> settings \<Rightarrow> int" where
  "flag_int name d sets = (case map_of (rev sets) name of Some (FInt n) \<Rightarrow> n | _ \<Rightarrow> d)"

definition flag_bool :: "string \<Rightarrow> bool \<Rightarrow> settings \<Rightarrow> bool" where
  "flag_bool name d sets = (case map_of (rev sets) name of Some (FBool b) \<Rightarrow> b | _ \<Rightarrow> d)"

section \<open>Flags in front\<close>

fun hoist :: "string list \<Rightarrow> string list \<times> string list" where
  "hoist [] = ([], [])"
| "hoist [a] = (if has_prefix a ''-'' then ([a], []) else ([], [a]))"
| "hoist (a # b # rest) =
    (if has_prefix a ''-'' then
       (if \<not> contains a ''='' then (case hoist rest of (fl, pos) \<Rightarrow> (a # b # fl, pos))
        else (case hoist (b # rest) of (fl, pos) \<Rightarrow> (a # fl, pos)))
     else (case hoist (b # rest) of (fl, pos) \<Rightarrow> (fl, a # pos)))"

definition hoistFlags :: "string list \<Rightarrow> string list" where
  "hoistFlags args = (case hoist args of (fl, pos) \<Rightarrow> fl @ pos)"

section \<open>What it is for\<close>

function anywhere :: "formals \<Rightarrow> string list \<Rightarrow> flag_error + (settings \<times> string list)" where
  "anywhere fm [] = Inr ([], [])"
| "anywhere fm (s # rest) =
    (case classify s of
       NotFlag \<Rightarrow> map_sum id (\<lambda>(sets, pos). (sets, s # pos)) (anywhere fm rest)
     | Terminator \<Rightarrow> Inr ([], rest)
     | BadToken \<Rightarrow> Inl (BadSyntax s)
     | FlagToken name v \<Rightarrow>
        (case set_flag fm name v rest of
           Inl e \<Rightarrow> Inl e
         | Inr (x, rest') \<Rightarrow>
            map_sum id (\<lambda>(sets, pos). ((name, x) # sets, pos)) (anywhere fm rest')))"
  by pat_completeness auto

termination
  by (relation "measure (\<lambda>(fm, args). length args)") (auto dest!: set_flag_shorter)

text \<open>Every word that begins with a dash is a flag that takes a value, and has one.\<close>

fun well_given :: "formals \<Rightarrow> string list \<Rightarrow> bool" where
  "well_given fm [] = True"
| "well_given fm [a] =
    (has_prefix a ''-'' \<longrightarrow> (case classify a of FlagToken name (Some t) \<Rightarrow> map_of fm name \<noteq> Some BoolFlag | _ \<Rightarrow> False))"
| "well_given fm (a # b # rest) =
    (if has_prefix a ''-'' then
       (case classify a of
          FlagToken name v \<Rightarrow> map_of fm name \<noteq> Some BoolFlag \<and> well_given fm (if v = None then rest else b # rest)
        | _ \<Rightarrow> False)
     else well_given fm (b # rest))"

section \<open>Hoisting is harmless\<close>

lemma contains_char: "contains s [c] \<longleftrightarrow> c \<in> set s"
  by (induction s) (auto simp: has_prefix_def)

lemma index_of_None: "index_of c s = None \<longleftrightarrow> c \<notin> set s"
proof -
  have "length (takeWhile (\<lambda>x. x \<noteq> c) s) < length s \<longleftrightarrow> c \<in> set s"
    by (metis (mono_tags, lifting) nat_neq_iff takeWhile_eq_all_conv length_takeWhile_le linorder_not_less nth_length_takeWhile
        takeWhile_eq_take take_all)
  then show ?thesis by (auto simp: index_of_def Let_def)
qed

text \<open>A word that is no option at all, and one that the parser takes for a flag.\<close>

abbreviation operand :: "string \<Rightarrow> bool" where
  "operand s \<equiv> \<not> has_prefix s ''-''"

lemma classify_word: "operand s \<Longrightarrow> classify s = NotFlag"
  by (cases s) (auto simp: classify_def has_prefix_def)

lemma classify_flag:
  assumes "classify s = FlagToken name v"
  shows "has_prefix s ''-''" "contains s ''='' \<longleftrightarrow> v \<noteq> None"
proof -
  have s: "\<not> (length s < 2 \<or> hd s \<noteq> CHR ''-'')" "s \<noteq> ''--''"
    using assms by (auto simp: classify_def split: if_splits)
  then obtain c rest where s': "s = CHR ''-'' # c # rest" by (cases s; cases "tl s") auto
  then show "has_prefix s ''-''" by (simp add: has_prefix_def)
  let ?name = "if c = CHR ''-'' then rest else c # rest"
  have "v = None \<longleftrightarrow> index_of (CHR ''='') ?name = None"
    using assms s by (auto simp: classify_def s' Let_def split: option.splits if_splits)
  moreover have "CHR ''='' \<in> set s \<longleftrightarrow> CHR ''='' \<in> set ?name" by (auto simp: s')
  ultimately show "contains s ''='' \<longleftrightarrow> v \<noteq> None" by (simp add: contains_char index_of_None)
qed

lemma parse_words: "list_all operand q \<Longrightarrow> flag_parse fm q = Inr ([], q)"
  by (cases q) (simp_all add: classify_word)

text \<open>How the parser goes on after a flag that takes a value.\<close>

lemma set_flag_value:
  assumes "map_of fm name \<noteq> Some BoolFlag"
  shows "set_flag fm name None (t # rest) = set_flag fm name (Some t) rest"
    "set_flag fm name (Some t) rest = map_sum id (\<lambda>(x, _). (x, rest)) (set_flag fm name (Some t) rest')"
  using assms by (auto simp: set_flag_def map_sum_def split: option.splits sum.splits)

definition reads :: "formals \<Rightarrow> string list \<Rightarrow> string list \<Rightarrow> string list \<Rightarrow> bool" where
  "reads fm args fl pos \<longleftrightarrow> list_all operand pos \<and>
     (\<forall>q. list_all operand q \<longrightarrow> flag_parse fm (fl @ q) = map_sum id (\<lambda>(sets, _). (sets, q)) (anywhere fm args)) \<and>
     (\<forall>sets p. anywhere fm args = Inr (sets, p) \<longrightarrow> p = pos)"

lemma reads_flag:
  assumes "classify a = FlagToken name v" "map_of fm name \<noteq> Some BoolFlag" "reads fm rest fl pos"
    and "v = None \<Longrightarrow> args = a # t # rest \<and> fl' = a # t # fl" "v \<noteq> None \<Longrightarrow> args = a # rest \<and> fl' = a # fl"
  shows "reads fm args fl' pos"
proof -
  obtain t' where head: "flag_parse fm (fl' @ q) = (case set_flag fm name (Some t') (fl @ q) of
        Inl e \<Rightarrow> Inl e
      | Inr (x, rest') \<Rightarrow> map_sum id (\<lambda>(sets, pos). ((name, x) # sets, pos)) (flag_parse fm rest'))"
    "anywhere fm args = (case set_flag fm name (Some t') rest of
        Inl e \<Rightarrow> Inl e
      | Inr (x, rest') \<Rightarrow> map_sum id (\<lambda>(sets, pos). ((name, x) # sets, pos)) (anywhere fm rest'))" for q
    using assms(1,2,4,5) by (cases v) (fastforce simp: set_flag_value(1))+
  consider (bad) e where "\<And>r. set_flag fm name (Some t') r = Inl e"
    | (ok) x where "\<And>r. set_flag fm name (Some t') r = Inr (x, r)"
    by (cases "map_of fm name"; cases "read_value (the (map_of fm name)) name t'") (auto simp: set_flag_def)
  then show ?thesis
  proof cases
    case bad
    then show ?thesis using assms(3) by (simp add: reads_def head)
  next
    case ok
    then show ?thesis using assms(3)
      by (auto simp: reads_def head map_sum_def split: sum.splits)
  qed
qed

lemma reads_word: "operand a \<Longrightarrow> reads fm rest fl pos \<Longrightarrow> reads fm (a # rest) fl (a # pos)"
  by (auto simp: reads_def classify_word map_sum_def split: sum.splits)

lemma hoist_reads: "well_given fm args \<Longrightarrow> hoist args = (fl, pos) \<Longrightarrow> reads fm args fl pos"
proof (induction args arbitrary: fl pos rule: hoist.induct)
  case 1
  then show ?case by (simp add: reads_def parse_words)
next
  case (2 a)
  have nil: "reads fm [] [] []" by (simp add: reads_def parse_words)
  show ?case
  proof (cases "has_prefix a ''-''")
    case True
    then obtain name t where "classify a = FlagToken name (Some t)" "map_of fm name \<noteq> Some BoolFlag"
      using 2(1) by (auto split: token.splits option.splits)
    with reads_flag [OF this nil, of "[a]" undefined "[a]"] True 2(2) show ?thesis by simp
  next
    case False
    then show ?thesis using 2(2) reads_word [OF False nil] by simp
  qed
next
  case (3 a b rest)
  show ?case
  proof (cases "has_prefix a ''-''")
    case True
    then obtain name v where tok: "classify a = FlagToken name v" "map_of fm name \<noteq> Some BoolFlag"
      and given: "well_given fm (if v = None then rest else b # rest)"
      using 3(4) by (auto split: token.splits)
    note eq = classify_flag(2) [OF tok(1)]
    obtain fl1 pos1 where h: "hoist (if v = None then rest else b # rest) = (fl1, pos1)" by (rule prod.exhaust)
    then have "reads fm (if v = None then rest else b # rest) fl1 pos1"
      using 3(1,2) True eq given by (cases v) auto
    moreover have "v = None \<Longrightarrow> fl = a # b # fl1" "v \<noteq> None \<Longrightarrow> fl = a # fl1" "pos = pos1"
      using 3(5) True eq h by (cases v, simp_all)+
    ultimately show ?thesis
      using reads_flag [OF tok, of "if v = None then rest else b # rest" fl1 pos1 "a # b # rest" b fl] by simp
  next
    case False
    obtain fl1 pos1 where h: "hoist (b # rest) = (fl1, pos1)" by (rule prod.exhaust)
    moreover have "well_given fm (b # rest)" using 3(4) False by simp
    ultimately have "reads fm (b # rest) fl1 pos1" using 3(3) False by blast
    with reads_word [OF False this] h 3(5) False show ?thesis by simp
  qed
qed



text \<open>Where hoisting goes wrong: a last flag without a value is given the positional argument that
  came before it, and a word after a boolean flag stops the parser, so that the flags behind it are
  ignored without an error.\<close>

lemma hoist_swallows:
  "flag_parse [(''user'', StrFlag)] (hoistFlags [''h1'', ''--user'']) = Inr ([(''user'', FStr ''h1'')], [])"
  "flag_parse [(''dry-run'', BoolFlag), (''port'', IntFlag)] (hoistFlags [''--port'', ''2222'', ''--dry-run'', ''x'']) =
     Inr ([(''port'', FInt 2222), (''dry-run'', FBool True)], [''x''])"
  "flag_parse [(''dry-run'', BoolFlag), (''port'', IntFlag)] (hoistFlags [''--dry-run'', ''x'', ''--port'', ''2222'']) =
     Inr ([(''dry-run'', FBool True)], [''x'', ''--port'', ''2222''])"
  by code_simp+

end
