(* ===== verification/IpAddr.thy ===== *)
theory IpAddr
  imports GoLib
begin

text \<open>
  \<open>net.ParseIP\<close> and \<open>IP.To4\<close>, which \<open>cmd/dmux/setup.go\<close> uses to recognise the private range of
  WSL2: dotted IPv4 addresses, and IPv6 addresses with their ellipsis and their trailing IPv4 part.
  An address is its 16 bytes.
\<close>

section \<open>IPv4\<close>

definition is_digit :: "char \<Rightarrow> bool" where
  "is_digit c \<longleftrightarrow> 48 \<le> code_of c \<and> code_of c \<le> 57"

definition decimal :: "string \<Rightarrow> nat" where
  "decimal w = foldl (\<lambda>n c. n * 10 + (code_of c - 48)) 0 w"

text \<open>A field without a leading zero, of at most 255.\<close>

definition octet :: "string \<Rightarrow> byte option" where
  "octet w =
    (if w = [] \<or> \<not> list_all is_digit w \<or> (1 < length w \<and> hd w = CHR ''0'') \<or> 3 < length w \<or> 255 < decimal w then None
     else Some (of_nat (decimal w)))"

definition parse_ipv4 :: "string \<Rightarrow> byte list option" where
  "parse_ipv4 s =
    (case map octet (split_on (CHR ''.'') s) of
       [Some a, Some b, Some c, Some d] \<Rightarrow> Some [a, b, c, d]
     | _ \<Rightarrow> None)"

section \<open>IPv6\<close>

definition hex_value :: "char \<Rightarrow> nat option" where
  "hex_value c =
    (let n = code_of c; l = code_of (lower_char c) in
     if 48 \<le> n \<and> n \<le> 57 then Some (n - 48) else if 97 \<le> l \<and> l \<le> 102 then Some (l - 87) else None)"

definition hex_group :: "string \<Rightarrow> nat" where
  "hex_group w = foldl (\<lambda>n c. n * 16 + (case hex_value c of Some d \<Rightarrow> d | None \<Rightarrow> 0)) 0 w"

text \<open>The loop over the groups; \<open>k\<close> is how many still fit into the 16 bytes, \<open>el\<close> where the
  ellipsis was.\<close>

fun v6_groups :: "nat \<Rightarrow> byte list \<Rightarrow> nat option \<Rightarrow> string \<Rightarrow> (byte list \<times> nat option \<times> string) option" where
  "v6_groups 0 ip el s = Some (ip, el, s)"
| "v6_groups (Suc k) ip el s =
    (let g = takeWhile (\<lambda>c. hex_value c \<noteq> None) s; r = drop (length g) s;
         ip1 = ip @ [of_nat (hex_group g div 256), of_nat (hex_group g)] in
     if g = [] \<or> 4 < length g then None
     else if has_prefix r ''.'' then
       (if el = None \<and> length ip \<noteq> 12 \<or> 16 < length ip + 4 then None
        else map_option (\<lambda>f. (ip @ f, el, [])) (parse_ipv4 s))
     else if r = [] then Some (ip1, el, [])
     else if \<not> has_prefix r '':'' \<or> length r = 1 then None
     else if has_prefix r ''::'' then
       (if el \<noteq> None then None
        else if length r = 2 then Some (ip1, Some (length ip1), [])
        else v6_groups k ip1 (Some (length ip1)) (drop 2 r))
     else v6_groups k ip1 el (drop 1 r))"

definition parse_ipv6 :: "string \<Rightarrow> byte list option" where
  "parse_ipv6 s =
    (if CHR ''%'' \<in> set s then None
     else if s = ''::'' then Some (replicate 16 0)
     else
       case v6_groups 8 [] (if has_prefix s ''::'' then Some 0 else None) (trim_prefix s ''::'') of
         None \<Rightarrow> None
       | Some (ip, el, r) \<Rightarrow>
          if r \<noteq> [] then None
          else if length ip < 16 then
            (case el of None \<Rightarrow> None
             | Some e \<Rightarrow> Some (take e ip @ replicate (16 - length ip) 0 @ drop e ip))
          else if el \<noteq> None then None
          else Some ip)"

section \<open>Both\<close>

definition v4_in_v6 :: "byte list \<Rightarrow> byte list" where
  "v4_in_v6 f = replicate 10 0 @ [0xFF, 0xFF] @ f"

definition ParseIP :: "string \<Rightarrow> byte list option" where
  "ParseIP s =
    (case dropWhile (\<lambda>c. c \<notin> set ''.:%'') s of
       c # _ \<Rightarrow> if c = CHR ''.'' then map_option v4_in_v6 (parse_ipv4 s)
          else if c = CHR '':'' then parse_ipv6 s else None
     | [] \<Rightarrow> None)"

definition To4 :: "byte list \<Rightarrow> byte list option" where
  "To4 ip = (if take 12 ip = replicate 10 0 @ [0xFF, 0xFF] then Some (drop 12 ip) else None)"

section \<open>Dotted addresses\<close>

definition dotted :: "byte \<Rightarrow> byte \<Rightarrow> byte \<Rightarrow> byte \<Rightarrow> string" where
  "dotted a b c d = digits_of (unat a) @ ''.'' @ digits_of (unat b) @ ''.'' @ digits_of (unat c) @ ''.'' @ digits_of (unat d)"

definition digit_char :: "nat \<Rightarrow> char" where
  "digit_char k = char_of (48 + k)"

lemma digit_char [simp]: "k < 10 \<Longrightarrow> code_of (digit_char k) = 48 + k" "k < 10 \<Longrightarrow> is_digit (digit_char k)"
  "k < 10 \<Longrightarrow> digit_char k = CHR ''0'' \<longleftrightarrow> k = 0"
proof -
  show code: "code_of (digit_char k) = 48 + k" if "k < 10" using that by (simp add: digit_char_def code_of_def)
  show "is_digit (digit_char k)" if "k < 10" using that by (simp add: is_digit_def code)
  show "digit_char k = CHR ''0'' \<longleftrightarrow> k = 0" if "k < 10"
  proof
    assume "digit_char k = CHR ''0''"
    then show "k = 0" using code [OF that] by (simp add: code_of_def)
  next
    assume "k = 0"
    then show "digit_char k = CHR ''0''" by (simp add: digit_char_def) code_simp
  qed
qed

lemma digits_of_step: "digits_of n = (if n < 10 then [digit_char n] else digits_of (n div 10) @ [digit_char (n mod 10)])"
  by (simp add: digits_of.simps [of n] digit_char_def)

lemma digits_of_small:
  "n < 10 \<Longrightarrow> digits_of n = [digit_char n]"
  "10 \<le> n \<Longrightarrow> n < 100 \<Longrightarrow> digits_of n = [digit_char (n div 10), digit_char (n mod 10)]"
  "100 \<le> n \<Longrightarrow> n < 1000 \<Longrightarrow>
     digits_of n = [digit_char (n div 10 div 10), digit_char (n div 10 mod 10), digit_char (n mod 10)]"
proof -
  show one: "digits_of n = [digit_char n]" if "n < 10" for n
    using that by (simp add: digits_of_step)
  show two: "digits_of n = [digit_char (n div 10), digit_char (n mod 10)]" if "10 \<le> n" "n < 100" for n
    using that one [of "n div 10"] by (simp add: digits_of_step [of n])
  show "digits_of n = [digit_char (n div 10 div 10), digit_char (n div 10 mod 10), digit_char (n mod 10)]"
    if "100 \<le> n" "n < 1000"
    using that two [of "n div 10"] by (simp add: digits_of_step [of n])
qed

lemma decimal_join: "((n :: nat) div 10 div 10 * 10 + n div 10 mod 10) * 10 + n mod 10 = n"
  by (simp only: div_mult_mod_eq)

lemma octet_small:
  assumes "n < 256"
  shows "octet (digits_of n) = Some (of_nat n)" "list_all is_digit (digits_of n)"
proof -
  consider "n < 10" | "10 \<le> n" "n < 100" | "100 \<le> n" by linarith
  then have "octet (digits_of n) = Some (of_nat n) \<and> list_all is_digit (digits_of n)"
  proof cases
    case 1
    then show ?thesis by (simp add: digits_of_small octet_def decimal_def)
  next
    case 2
    then have "n div 10 < 10" "n div 10 \<noteq> 0" "n div 10 * 10 + n mod 10 = n" by simp_all
    with 2 show ?thesis by (simp add: digits_of_small octet_def decimal_def)
  next
    case 3
    then have "n div 10 div 10 < 10" "n div 10 div 10 \<noteq> 0" using assms by (simp_all flip: div_mult2_eq)
    with 3 assms show ?thesis
      by (simp add: digits_of_small octet_def decimal_def decimal_join)
  qed
  then show "octet (digits_of n) = Some (of_nat n)" "list_all is_digit (digits_of n)" by simp_all
qed

lemma octet_digits: "octet (digits_of (unat (b :: byte))) = Some b" "list_all is_digit (digits_of (unat (b :: byte)))"
  using octet_small [OF unat_byte_less [of b]] by simp_all

lemma digit_no_dot: "list_all is_digit w \<Longrightarrow> CHR ''.'' \<notin> set w \<and> CHR '':'' \<notin> set w \<and> CHR ''%'' \<notin> set w"
  by (induction w) (auto simp: is_digit_def code_of_def)

lemma parse_dotted: "parse_ipv4 (dotted a b c d) = Some [a, b, c, d]"
proof -
  have "split_on (CHR ''.'') (dotted a b c d) = [digits_of (unat a), digits_of (unat b), digits_of (unat c), digits_of (unat d)]"
    using digit_no_dot [OF octet_digits(2)] by (simp add: dotted_def split_on_append split_on_none)
  then show ?thesis by (simp add: parse_ipv4_def octet_digits)
qed

lemma ParseIP_dotted: "ParseIP (dotted a b c d) = Some (v4_in_v6 [a, b, c, d])"
proof -
  have "dropWhile (\<lambda>c. c \<notin> set ''.:%'') (w @ CHR ''.'' # r) = CHR ''.'' # r" if "list_all is_digit w" for w r
    using that digit_no_dot [OF that] by (induction w) auto
  then have "\<exists>r. dropWhile (\<lambda>c. c \<notin> set ''.:%'') (dotted a b c d) = CHR ''.'' # r"
    using octet_digits(2) [of a] by (simp add: dotted_def)
  then show ?thesis by (auto simp: ParseIP_def parse_dotted)
qed

lemma To4_v4 [simp]: "To4 (v4_in_v6 f) = Some f"
  by (simp add: To4_def v4_in_v6_def)

end
