(* ===== verification/Setup.thy ===== *)
theory Setup
  imports Flags IpAddr "HOL-Library.Sublist"
begin

text \<open>
  \<open>cmd/dmux/setup.go\<close>: \<open>dmux setup wsl\<close>, which prepares a machine to be a host.

  A run works on \<open>setup_state\<close>: the files, the commands that were executed and the lines that were
  printed, in order.  Everything the program asks the machine is in \<open>setup_env\<close>; whether a command
  succeeds may depend on the commands before it.  The SSH library's part of \<open>fetchServerKey\<close> is
  \<open>PresentedKey\<close>: the \<open>authorized_keys\<close> line of the host key a server presents, if it presents one.
\<close>

section \<open>State\<close>

record pkgMgr =
  PmBin :: string
  PmInstall :: "string list"
  PmUpdate :: "string list"
  PmService :: string

record setupOpts =
  serverKey :: string
  sshPort :: int
  loginUser :: string
  dryRun :: bool
  portproxy :: bool
  pm :: pkgMgr
  discoveredIP :: string

text \<open>A command with its arguments and what it reads on standard input.\<close>

datatype cmd = Cmd string "string list" string

datatype setup_msg =
    FetchedKey string | Preparing | DryRunNote | StepMsg string | WouldAuthorize string string string
  | AlreadyAuthorized | WouldRun string | WouldFeed string string | NetworkingMsg | ReachedFrom string
  | ReachableAt string | NatGuidance string int | PortproxyFailed | PortproxyHint | ConnectLine string

datatype setup_error =
    MissingPlatform | UnsupportedPlatform string | SetupFlags flag_error | FetchFailed string
  | NoServer | EmptyKey | ReadKeyFile | NotAKey string | PortOutOfRange int | NotWSL | NoPkgMgr | NoSudo
  | StepFailed string setup_error | NoHome | MkdirFailed | OpenFailed | WriteFailed | ChmodFailed
  | CmdFailed cmd | CannotStart

record setup_env =
  LookPath :: "string \<Rightarrow> string option"
  Euid0 :: bool
  UserHomeDir :: "string option"
  CurrentUser :: "(string \<times> string) option"
  EnvUser :: string
  EnvWSL :: string
  HostnameI :: "string option"
  DialTCP :: "string \<Rightarrow> string option option"
  PresentedKey :: "string \<Rightarrow> string option"
  RunCmd :: "cmd list \<Rightarrow> cmd \<Rightarrow> bool"
  WriteOk :: "string \<Rightarrow> bool"
  ChmodOk :: "string \<Rightarrow> bool"
  LowerU :: "string \<Rightarrow> string"

record setup_state =
  files :: "string fsys"
  ran :: "cmd list"
  said :: "setup_msg list"

type_synonym step = "setup_state \<Rightarrow> setup_error option \<times> setup_state"

definition say :: "setup_msg list \<Rightarrow> setup_state \<Rightarrow> setup_state" where
  "say ms st = st\<lparr>said := said st @ ms\<rparr>"

definition and_then :: "step \<Rightarrow> step \<Rightarrow> step" where
  "and_then f g st = (case f st of (Some e, st1) \<Rightarrow> (Some e, st1) | (None, st1) \<Rightarrow> g st1)"

section \<open>Running commands\<close>

text \<open>The texts given to it stay far below the limit of a \<open>bufio.Scanner\<close>.\<close>

definition indent :: "string \<Rightarrow> string \<Rightarrow> string" where
  "indent s pre = concat (map (\<lambda>l. pre @ l @ [NL]) (scan_lines s))"

definition sh :: "setup_env \<Rightarrow> setupOpts \<Rightarrow> string \<Rightarrow> string list \<Rightarrow> step" where
  "sh env opts name args st =
    (if dryRun opts then (None, say [WouldRun (name @ '' '' @ join_with '' '' args)] st)
     else let c = Cmd name args '''' in
       (if RunCmd env (ran st) c then None else Some (CmdFailed c), st\<lparr>ran := ran st @ [c]\<rparr>))"

definition shStdin :: "setup_env \<Rightarrow> setupOpts \<Rightarrow> string \<Rightarrow> string \<Rightarrow> string list \<Rightarrow> step" where
  "shStdin env opts inp name args st =
    (if dryRun opts then (None, say [WouldFeed (name @ '' '' @ join_with '' '' args) (indent inp ''      '')] st)
     else let c = Cmd name args inp in
       (if RunCmd env (ran st) c then None else Some (CmdFailed c), st\<lparr>ran := ran st @ [c]\<rparr>))"

definition isRoot :: "setup_env \<Rightarrow> bool" where
  "isRoot env = Euid0 env"

definition elevate :: "setup_env \<Rightarrow> string \<Rightarrow> string list \<Rightarrow> string \<times> string list" where
  "elevate env name args = (if isRoot env then (name, args) else (''sudo'', name # args))"

definition shRoot :: "setup_env \<Rightarrow> setupOpts \<Rightarrow> string \<Rightarrow> string list \<Rightarrow> step" where
  "shRoot env opts name args = (case elevate env name args of (n, a) \<Rightarrow> sh env opts n a)"

definition shRootStdin :: "setup_env \<Rightarrow> setupOpts \<Rightarrow> string \<Rightarrow> string \<Rightarrow> string list \<Rightarrow> step" where
  "shRootStdin env opts inp name args = (case elevate env name args of (n, a) \<Rightarrow> shStdin env opts inp n a)"

section \<open>The machine\<close>

definition candidates :: "pkgMgr list" where
  "candidates =
    [\<lparr>PmBin = ''apt-get'', PmInstall = [''apt-get'', ''install'', ''-y'', ''openssh-server''],
        PmUpdate = [''apt-get'', ''update''], PmService = ''ssh''\<rparr>,
     \<lparr>PmBin = ''dnf'', PmInstall = [''dnf'', ''install'', ''-y'', ''openssh-server''], PmUpdate = [], PmService = ''sshd''\<rparr>,
     \<lparr>PmBin = ''yum'', PmInstall = [''yum'', ''install'', ''-y'', ''openssh-server''], PmUpdate = [], PmService = ''sshd''\<rparr>,
     \<lparr>PmBin = ''pacman'', PmInstall = [''pacman'', ''-S'', ''--needed'', ''--noconfirm'', ''openssh''],
        PmUpdate = [''pacman'', ''-Sy'', ''--noconfirm''], PmService = ''sshd''\<rparr>,
     \<lparr>PmBin = ''zypper'', PmInstall = [''zypper'', ''--non-interactive'', ''install'', ''openssh''], PmUpdate = [],
        PmService = ''sshd''\<rparr>,
     \<lparr>PmBin = ''apk'', PmInstall = [''apk'', ''add'', ''openssh''], PmUpdate = [''apk'', ''update''], PmService = ''sshd''\<rparr>]"

definition detectPkgMgr :: "setup_env \<Rightarrow> pkgMgr option" where
  "detectPkgMgr env = find (\<lambda>c. LookPath env (PmBin c) \<noteq> None) candidates"

definition isWSL :: "setup_env \<Rightarrow> string fsys \<Rightarrow> bool" where
  "isWSL env fs =
    (if EnvWSL env \<noteq> '''' then True
     else case fs_read fs ''/proc/version'' of
       RData raw \<Rightarrow> (let v = to_lower (LowerU env) raw in contains v ''microsoft'' \<or> contains v ''wsl'')
     | _ \<Rightarrow> False)"

definition defaultUser :: "setup_env \<Rightarrow> string" where
  "defaultUser env =
    (case CurrentUser env of
       Some (name, _) \<Rightarrow> if name \<noteq> '''' then name else if EnvUser env \<noteq> '''' then EnvUser env else ''root''
     | None \<Rightarrow> if EnvUser env \<noteq> '''' then EnvUser env else ''root'')"

definition expandHome :: "setup_env \<Rightarrow> string \<Rightarrow> string" where
  "expandHome env p =
    (if p = ''~'' \<or> has_prefix p ''~/'' then
       (case CurrentUser env of
          Some (_, home) \<Rightarrow> path_join [home, trim_prefix p ''~'']
        | None \<Rightarrow> p)
     else p)"

section \<open>The server's key\<close>

definition ensureServerPort :: "string \<Rightarrow> string" where
  "ensureServerPort addr = (case split_host_port addr of Inr _ \<Rightarrow> addr | Inl _ \<Rightarrow> addr @ '':2222'')"

text \<open>The key line and the local address, \<open>None\<close> on an error.\<close>

definition fetchServerKey :: "setup_env \<Rightarrow> string \<Rightarrow> (string \<times> string) option" where
  "fetchServerKey env addr =
    (case DialTCP env addr of
       None \<Rightarrow> None
     | Some local_ip \<Rightarrow>
        (case PresentedKey env addr of
           None \<Rightarrow> None
         | Some line \<Rightarrow> Some (trim_space line, (case local_ip of Some ip \<Rightarrow> ip | None \<Rightarrow> ''''))))"

definition ellipsis :: string where "ellipsis = [CHR 0xE2, CHR 0x80, CHR 0xA6]"

definition truncate :: "string \<Rightarrow> nat \<Rightarrow> string" where
  "truncate s n = (if length s \<le> n then s else take n s @ ellipsis)"

definition key_text :: "string \<Rightarrow> setup_error + string" where
  "key_text v =
    (if \<not> has_prefix v ''ssh-'' \<and> \<not> has_prefix v ''ecdsa-'' \<and> \<not> has_prefix v ''sk-''
     then Inl (NotAKey (truncate v 32)) else Inr v)"

definition resolveServerKey :: "setup_env \<Rightarrow> string fsys \<Rightarrow> string \<Rightarrow> setup_error + string" where
  "resolveServerKey env fs v0 =
    (let v = trim_space v0 in
     if v = '''' then Inl EmptyKey
     else if has_prefix v ''@'' then
       (case fs_read fs (expandHome env (trim_prefix v ''@'')) of
          RData raw \<Rightarrow> key_text (trim_space raw)
        | _ \<Rightarrow> Inl ReadKeyFile)
     else key_text v)"

definition obtainServerKey ::
  "setup_env \<Rightarrow> string \<Rightarrow> string \<Rightarrow> setup_state \<Rightarrow> (setup_error + (string \<times> string)) \<times> setup_state" where
  "obtainServerKey env server key st =
    (if server \<noteq> '''' then
       (let addr = ensureServerPort server in
        case fetchServerKey env addr of
          None \<Rightarrow> (Inl (FetchFailed addr), st)
        | Some r \<Rightarrow> (Inr r, say [FetchedKey addr] st))
     else if key \<noteq> '''' then (map_sum id (\<lambda>k. (k, '''')) (resolveServerKey env (files st) key), st)
     else (Inl NoServer, st))"

section \<open>The steps\<close>

definition stepInstallSSHD :: "setup_env \<Rightarrow> setupOpts \<Rightarrow> step" where
  "stepInstallSSHD env opts =
    (let install = shRoot env opts (hd (PmInstall (pm opts))) (tl (PmInstall (pm opts))) in
     if length (PmUpdate (pm opts)) > 0
     then and_then (shRoot env opts (hd (PmUpdate (pm opts))) (tl (PmUpdate (pm opts)))) install
     else install)"

definition stepHostKeys :: "setup_env \<Rightarrow> setupOpts \<Rightarrow> step" where
  "stepHostKeys env opts = shRoot env opts ''ssh-keygen'' [''-A'']"

definition sshd_conf :: "int \<Rightarrow> string" where
  "sshd_conf p = ''# managed by dmux setup'' @ [NL] @ ''Port '' @ itoa p @ [NL] @
     ''PubkeyAuthentication yes'' @ [NL] @ ''PasswordAuthentication no'' @ [NL]"

definition stepSSHDConfig :: "setup_env \<Rightarrow> setupOpts \<Rightarrow> step" where
  "stepSSHDConfig env opts =
     shRootStdin env opts (sshd_conf (sshPort opts)) ''tee'' [''/etc/ssh/sshd_config.d/dmux.conf'']"

text \<open>\<open>OpenFile\<close> for appending creates the file; writing and \<open>Chmod\<close> can fail after that.\<close>

definition fs_put :: "string \<Rightarrow> 'c gfile \<Rightarrow> 'c fsys \<Rightarrow> 'c fsys" where
  "fs_put p f fs = fs\<lparr>fs_files := (fs_files fs)(p \<mapsto> f)\<rparr>"

definition open_append :: "string \<Rightarrow> string fsys \<Rightarrow> (string gfile \<times> string fsys) option" where
  "open_append p fs =
    (if fs_readonly fs p then None
     else case fs_files fs p of
       Some f \<Rightarrow> Some (f, fs)
     | None \<Rightarrow> Some (\<lparr>f_data = '''', f_perm = 384\<rparr>, fs_put p \<lparr>f_data = '''', f_perm = 384\<rparr> fs))"

definition append_key :: "setup_env \<Rightarrow> string \<Rightarrow> string \<Rightarrow> step" where
  "append_key env p key st =
    (case open_append p (files st) of
       None \<Rightarrow> (Some OpenFailed, st)
     | Some (f, fs1) \<Rightarrow>
        if \<not> WriteOk env p then (Some WriteFailed, st\<lparr>files := fs1\<rparr>)
        else
          let f1 = f\<lparr>f_data := f_data f @ key @ [NL]\<rparr> in
          if \<not> ChmodOk env p then (Some ChmodFailed, st\<lparr>files := fs_put p f1 fs1\<rparr>)
          else (None, st\<lparr>files := fs_put p (f1\<lparr>f_perm := 384\<rparr>) fs1\<rparr>))"

definition sshDir :: "string \<Rightarrow> string" where
  "sshDir home = path_join [home, ''.ssh'']"

definition authPath :: "string \<Rightarrow> string" where
  "authPath home = path_join [sshDir home, ''authorized_keys'']"

definition stepAuthorizeKey :: "setup_env \<Rightarrow> setupOpts \<Rightarrow> step" where
  "stepAuthorizeKey env opts st =
    (case UserHomeDir env of
       None \<Rightarrow> (Some NoHome, st)
     | Some home \<Rightarrow>
        if dryRun opts then (None, say [WouldAuthorize (sshDir home) (authPath home) (serverKey opts)] st)
        else if \<not> fs_mkdir (files st) (sshDir home) then (Some MkdirFailed, st)
        else
          (case fs_read (files st) (authPath home) of
             RData existing \<Rightarrow>
               if contains existing (serverKey opts) then (None, say [AlreadyAuthorized] st)
               else append_key env (authPath home) (serverKey opts) st
           | _ \<Rightarrow> append_key env (authPath home) (serverKey opts) st))"

text \<open>Whatever the error of the first command, the next one is tried.\<close>

definition stepStartSSHD :: "setup_env \<Rightarrow> setupOpts \<Rightarrow> step" where
  "stepStartSSHD env opts st =
    (case shRoot env opts ''service'' [PmService (pm opts), ''restart''] st of
       (None, st1) \<Rightarrow> (None, st1)
     | (Some _, st1) \<Rightarrow>
        (case shRoot env opts ''systemctl'' [''restart'', PmService (pm opts)] st1 of
           (None, st2) \<Rightarrow> (None, st2)
         | (Some _, st2) \<Rightarrow>
            (case LookPath env ''sshd'' of
               Some p \<Rightarrow> shRoot env opts p [] st2
             | None \<Rightarrow> (Some CannotStart, st2))))"

section \<open>Networking\<close>

definition isWSLNATAddr :: "string \<Rightarrow> bool" where
  "isWSLNATAddr ip =
    (case ParseIP ip of
       None \<Rightarrow> False
     | Some p \<Rightarrow>
        (case To4 p of
           Some p4 \<Rightarrow> p4 ! 0 = 172 \<and> p4 ! 1 \<ge> 16 \<and> p4 ! 1 \<le> 31
         | None \<Rightarrow> False))"

datatype networking = netUnknown | netNAT | netMirrored

definition classifyNetworking :: "string list \<Rightarrow> networking" where
  "classifyNetworking ips =
    (if ips = [] then netUnknown
     else if list_ex (\<lambda>ip. has_prefix ip ''192.168.'' \<or> has_prefix ip ''10.'') ips then netMirrored
     else if list_ex (\<lambda>ip. has_prefix ip ''172.'') ips then netNAT
     else netUnknown)"

definition wslIPv4s :: "setup_env \<Rightarrow> string list" where
  "wslIPv4s env =
    (case HostnameI env of
       None \<Rightarrow> []
     | Some s \<Rightarrow> filter (\<lambda>f. count_char (CHR ''.'') f = 3) (str_fields s))"

definition firstNonLoopback :: "string list \<Rightarrow> string" where
  "firstNonLoopback ips =
    (case find (\<lambda>ip. \<not> has_prefix ip ''127.'') ips of
       Some ip \<Rightarrow> ip
     | None \<Rightarrow> (case ips of ip # _ \<Rightarrow> ip | [] \<Rightarrow> ''<host-ip>''))"

definition connect_line :: "setupOpts \<Rightarrow> string \<Rightarrow> string" where
  "connect_line opts addr = ''dmux connect '' @ addr @ '':'' @ itoa (sshPort opts) @ '' --user '' @ loginUser opts"

definition printConnect :: "setupOpts \<Rightarrow> string \<Rightarrow> setup_state \<Rightarrow> setup_state" where
  "printConnect opts addr = say [ConnectLine (connect_line opts addr)]"

definition netsh :: "int \<Rightarrow> string \<Rightarrow> string" where
  "netsh p ip = ''netsh interface portproxy add v4tov4 listenport='' @ itoa p @
     '' listenaddress=0.0.0.0 connectport='' @ itoa p @ '' connectaddress='' @ ip @
     ''; netsh advfirewall firewall add rule name=dmux-ssh dir=in action=allow protocol=TCP localport='' @ itoa p"

definition attemptPortproxy :: "setup_env \<Rightarrow> setupOpts \<Rightarrow> string \<Rightarrow> step" where
  "attemptPortproxy env opts wslIP =
     sh env opts ''powershell.exe'' [''-NoProfile'', ''-Command'',
       ''Start-Process cmd -Verb RunAs -ArgumentList '' @ [CHR 0x27] @ ''/c '' @ netsh (sshPort opts) wslIP @ [CHR 0x27]]"

definition printNATGuidance :: "setup_env \<Rightarrow> setupOpts \<Rightarrow> string \<Rightarrow> setup_state \<Rightarrow> setup_state" where
  "printNATGuidance env opts wslIP st =
    (let st1 = say [NatGuidance wslIP (sshPort opts)] st;
         st2 = (if portproxy opts then
             (case attemptPortproxy env opts wslIP st1 of
                (Some _, st2) \<Rightarrow> say [PortproxyFailed] st2
              | (None, st2) \<Rightarrow> st2)
           else say [PortproxyHint] st1)
     in printConnect opts ''<windows-lan-ip>'' st2)"

definition stepNetworking :: "setup_env \<Rightarrow> setupOpts \<Rightarrow> step" where
  "stepNetworking env opts st0 =
    (let st = say [NetworkingMsg] st0 in
     if discoveredIP opts \<noteq> '''' then
       (if \<not> isWSLNATAddr (discoveredIP opts)
        then (None, printConnect opts (discoveredIP opts) (say [ReachedFrom (discoveredIP opts)] st))
        else (None, printNATGuidance env opts (discoveredIP opts) st))
     else
       let ips = wslIPv4s env; wslIP = firstNonLoopback ips in
       if isWSLNATAddr wslIP \<or> classifyNetworking ips = netNAT then (None, printNATGuidance env opts wslIP st)
       else (None, printConnect opts wslIP (say [ReachableAt wslIP] st)))"

section \<open>The command\<close>

fun run_steps :: "(string \<times> step) list \<Rightarrow> step" where
  "run_steps [] st = (None, st)"
| "run_steps ((desc, f) # rest) st =
    (case f (say [StepMsg desc] st) of
       (Some e, st1) \<Rightarrow> (Some (StepFailed desc e), st1)
     | (None, st1) \<Rightarrow> run_steps rest st1)"

definition setup_steps :: "setup_env \<Rightarrow> setupOpts \<Rightarrow> (string \<times> step) list" where
  "setup_steps env opts =
    [(''install openssh-server'', stepInstallSSHD env opts),
     (''generate host keys'', stepHostKeys env opts),
     (''write sshd config (key-only auth)'', stepSSHDConfig env opts),
     (''authorize server key'', stepAuthorizeKey env opts),
     (''start sshd'', stepStartSSHD env opts)]"

definition wsl_flags :: formals where
  "wsl_flags = [(''server'', StrFlag), (''server-key'', StrFlag), (''port'', IntFlag), (''user'', StrFlag),
     (''dry-run'', BoolFlag), (''portproxy'', BoolFlag)]"

text \<open>Everything before the first step: the options of the run, or the error that ends it.\<close>

definition prepare :: "setup_env \<Rightarrow> string list \<Rightarrow> setup_state \<Rightarrow> (setup_error + setupOpts) \<times> setup_state" where
  "prepare env args st =
    (case flag_parse wsl_flags (hoistFlags args) of
       Inl e \<Rightarrow> (Inl (SetupFlags e), st)
     | Inr (sets, _) \<Rightarrow>
        (case obtainServerKey env (flag_str ''server'' '''' sets) (flag_str ''server-key'' '''' sets) st of
           (Inl e, st1) \<Rightarrow> (Inl e, st1)
         | (Inr (key, localIP), st1) \<Rightarrow>
            let p = flag_int ''port'' 22 sets in
            if p < 1 \<or> p > 65535 then (Inl (PortOutOfRange p), st1)
            else if \<not> isWSL env (files st1) then (Inl NotWSL, st1)
            else (case detectPkgMgr env of
                None \<Rightarrow> (Inl NoPkgMgr, st1)
              | Some mgr \<Rightarrow>
                 if \<not> isRoot env \<and> LookPath env ''sudo'' = None then (Inl NoSudo, st1)
                 else (Inr \<lparr>serverKey = key, sshPort = p, loginUser = flag_str ''user'' (defaultUser env) sets,
                     dryRun = flag_bool ''dry-run'' False sets, portproxy = flag_bool ''portproxy'' False sets,
                     pm = mgr, discoveredIP = localIP\<rparr>, st1))))"

definition runSetupWSL :: "setup_env \<Rightarrow> string list \<Rightarrow> step" where
  "runSetupWSL env args st =
    (case prepare env args st of
       (Inl e, st1) \<Rightarrow> (Some e, st1)
     | (Inr opts, st1) \<Rightarrow>
        and_then (run_steps (setup_steps env opts)) (stepNetworking env opts)
          (say (if dryRun opts then [Preparing, DryRunNote] else [Preparing]) st1))"

definition runSetup :: "setup_env \<Rightarrow> string list \<Rightarrow> step" where
  "runSetup env args st =
    (case args of
       [] \<Rightarrow> (Some MissingPlatform, st)
     | a # rest \<Rightarrow>
        (let platform = to_lower (LowerU env) a in
         if platform = ''wsl'' \<or> platform = ''wsl2'' then runSetupWSL env rest st
         else (Some (UnsupportedPlatform platform), st)))"

section \<open>Relations every step keeps\<close>

lemma say_say [simp]: "say ms (say ms' st) = say (ms' @ ms) st"
  by (simp add: say_def)

lemma say_keeps [simp]: "ran (say ms st) = ran st" "files (say ms st) = files st"
  by (simp_all add: say_def)

text \<open>A reflexive and transitive relation that printing respects is respected by sequences of steps that
  respect it.\<close>

locale step_relation =
  fixes R :: "setup_state \<Rightarrow> setup_state \<Rightarrow> bool"
  assumes R_refl: "R st st"
    and R_trans: "R st st1 \<Longrightarrow> R st1 st2 \<Longrightarrow> R st st2"
    and R_say: "R st (say ms st)"
begin

lemma and_then_R:
  assumes "\<And>st. R st (snd (f st))" "\<And>st. R st (snd (g st))"
  shows "R st (snd (and_then f g st))"
  using assms(1) [of st] assms(2) R_trans by (fastforce simp: and_then_def split: prod.splits option.splits)

lemma run_steps_R: "(\<And>d f st. (d, f) \<in> set fs \<Longrightarrow> R st (snd (f st))) \<Longrightarrow> R st (snd (run_steps fs st))"
proof (induction fs arbitrary: st)
  case Nil
  then show ?case by (simp add: R_refl)
next
  case (Cons s fs)
  obtain d f where s: "s = (d, f)" by (cases s)
  obtain e st1 where run: "f (say [StepMsg d] st) = (e, st1)" by (rule prod.exhaust)
  have "R (say [StepMsg d] st) st1" using Cons.prems [of d f "say [StepMsg d] st"] run by (simp add: s)
  with R_say have first: "R st st1" by (rule R_trans)
  have "R st1 (snd (run_steps fs st1))" by (rule Cons.IH) (use Cons.prems in auto)
  with first show ?case by (auto simp: s run intro: R_trans split: option.split)
qed

end

text \<open>Then a whole run respects it, if the commands and the authorisation do.\<close>

locale setup_relation = step_relation +
  fixes env :: setup_env and opts :: setupOpts
  assumes shRoot_R: "R st (snd (shRoot env opts name args st))"
    and shRootStdin_R: "R st (snd (shRootStdin env opts inp name args st))"
    and authorize_R: "R st (snd (stepAuthorizeKey env opts st))"
    and portproxy_R: "R st (snd (attemptPortproxy env opts ip st))"
begin

lemma start_R: "R st (snd (stepStartSSHD env opts st))"
proof -
  obtain e1 st1 where 1: "shRoot env opts ''service'' [PmService (pm opts), ''restart''] st = (e1, st1)" by (rule prod.exhaust)
  obtain e2 st2 where 2: "shRoot env opts ''systemctl'' [''restart'', PmService (pm opts)] st1 = (e2, st2)" by (rule prod.exhaust)
  have r1: "R st st1" using shRoot_R [of st "''service''"] 1 by (metis snd_conv)
  have "R st1 st2" using shRoot_R [of st1 "''systemctl''"] 2 by (metis snd_conv)
  with r1 have r2: "R st st2" by (rule R_trans)
  with r1 show ?thesis
    by (auto simp: stepStartSSHD_def 1 2 intro: R_trans shRoot_R split: option.split)
qed

lemma steps_R: "R st (snd (run_steps (setup_steps env opts) st))"
  by (rule run_steps_R)
    (auto simp: setup_steps_def stepInstallSSHD_def stepHostKeys_def stepSSHDConfig_def Let_def
      intro: shRoot_R shRootStdin_R authorize_R start_R and_then_R split: if_splits)

lemma guidance_R: "R st (printNATGuidance env opts ip st)"
proof -
  obtain e st1 where run: "attemptPortproxy env opts ip (say [NatGuidance ip (sshPort opts)] st) = (e, st1)" by (rule prod.exhaust)
  have "R (say [NatGuidance ip (sshPort opts)] st) st1" using portproxy_R [of "say [NatGuidance ip (sshPort opts)] st"] run by (metis snd_conv)
  with R_say have "R st st1" by (rule R_trans)
  then show ?thesis
    by (auto simp: printNATGuidance_def printConnect_def Let_def run intro: R_trans [OF _ R_say] R_say split: option.split)
qed

lemma networking_R: "R st (snd (stepNetworking env opts st))"
  by (auto simp: stepNetworking_def printConnect_def Let_def intro: R_say R_trans [OF R_say guidance_R])

lemma run_R: "R st (snd (and_then (run_steps (setup_steps env opts)) (stepNetworking env opts) (say ms st)))"
  by (rule R_trans [OF R_say and_then_R [OF steps_R networking_R]])

end

text \<open>Nothing but the printed lines changes in a dry run.\<close>

definition unchanged :: "setup_state \<Rightarrow> setup_state \<Rightarrow> bool" where
  "unchanged st st' \<longleftrightarrow> files st' = files st \<and> ran st' = ran st"

lemma unchanged_say: "unchanged st (say ms st)"
  by (simp add: unchanged_def say_def)

lemma dry_commands:
  "dryRun opts \<Longrightarrow> unchanged st (snd (sh env opts name args st))"
  "dryRun opts \<Longrightarrow> unchanged st (snd (shStdin env opts inp name args st))"
  by (simp_all add: sh_def shStdin_def unchanged_say)

interpretation dry: setup_relation unchanged env "opts\<lparr>dryRun := True\<rparr>" for env opts
  by unfold_locales
    (auto simp: shRoot_def shRootStdin_def stepAuthorizeKey_def attemptPortproxy_def dry_commands unchanged_say
      split: prod.splits option.splits, auto simp: unchanged_def say_def)

text \<open>Commands are appended to those run before, and each is run as root, except PowerShell.\<close>

definition as_root :: "setup_env \<Rightarrow> string \<Rightarrow> string list \<Rightarrow> string \<Rightarrow> cmd" where
  "as_root env name args inp = (case elevate env name args of (n, a) \<Rightarrow> Cmd n a inp)"

fun cmd_name :: "cmd \<Rightarrow> string" where
  "cmd_name (Cmd n args inp) = n"

definition rooted :: "setup_env \<Rightarrow> cmd \<Rightarrow> bool" where
  "rooted env c \<longleftrightarrow> (Euid0 env \<or> cmd_name c = ''sudo'' \<or> cmd_name c = ''powershell.exe'')"

definition grows :: "setup_env \<Rightarrow> setup_state \<Rightarrow> setup_state \<Rightarrow> bool" where
  "grows env st st' \<longleftrightarrow> (\<exists>cs. ran st' = ran st @ cs \<and> list_all (rooted env) cs)"

lemma grows_trans: "grows env st st1 \<Longrightarrow> grows env st1 st2 \<Longrightarrow> grows env st st2"
  by (fastforce simp: grows_def)

lemma append_key_ran [simp]: "ran (snd (append_key env p key st)) = ran st"
  by (simp add: append_key_def Let_def split: option.split)

lemma authorize_ran [simp]: "ran (snd (stepAuthorizeKey env opts st)) = ran st"
  by (simp add: stepAuthorizeKey_def say_def split: option.split read_result.split)

interpretation root: setup_relation "grows env" env opts for env opts
  by unfold_locales
    (auto simp: shRoot_def shRootStdin_def attemptPortproxy_def sh_def shStdin_def elevate_def isRoot_def
      rooted_def say_def Let_def grows_def split: prod.splits option.splits)

section \<open>Before the first step\<close>

lemma obtain_unchanged: "obtainServerKey env server key st = (r, st1) \<Longrightarrow> unchanged st st1"
  by (auto simp: obtainServerKey_def Let_def unchanged_say split: if_splits option.splits)
    (auto simp: unchanged_def)

lemma prepare_spec:
  assumes "prepare env args st = (r, st1)"
  shows "unchanged st st1 \<and> (\<forall>opts. r = Inr opts \<longrightarrow> 1 \<le> sshPort opts \<and> sshPort opts \<le> 65535 \<and>
    isWSL env (files st) \<and> detectPkgMgr env = Some (pm opts) \<and> (Euid0 env \<or> LookPath env ''sudo'' \<noteq> None))"
  using assms
  by (auto simp: prepare_def isRoot_def Let_def split: sum.splits prod.splits option.splits if_splits
      dest: obtain_unchanged) (auto simp: unchanged_def dest!: obtain_unchanged)

section \<open>The commands of a run\<close>

text \<open>The segment \<open>p\<close> of commands belongs to \<open>f\<close>: it runs a prefix of it, all of it when it succeeds.\<close>

definition follows :: "step \<Rightarrow> cmd list \<Rightarrow> bool" where
  "follows f p \<longleftrightarrow> (\<forall>st. \<exists>cs. prefix cs p \<and> ran (snd (f st)) = ran st @ cs \<and> (fst (f st) = None \<longrightarrow> cs = p))"

lemma follows_cases:
  assumes "follows f p"
  obtains cs where "prefix cs p" "ran (snd (f st)) = ran st @ cs" "fst (f st) = None \<longrightarrow> cs = p"
  using assms unfolding follows_def by blast

lemma follows_and_then: "follows f p \<Longrightarrow> follows g q \<Longrightarrow> follows (and_then f g) (p @ q)"
  unfolding follows_def
proof
  fix st
  assume f: "\<forall>st. \<exists>cs. prefix cs p \<and> ran (snd (f st)) = ran st @ cs \<and> (fst (f st) = None \<longrightarrow> cs = p)"
    and g: "\<forall>st. \<exists>cs. prefix cs q \<and> ran (snd (g st)) = ran st @ cs \<and> (fst (g st) = None \<longrightarrow> cs = q)"
  obtain e st1 where run: "f st = (e, st1)" by (rule prod.exhaust)
  obtain cs where cs: "prefix cs p" "ran st1 = ran st @ cs" "e = None \<longrightarrow> cs = p"
    using f [rule_format, of st] by (auto simp: run)
  obtain ds where ds: "prefix ds q" "ran (snd (g st1)) = ran st1 @ ds" "fst (g st1) = None \<longrightarrow> ds = q"
    using g by blast
  show "\<exists>cs. prefix cs (p @ q) \<and> ran (snd (and_then f g st)) = ran st @ cs \<and> (fst (and_then f g st) = None \<longrightarrow> cs = p @ q)"
  proof (cases e)
    case None
    then show ?thesis using cs ds by (intro exI [of _ "p @ ds"]) (simp add: and_then_def run)
  next
    case (Some x)
    then show ?thesis using cs by (intro exI [of _ cs]) (simp add: and_then_def run)
  qed
qed

lemma follows_one:
  "\<not> dryRun opts \<Longrightarrow> follows (shRoot env opts name args) [as_root env name args '''']"
  "\<not> dryRun opts \<Longrightarrow> follows (shRootStdin env opts inp name args) [as_root env name args inp]"
  by (auto simp: follows_def shRoot_def shRootStdin_def as_root_def sh_def shStdin_def Let_def split: prod.split)

lemma follows_authorize: "follows (stepAuthorizeKey env opts) []"
  by (simp add: follows_def)

lemma follows_steps: "list_all2 (\<lambda>s p. follows (snd s) p) fs ps \<Longrightarrow> follows (run_steps fs) (concat ps)"
proof (induction fs ps rule: list_all2_induct)
  case Nil
  then show ?case by (simp add: follows_def)
next
  case (Cons s fs p ps)
  obtain d f where s: "s = (d, f)" by (cases s)
  have "follows (\<lambda>st. f (say [StepMsg d] st)) p"
    unfolding follows_def
  proof
    fix st
    have "follows f p" using Cons.hyps(1) by (simp add: s)
    then obtain cs where "prefix cs p" "ran (snd (f (say [StepMsg d] st))) = ran (say [StepMsg d] st) @ cs"
      "fst (f (say [StepMsg d] st)) = None \<longrightarrow> cs = p" by (rule follows_cases)
    then show "\<exists>cs. prefix cs p \<and> ran (snd (f (say [StepMsg d] st))) = ran st @ cs \<and>
        (fst (f (say [StepMsg d] st)) = None \<longrightarrow> cs = p)" by (auto simp: say_def)
  qed
  then have "follows (and_then (\<lambda>st. f (say [StepMsg d] st)) (run_steps fs)) (p @ concat ps)"
    using Cons.IH by (rule follows_and_then)
  then show ?case by (simp add: follows_def s and_then_def split: prod.splits option.splits) fastforce
qed

definition plan :: "setup_env \<Rightarrow> setupOpts \<Rightarrow> cmd list" where
  "plan env opts =
    (if PmUpdate (pm opts) = [] then [] else [as_root env (hd (PmUpdate (pm opts))) (tl (PmUpdate (pm opts))) '''']) @
    [as_root env (hd (PmInstall (pm opts))) (tl (PmInstall (pm opts))) '''',
     as_root env ''ssh-keygen'' [''-A''] '''',
     as_root env ''tee'' [''/etc/ssh/sshd_config.d/dmux.conf''] (sshd_conf (sshPort opts))]"

text \<open>The three ways to start the daemon, in the order in which they are tried.\<close>

definition start_plan :: "setup_env \<Rightarrow> setupOpts \<Rightarrow> cmd list" where
  "start_plan env opts =
    [as_root env ''service'' [PmService (pm opts), ''restart''] '''',
     as_root env ''systemctl'' [''restart'', PmService (pm opts)] ''''] @
    (case LookPath env ''sshd'' of Some p \<Rightarrow> [as_root env p [] ''''] | None \<Rightarrow> [])"

lemma start_runs:
  assumes "\<not> dryRun opts" "stepStartSSHD env opts st = (e, st1)"
  shows "files st1 = files st \<and> (\<exists>cs. cs \<noteq> [] \<and> prefix cs (start_plan env opts) \<and> ran st1 = ran st @ cs \<and>
    (e = None \<longleftrightarrow> RunCmd env (ran st @ butlast cs) (last cs)))"
proof -
  let ?c1 = "as_root env ''service'' [PmService (pm opts), ''restart''] ''''"
  let ?c2 = "as_root env ''systemctl'' [''restart'', PmService (pm opts)] ''''"
  have sh: "shRoot env opts n a st = (if RunCmd env (ran st) (as_root env n a '''') then None
      else Some (CmdFailed (as_root env n a '''')), st\<lparr>ran := ran st @ [as_root env n a '''']\<rparr>)" for n a st
    using assms(1) by (simp add: shRoot_def sh_def as_root_def Let_def split: prod.split)
  consider (service) "RunCmd env (ran st) ?c1"
    | (systemctl) "\<not> RunCmd env (ran st) ?c1" "RunCmd env (ran st @ [?c1]) ?c2"
    | (direct) p where "\<not> RunCmd env (ran st) ?c1" "\<not> RunCmd env (ran st @ [?c1]) ?c2" "LookPath env ''sshd'' = Some p"
    | (none) "\<not> RunCmd env (ran st) ?c1" "\<not> RunCmd env (ran st @ [?c1]) ?c2" "LookPath env ''sshd'' = None"
    by (cases "LookPath env ''sshd''") auto
  then show ?thesis
  proof cases
    case service
    then show ?thesis using assms(2)
      by (auto simp: stepStartSSHD_def sh start_plan_def intro!: exI [of _ "[?c1]"])
  next
    case systemctl
    then show ?thesis using assms(2)
      by (auto simp: stepStartSSHD_def sh start_plan_def intro!: exI [of _ "[?c1, ?c2]"])
  next
    case direct
    then show ?thesis using assms(2)
      by (auto simp: stepStartSSHD_def sh start_plan_def split: if_splits
          intro!: exI [of _ "[?c1, ?c2, as_root env p [] '''']"])
  next
    case none
    then show ?thesis using assms(2)
      by (auto simp: stepStartSSHD_def sh start_plan_def intro!: exI [of _ "[?c1, ?c2]"])
  qed
qed

section \<open>Authorising the key\<close>

lemma contains_append: "contains (a @ k @ b) k"
proof (induction a)
  case Nil
  have "has_prefix (k @ b) k" by (simp add: has_prefix_def)
  then show ?case by (cases "k @ b") auto
qed simp

definition old_data :: "string fsys \<Rightarrow> string \<Rightarrow> string" where
  "old_data fs p = (case fs_files fs p of Some f \<Rightarrow> f_data f | None \<Rightarrow> '''')"

lemma map_upd_eq: "m(p \<mapsto> f) = m(p \<mapsto> g) \<longleftrightarrow> f = g"
  by (metis map_upd_eqD1)

lemma append_key_ok:
  assumes "append_key env p key st = (None, st1)"
  shows "\<exists>f. fs_files (files st1) = (fs_files (files st))(p \<mapsto> f) \<and> f_data f = old_data (files st) p @ key @ [NL] \<and>
    f_perm f = 384 \<and> fs_unreadable (files st1) = fs_unreadable (files st) \<and> fs_readonly (files st1) = fs_readonly (files st)"
  using assms
  by (auto simp: append_key_def open_append_def fs_put_def old_data_def Let_def map_upd_eq split: option.splits if_splits)

definition authorized :: "setup_env \<Rightarrow> setupOpts \<Rightarrow> setup_state \<Rightarrow> bool" where
  "authorized env opts st \<longleftrightarrow> (\<exists>home. UserHomeDir env = Some home \<and>
     contains (old_data (files st) (authPath home)) (serverKey opts))"

lemma authorize_ok:
  assumes "stepAuthorizeKey env opts st = (None, st1)" "\<not> dryRun opts"
  shows "authorized env opts st1"
proof -
  obtain home where home: "UserHomeDir env = Some home"
    using assms by (auto simp: stepAuthorizeKey_def split: option.splits)
  consider (there) "files st1 = files st" "contains (old_data (files st) (authPath home)) (serverKey opts)"
    | (added) "append_key env (authPath home) (serverKey opts) st = (None, st1)"
    using assms by (auto simp: stepAuthorizeKey_def home fs_read_def old_data_def say_def
        split: if_splits read_result.splits option.splits)
  then show ?thesis
  proof cases
    case there
    then show ?thesis by (simp add: authorized_def home)
  next
    case added
    from append_key_ok [OF this] show ?thesis
      by (auto simp: authorized_def home old_data_def [of "files st1"] contains_append)
  qed
qed

lemma authorized_later: "files st1 = files st \<Longrightarrow> authorized env opts st1 = authorized env opts st"
  by (simp add: authorized_def)

section \<open>Whole runs\<close>

lemma run_steps_append: "run_steps (xs @ ys) st = and_then (run_steps xs) (run_steps ys) st"
  by (induction xs arbitrary: st) (auto simp: and_then_def split: prod.split option.split)

definition first_steps :: "setup_env \<Rightarrow> setupOpts \<Rightarrow> (string \<times> step) list" where
  "first_steps env opts = butlast (setup_steps env opts)"

lemma setup_steps_split:
  "setup_steps env opts = first_steps env opts @ [(''start sshd'', stepStartSSHD env opts)]"
  "first_steps env opts = take 3 (setup_steps env opts) @ [(''authorize server key'', stepAuthorizeKey env opts)]"
  by (simp_all add: setup_steps_def first_steps_def)

lemma first_steps_plan: "\<not> dryRun opts \<Longrightarrow> follows (run_steps (first_steps env opts)) (plan env opts)"
proof -
  assume dry: "\<not> dryRun opts"
  let ?up = "if PmUpdate (pm opts) = [] then [] else [as_root env (hd (PmUpdate (pm opts))) (tl (PmUpdate (pm opts))) '''']"
  let ?ps = "[?up @ [as_root env (hd (PmInstall (pm opts))) (tl (PmInstall (pm opts))) ''''],
     [as_root env ''ssh-keygen'' [''-A''] ''''],
     [as_root env ''tee'' [''/etc/ssh/sshd_config.d/dmux.conf''] (sshd_conf (sshPort opts))], []]"
  have "follows (stepInstallSSHD env opts) (hd ?ps)"
    using follows_one(1) [OF dry] follows_and_then [OF follows_one(1) [OF dry] follows_one(1) [OF dry]]
    by (simp add: stepInstallSSHD_def Let_def)
  then have "list_all2 (\<lambda>s p. follows (snd s) p) (first_steps env opts) ?ps"
    using follows_one [OF dry] follows_authorize
    by (simp add: first_steps_def setup_steps_def stepHostKeys_def stepSSHDConfig_def)
  from follows_steps [OF this] show ?thesis by (simp add: plan_def)
qed

lemma first_steps_authorize:
  assumes "run_steps (first_steps env opts) st = (None, st1)" "\<not> dryRun opts"
  shows "authorized env opts st1"
proof -
  obtain st0 where "run_steps [(''authorize server key'', stepAuthorizeKey env opts)] st0 = (None, st1)"
    using assms(1) by (auto simp: setup_steps_split(2) run_steps_append and_then_def split: prod.splits option.splits)
  then have "stepAuthorizeKey env opts (say [StepMsg ''authorize server key''] st0) = (None, st1)"
    by (auto split: prod.splits option.splits)
  then show ?thesis using assms(2) by (rule authorize_ok)
qed

lemma portproxy_once:
  "\<exists>c. ran (snd (attemptPortproxy env opts ip st)) = ran st \<or> ran (snd (attemptPortproxy env opts ip st)) = ran st @ [c]"
  by (simp add: attemptPortproxy_def sh_def say_def Let_def)

lemma guidance_files [simp]: "files (printNATGuidance env opts ip st) = files st"
  by (simp add: printNATGuidance_def printConnect_def attemptPortproxy_def sh_def say_def Let_def
      split: prod.split option.split)

lemma guidance_ran:
  "\<exists>pp. ran (printNATGuidance env opts ip st) = ran st @ pp \<and> length pp \<le> 1 \<and> (pp \<noteq> [] \<longrightarrow> portproxy opts)"
proof -
  obtain e st1 where run: "attemptPortproxy env opts ip (say [NatGuidance ip (sshPort opts)] st) = (e, st1)" by (rule prod.exhaust)
  then obtain c where "ran st1 = ran st \<or> ran st1 = ran st @ [c]"
    using portproxy_once [of env opts ip "say [NatGuidance ip (sshPort opts)] st"] by auto
  then show ?thesis
    by (cases "portproxy opts") (auto simp: printNATGuidance_def printConnect_def run Let_def split: option.split)
qed

lemma networking_ran:
  "\<exists>pp. fst (stepNetworking env opts st) = None \<and> files (snd (stepNetworking env opts st)) = files st \<and>
    ran (snd (stepNetworking env opts st)) = ran st @ pp \<and> length pp \<le> 1 \<and> (pp \<noteq> [] \<longrightarrow> portproxy opts)"
  using guidance_ran [of env opts _ "say [NetworkingMsg] st"]
  by (simp add: stepNetworking_def printConnect_def Let_def)

lemma dry_prepare:
  assumes "flag_parse wsl_flags (hoistFlags args) = Inr (sets, pos)" "flag_bool ''dry-run'' False sets"
    and "prepare env args st = (Inr opts, st1)"
  shows "opts = opts\<lparr>dryRun := True\<rparr>"
  using assms by (auto simp: prepare_def Let_def split: prod.splits sum.splits if_splits option.splits)


text \<open>A machine for examples: Debian in WSL behind a NAT, every command works, \<open>service\<close> does not.\<close>

definition demo_machine :: setup_env where
  "demo_machine = \<lparr>LookPath = (\<lambda>b. if b = ''apt-get'' \<or> b = ''sudo'' then Some b else None), Euid0 = False,
     UserHomeDir = Some ''/home/u'', CurrentUser = Some (''u'', ''/home/u''), EnvUser = ''u'', EnvWSL = ''Debian'',
     HostnameI = Some ''172.20.0.2'', DialTCP = (\<lambda>_. Some (Some ''172.20.0.2'')),
     PresentedKey = (\<lambda>_. Some ''ssh-ed25519 K2''), RunCmd = (\<lambda>_ c. case c of Cmd n args _ \<Rightarrow> hd args \<noteq> ''service''),
     WriteOk = (\<lambda>_. True), ChmodOk = (\<lambda>_. True), LowerU = id\<rparr>"

definition demo_home :: "string \<Rightarrow> setup_state" where
  "demo_home keys = \<lparr>files = fs_put ''/home/u/.ssh/authorized_keys'' \<lparr>f_data = keys, f_perm = 420\<rparr> empty_fs, ran = [], said = []\<rparr>"



text \<open>C29: authorising is idempotent.  After the step succeeds the file contains the key, its old content
  is a prefix of the new one, no other file has changed, and running the step again changes nothing.\<close>

theorem authorize_idempotent:
  assumes "stepAuthorizeKey env opts st = (None, st1)" "\<not> dryRun opts" "UserHomeDir env = Some home"
    and "\<not> fs_unreadable (files st) (authPath home)"
  shows "contains (old_data (files st1) (authPath home)) (serverKey opts) \<and>
    prefix (old_data (files st) (authPath home)) (old_data (files st1) (authPath home)) \<and>
    (\<forall>p. p \<noteq> authPath home \<longrightarrow> fs_files (files st1) p = fs_files (files st) p) \<and>
    stepAuthorizeKey env opts st1 = (None, say [AlreadyAuthorized] st1)"
proof -
  have mk: "fs_mkdir (files st) (sshDir home)"
    using assms by (auto simp: stepAuthorizeKey_def split: if_splits)
  have has: "contains (old_data (files st1) (authPath home)) (serverKey opts)"
    using authorize_ok [OF assms(1,2)] assms(3) by (simp add: authorized_def)
  have "fs_unreadable (files st1) = fs_unreadable (files st) \<and> fs_readonly (files st1) = fs_readonly (files st) \<and>
    fs_files (files st1) (authPath home) \<noteq> None \<and>
    prefix (old_data (files st) (authPath home)) (old_data (files st1) (authPath home)) \<and>
    (\<forall>p. p \<noteq> authPath home \<longrightarrow> fs_files (files st1) p = fs_files (files st) p)"
  proof (cases "append_key env (authPath home) (serverKey opts) st = (None, st1)")
    case True
    from append_key_ok [OF this] show ?thesis by (auto simp: old_data_def [of "files st1"])
  next
    case False
    then have "st1 = say [AlreadyAuthorized] st" "fs_read (files st) (authPath home) \<noteq> RNotExist"
      using assms mk by (auto simp: stepAuthorizeKey_def split: read_result.splits if_splits)
    then show ?thesis using assms(4) by (auto simp: fs_read_def split: if_splits option.splits)
  qed
  moreover from this have "fs_read (files st1) (authPath home) = RData (old_data (files st1) (authPath home))"
    using assms(4) by (auto simp: fs_read_def old_data_def split: option.split)
  moreover have "fs_mkdir (files st1) (sshDir home)" using mk calculation(1) by (simp add: fs_mkdir_def)
  ultimately show ?thesis using has assms(2,3) by (simp add: stepAuthorizeKey_def)
qed

definition demo_opts :: setupOpts where
  "demo_opts = \<lparr>serverKey = ''ssh-ed25519 K2'', sshPort = 22, loginUser = ''u'', dryRun = False, portproxy = False,
     pm = hd candidates, discoveredIP = ''172.20.0.2''\<rparr>"


theorem authorize_idempotent_witness:
  "stepAuthorizeKey demo_machine demo_opts (snd (stepAuthorizeKey demo_machine demo_opts (demo_home ''''))) =
   (None, say [AlreadyAuthorized] (snd (stepAuthorizeKey demo_machine demo_opts (demo_home ''''))))"
proof -
  have "fst (stepAuthorizeKey demo_machine demo_opts (demo_home '''')) = None" by code_simp
  then have run: "stepAuthorizeKey demo_machine demo_opts (demo_home '''') =
      (None, snd (stepAuthorizeKey demo_machine demo_opts (demo_home '''')))" by (simp add: prod_eq_iff)
  have "\<not> fs_unreadable (files (demo_home '''')) (authPath ''/home/u'')"
    by (simp add: demo_home_def fs_put_def empty_fs_def)
  then show ?thesis
    using authorize_idempotent [OF run, of "''/home/u''"] by (simp add: demo_opts_def demo_machine_def)
qed

text \<open>A key that is reported but does not work.  If the last line of \<open>authorized_keys\<close> has no line
  end, the new key is glued to it, and if the key only occurs inside a comment it is not added; both
  times the step succeeds and no line of the file is the key.\<close>

theorem authorized_but_no_line:
  "(let r1 = stepAuthorizeKey demo_machine demo_opts (demo_home ''ssh-ed25519 K1 alice'');
        r2 = stepAuthorizeKey demo_machine demo_opts (demo_home (''# old: ssh-ed25519 K2'' @ [NL]))
    in fst r1 = None \<and> fst r2 = None \<and>
       scan_lines (old_data (files (snd r1)) ''/home/u/.ssh/authorized_keys'') = [''ssh-ed25519 K1 alicessh-ed25519 K2''] \<and>
       scan_lines (old_data (files (snd r2)) ''/home/u/.ssh/authorized_keys'') = [''# old: ssh-ed25519 K2''])"
  by code_simp

section \<open>Addresses\<close>

text \<open>The private range of WSL2.  An address in dotted notation is taken for one behind the NAT exactly
  when it lies in 172.16.0.0/12.  The second heuristic of the code, on prefixes of the text, also takes
  public addresses such as 172.64.0.1 for it.\<close>

theorem wsl_nat_range:
  "(isWSLNATAddr (dotted a b c d) \<longleftrightarrow> a = 172 \<and> 16 \<le> b \<and> b \<le> 31) \<and>
   classifyNetworking [dotted 172 64 0 1] = netNAT \<and> \<not> isWSLNATAddr (dotted 172 64 0 1)"
proof -
  have "isWSLNATAddr (dotted a b c d) \<longleftrightarrow> a = 172 \<and> 16 \<le> b \<and> b \<le> 31" for a b c d
    by (simp add: isWSLNATAddr_def ParseIP_dotted)
  moreover have "classifyNetworking [dotted 172 64 0 1] = netNAT" by code_simp
  ultimately show ?thesis by simp
qed

end
