(* ===== verification/Cli.thy ===== *)
theory Cli
  imports Setup Server Sshd
begin

text \<open>
  \<open>cmd/dmux/main.go\<close>: the subcommands \<open>serve\<close>, \<open>connect\<close>, \<open>sethome\<close> and \<open>setup\<close>, composed of the
  packages' operations the way the program composes them.

  A process works on \<open>machine\<close>: the state of a setup run, the registry's files and the lines that were
  printed.  The key file and the configuration are text files; \<open>hosts.json\<close> is on the registry's disk.
  What the process asks its surroundings is in \<open>cli_env\<close>.  Error texts are constructors of
  \<open>cli_error\<close>.
\<close>

section \<open>State\<close>

text \<open>An address of an interface: whether it is an \<open>IPNet\<close>, a loopback or a link-local address, an IPv4
  one, and its text.\<close>

record ifaddr =
  IfNet :: bool
  IfLoopback :: bool
  IfLinkLocal :: bool
  IfV4 :: bool
  IfText :: string

datatype cli_error =
    CliFlags flag_error | CliConfig config_error | CliKey key_error | CliLoad registry_error
  | MissingHostAddr | ConnectErr server_error | MissingPath | HostRequired | NotAbsolute string
  | NegativeDepth | UnknownHost string | SetHomeErr registry_error | RunErr server_error
  | SetupErr setup_error

datatype cli_msg =
    NoAuthorizedKeys string | BadPrefix string config_error | Serving string string | AttachHint string
  | OnboardHint string | Connected string string string | HomeSet string string int
  | UnknownCommand string | Usage | CliErr cli_error

record ('priv, 'pub, 'signer, 'key) cli_env =
  c_config :: config_env
  c_keys :: "('priv, 'pub, 'signer) key_lib"
  c_setup :: setup_env
  c_ssh :: "'signer ssh_env"
  c_now :: int
  c_ifaddrs :: "ifaddr list option"
  c_parseKey :: "string \<Rightarrow> ('key \<times> string) option"
  c_session :: "'signer \<Rightarrow> byte \<Rightarrow> ('key \<Rightarrow> bool) \<Rightarrow> Config \<Rightarrow> (Server \<Rightarrow> Server) \<times> run_end"

record machine = setup_state +
  m_disk :: disk
  m_told :: "cli_msg list"

definition tell :: "cli_msg list \<Rightarrow> machine \<Rightarrow> machine" where
  "tell ms st = st\<lparr>m_told := m_told st @ ms\<rparr>"

type_synonym command = "machine \<Rightarrow> cli_error option \<times> machine"

section \<open>Addresses\<close>

definition ensurePort :: "string \<Rightarrow> string" where
  "ensurePort addr = (if contains addr '':'' then addr else addr @ '':22'')"

definition if_host :: "ifaddr \<Rightarrow> string" where
  "if_host a = (if IfV4 a then IfText a else ''['' @ IfText a @ '']'')"

definition reachableAddrs :: "ifaddr list option \<Rightarrow> string \<Rightarrow> (string list \<times> string) option" where
  "reachableAddrs ifs listenAddr =
    (case split_host_port listenAddr of
       Inl _ \<Rightarrow> None
     | Inr (host, port) \<Rightarrow>
        if host \<noteq> '''' \<and> host \<noteq> ''0.0.0.0'' \<and> host \<noteq> ''::'' then Some ([host], port)
        else Some (''localhost'' #
          (case ifs of
             None \<Rightarrow> []
           | Some l \<Rightarrow> map if_host (filter (\<lambda>a. IfNet a \<and> \<not> IfLoopback a \<and> \<not> IfLinkLocal a) l)), port))"

definition attachHints :: "ifaddr list option \<Rightarrow> string \<Rightarrow> string list" where
  "attachHints ifs listenAddr =
    (case reachableAddrs ifs listenAddr of
       None \<Rightarrow> [''ssh dmux@<server> (listen '' @ listenAddr @ '')'']
     | Some (hs, port) \<Rightarrow>
        map (\<lambda>h. if port = ''22'' then ''ssh dmux@'' @ h else ''ssh dmux@'' @ h @ '' -p '' @ port) hs)"

text \<open>The word after \<open>--server\<close> in \<open>setupHint\<close>.\<close>

definition hint_server :: "ifaddr list option \<Rightarrow> string \<Rightarrow> string" where
  "hint_server ifs listenAddr =
    (case reachableAddrs ifs listenAddr of
       None \<Rightarrow> ''<server-ip>''
     | Some (hs, port) \<Rightarrow>
        (case find (\<lambda>h. h \<noteq> ''localhost'' \<and> h \<noteq> ''127.0.0.1'' \<and> h \<noteq> ''[::1]'') hs of
           Some h \<Rightarrow> h
         | None \<Rightarrow> ''localhost'') @
        (if port \<noteq> '''' \<and> port \<noteq> ''2222'' then '':'' @ port else ''''))"

definition setupHint :: "ifaddr list option \<Rightarrow> string \<Rightarrow> string" where
  "setupHint ifs listenAddr =
     ''go run github.com/Ceinl/dmux/cmd/dmux@latest setup wsl --server '' @ hint_server ifs listenAddr"

section \<open>The subcommands\<close>

definition loadConfig :: "config_env \<Rightarrow> string fsys \<Rightarrow> string \<Rightarrow> config_error + Config" where
  "loadConfig env fs dataDir = Load env fs (if dataDir = '''' then DataDir (Default env) else dataDir)"

definition serve_flags :: formals where
  "serve_flags = [(''data-dir'', StrFlag), (''listen'', StrFlag)]"

definition connect_flags :: formals where
  "connect_flags = [(''data-dir'', StrFlag), (''user'', StrFlag), (''key'', StrFlag)]"

definition sethome_flags :: formals where
  "sethome_flags = [(''data-dir'', StrFlag), (''host'', StrFlag), (''depth'', IntFlag)]"

definition cli_host :: "string \<Rightarrow> string \<Rightarrow> string \<Rightarrow> Host" where
  "cli_host addr user keyRef = \<lparr>HostID = '''', Addr = addr, User = user, Name = '''', KeyRef = keyRef,
     Home = \<lparr>Root = '''', ScanDepth = 0\<rparr>, Color = '''', HostStatus = StatusUnknown, LastSeen = 0\<rparr>"

definition runConnect :: "('priv, 'pub, 'signer, 'key) cli_env \<Rightarrow> string list \<Rightarrow> command" where
  "runConnect env args st =
    (case flag_parse connect_flags (hoistFlags args) of
       Inl e \<Rightarrow> (Some (CliFlags e), st)
     | Inr (sets, []) \<Rightarrow> (Some MissingHostAddr, st)
     | Inr (sets, a # _) \<Rightarrow>
       (case loadConfig (c_config env) (files st) (flag_str ''data-dir'' '''' sets) of
          Inl e \<Rightarrow> (Some (CliConfig e), st)
        | Inr cfg \<Rightarrow>
         (case EnsureHostKey (c_keys env) (files st) cfg of
            (Inl e, fs) \<Rightarrow> (Some (CliKey e), st\<lparr>files := fs\<rparr>)
          | (Inr signer, fs) \<Rightarrow>
             let st1 = st\<lparr>files := fs\<rparr> in
             (case registry_Load (NewFileRegistry (DataDir cfg)) (m_disk st1) of
                (Some e, _) \<Rightarrow> (Some (CliLoad e), st1)
              | (None, reg) \<Rightarrow>
                 let host = cli_host (ensurePort a) (flag_str ''user'' (defaultUser (c_setup env)) sets)
                   (flag_str ''key'' '''' sets);
                   dialer = NewDialer (DataDir cfg) (DialTimeout cfg) signer
                 in (case remote_Verify (c_ssh env) dialer host (files st1) of
                      (verified, _, fs1) \<Rightarrow>
                        let st2 = st1\<lparr>files := fs1\<rparr> in
                        (case Connect (\<lambda>_. verified) (c_now env) (server_New cfg reg (m_disk st2) None NewAttachments) host of
                           (Some e, srv) \<Rightarrow> (Some (ConnectErr e), st2\<lparr>m_disk := srv_disk srv\<rparr>)
                         | (None, srv) \<Rightarrow>
                            (None, tell [Connected (User host) (Addr host) (DeriveHostID (User host) (Addr host))]
                               (st2\<lparr>m_disk := srv_disk srv\<rparr>))))))))"

definition runSetHome :: "('priv, 'pub, 'signer, 'key) cli_env \<Rightarrow> string list \<Rightarrow> command" where
  "runSetHome env args st =
    (case flag_parse sethome_flags (hoistFlags args) of
       Inl e \<Rightarrow> (Some (CliFlags e), st)
     | Inr (sets, []) \<Rightarrow> (Some MissingPath, st)
     | Inr (sets, root # _) \<Rightarrow>
       let hostID = flag_str ''host'' '''' sets; depth = flag_int ''depth'' 2 sets in
       if hostID = '''' then (Some HostRequired, st)
       else if root = ''.'' \<or> \<not> has_prefix root ''/'' then (Some (NotAbsolute root), st)
       else if depth < 0 then (Some NegativeDepth, st)
       else
        (case loadConfig (c_config env) (files st) (flag_str ''data-dir'' '''' sets) of
           Inl e \<Rightarrow> (Some (CliConfig e), st)
         | Inr cfg \<Rightarrow>
           (case registry_Load (NewFileRegistry (DataDir cfg)) (m_disk st) of
              (Some e, _) \<Rightarrow> (Some (CliLoad e), st)
            | (None, reg) \<Rightarrow>
              (case registry_Get reg hostID of
                 None \<Rightarrow> (Some (UnknownHost hostID), st)
               | Some _ \<Rightarrow>
                 (case SetHome reg hostID \<lparr>Root = root, ScanDepth = depth\<rparr> (m_disk st) of
                    (Some e, _, fs) \<Rightarrow> (Some (SetHomeErr e), st\<lparr>m_disk := fs\<rparr>)
                  | (None, _, fs) \<Rightarrow> (None, tell [HomeSet hostID root depth] (st\<lparr>m_disk := fs\<rparr>)))))))"

text \<open>The prefix byte, and the warning when the configured key does not parse.\<close>

definition serve_prefix :: "config_env \<Rightarrow> Config \<Rightarrow> byte \<times> cli_msg list" where
  "serve_prefix env cfg =
    (case ParsePrefix (Ulower env) (PrefixKey cfg) of
       Inl e \<Rightarrow> (0, [BadPrefix (PrefixKey cfg) e])
     | Inr b \<Rightarrow> (b, []))"

text \<open>\<open>None\<close> if the key library never ends reading \<open>authorized_keys\<close>.\<close>

definition runServe :: "('priv, 'pub, 'signer, 'key) cli_env \<Rightarrow> string list \<Rightarrow> machine \<Rightarrow> (cli_error option \<times> machine) option" where
  "runServe env args st =
    (case flag_parse serve_flags args of
       Inl e \<Rightarrow> Some (Some (CliFlags e), st)
     | Inr (sets, _) \<Rightarrow>
       (case loadConfig (c_config env) (files st) (flag_str ''data-dir'' '''' sets) of
          Inl e \<Rightarrow> Some (Some (CliConfig e), st)
        | Inr cfg0 \<Rightarrow>
          let listen = flag_str ''listen'' '''' sets; cfg = (if listen \<noteq> '''' then cfg0\<lparr>ListenAddr := listen\<rparr> else cfg0) in
          (case EnsureHostKey (c_keys env) (files st) cfg of
             (Inl e, fs) \<Rightarrow> Some (Some (CliKey e), st\<lparr>files := fs\<rparr>)
           | (Inr signer, fs) \<Rightarrow>
             let authPath = path_join [DataDir cfg, ''authorized_keys''] in
             (case AuthorizedKeysFile (c_parseKey env) fs authPath of
                None \<Rightarrow> None
              | Some (auth, ok) \<Rightarrow>
                (case serve_prefix (c_config env) cfg of
                   (pfx, warn) \<Rightarrow>
                     let st1 = tell ((if ok then [] else [NoAuthorizedKeys authPath]) @ warn @
                           [Serving (ListenAddr cfg) (DataDir cfg)] @
                           map AttachHint (attachHints (c_ifaddrs env) (ListenAddr cfg)) @
                           [OnboardHint (setupHint (c_ifaddrs env) (ListenAddr cfg))]) (st\<lparr>files := fs\<rparr>);
                         (work, ending) = c_session env signer pfx auth cfg
                     in (case Run True (c_now env) work ending
                           (server_New cfg (NewFileRegistry (DataDir cfg)) (m_disk st1) (Some NewManager) NewAttachments) of
                           (e, srv) \<Rightarrow> Some (map_option RunErr e, st1\<lparr>m_disk := srv_disk srv\<rparr>)))))))"

text \<open>\<open>runSetup\<close> on the part of the machine it works on.\<close>

definition setup_command :: "('priv, 'pub, 'signer, 'key) cli_env \<Rightarrow> string list \<Rightarrow> command" where
  "setup_command env args st =
    (case runSetup (c_setup env) args (setup_state.truncate st) of
       (e, s) \<Rightarrow> (map_option SetupErr e, st\<lparr>files := files s, ran := setup_state.ran s, said := said s\<rparr>))"

text \<open>\<open>main\<close>: the exit code and the machine it leaves; \<open>argv\<close> is \<open>os.Args\<close>.\<close>

definition exit_with :: "cli_error option \<times> machine \<Rightarrow> int \<times> machine" where
  "exit_with r = (case r of (None, st) \<Rightarrow> (0, st) | (Some e, st) \<Rightarrow> (1, tell [CliErr e] st))"

definition dmux_main :: "('priv, 'pub, 'signer, 'key) cli_env \<Rightarrow> string list \<Rightarrow> machine \<Rightarrow> (int \<times> machine) option" where
  "dmux_main env argv st =
    (case argv of
       p # c # args \<Rightarrow>
         if c = ''serve'' then map_option exit_with (runServe env args st)
         else if c = ''connect'' then Some (exit_with (runConnect env args st))
         else if c = ''sethome'' then Some (exit_with (runSetHome env args st))
         else if c = ''setup'' then Some (exit_with (setup_command env args st))
         else if c = ''-h'' \<or> c = ''--help'' \<or> c = ''help'' then Some (0, tell [Usage] st)
         else Some (2, tell [UnknownCommand c, Usage] st)
     | _ \<Rightarrow> Some (2, tell [Usage] st))"

section \<open>Splitting addresses\<close>

abbreviation no_brackets :: "string \<Rightarrow> bool" where
  "no_brackets s \<equiv> CHR ''['' \<notin> set s \<and> CHR '']'' \<notin> set s"

lemma index_of_append: "c \<notin> set a \<Longrightarrow> index_of c (a @ c # b) = Some (length a)"
proof -
  assume "c \<notin> set a"
  then have "takeWhile (\<lambda>x. x \<noteq> c) (a @ c # b) = a"
    by (subst takeWhile_append2) auto
  then show ?thesis by (simp add: index_of_def)
qed

lemma index_of_Some:
  assumes "index_of c s = Some i"
  obtains a b where "s = a @ c # b" "length a = i" "c \<notin> set a"
proof -
  have "c \<in> set s" using assms index_of_None [of c s] by auto
  then obtain a b where s: "s = a @ c # b" "c \<notin> set a" by (metis split_list_first)
  then have "length a = i" using assms index_of_append [of c a b] by simp
  with s show ?thesis using that by blast
qed

lemma last_index_of_append: "c \<notin> set b \<Longrightarrow> last_index_of c (a @ c # b) = Some (length a)"
  using index_of_append [of c "rev b" "rev a"] by (simp add: last_index_of_def)

lemma last_index_of_None: "last_index_of c s = None \<longleftrightarrow> c \<notin> set s"
  using index_of_None [of c "rev s"] by (simp add: last_index_of_def)

lemma last_index_of_Some:
  assumes "last_index_of c s = Some i"
  obtains a b where "s = a @ c # b" "length a = i" "c \<notin> set b"
proof -
  have "c \<in> set s" using assms last_index_of_None [of c s] by auto
  then obtain a b where s: "s = a @ c # b" "c \<notin> set b" by (metis split_list_last)
  then have "length a = i" using assms last_index_of_append [of c b a] by simp
  with s show ?thesis using that by blast
qed

lemma split_no_colon: "CHR '':'' \<notin> set h \<Longrightarrow> split_host_port h = Inl MissingPort"
  using last_index_of_None [of "CHR '':''" h] by (simp add: split_host_port_def)

lemma split_join:
  assumes "CHR '':'' \<notin> set h" "CHR '':'' \<notin> set p" "no_brackets h" "no_brackets p"
  shows "split_host_port (h @ CHR '':'' # p) = Inr (h, p)"
proof -
  have "\<not> has_prefix (h @ CHR '':'' # p) ''[''" using assms(3) by (cases h) (auto simp: has_prefix_def)
  then show ?thesis using assms by (simp add: split_host_port_def last_index_of_append)
qed

lemma split_join_v6:
  assumes "CHR '':'' \<notin> set p" "no_brackets h" "no_brackets p"
  shows "split_host_port (CHR ''['' # h @ CHR '']'' # CHR '':'' # p) = Inr (h, p)"
proof -
  let ?s = "CHR ''['' # h @ CHR '']'' # CHR '':'' # p"
  have "last_index_of (CHR '':'') ?s = Some (length h + 2)"
    using last_index_of_append [of "CHR '':''" p "CHR ''['' # h @ [CHR '']'']"] assms by simp
  moreover have "index_of (CHR '']'') ?s = Some (length h + 1)"
    using index_of_append [of "CHR '']''" "CHR ''['' # h"] assms by simp
  ultimately show ?thesis using assms by (simp add: split_host_port_def has_prefix_def)
qed

lemma split_v6_only:
  assumes "no_brackets h"
  shows "split_host_port (CHR ''['' # h @ [CHR '']'']) = Inl MissingPort"
proof -
  have "index_of (CHR '']'') (CHR ''['' # h @ [CHR '']'']) = Some (length h + 1)"
    using index_of_append [of "CHR '']''" "CHR ''['' # h"] assms by simp
  then show ?thesis by (simp add: split_host_port_def has_prefix_def split: option.split)
qed

lemma split_result:
  assumes "split_host_port s = Inr (h, p)"
  shows "CHR '':'' \<notin> set p \<and> no_brackets p \<and> no_brackets h"
proof -
  obtain i where i: "last_index_of (CHR '':'') s = Some i"
    using assms by (auto simp: split_host_port_def split: option.splits)
  then obtain a b where s: "s = a @ CHR '':'' # b" "length a = i" "CHR '':'' \<notin> set b" by (rule last_index_of_Some)
  show ?thesis
  proof (cases "has_prefix s ''[''")
    case True
    then obtain e where e: "index_of (CHR '']'') s = Some e" "e + 1 = i" "CHR ''['' \<notin> set (drop 1 s)"
      "CHR '']'' \<notin> set (drop (e + 1) s)" "h = take (e - 1) (drop 1 s)" "p = drop (i + 1) s"
      using assms i by (auto simp: split_host_port_def split: option.splits if_splits)
    obtain u v where u: "s = u @ CHR '']'' # v" "length u = e" "CHR '']'' \<notin> set u" using e(1) by (rule index_of_Some)
    have p: "p = b" using e(6) s by simp
    obtain w where w: "u = CHR ''['' # w" using True u(1) by (cases u) (auto simp: has_prefix_def)
    have "h = w" using e(5) u w by auto
    moreover have "drop (i + 1) s = drop 1 v" unfolding e(2) [symmetric] using u by simp
    then have "set b \<subseteq> set v" using p e(6) set_drop_subset [of 1 v] by simp
    ultimately show ?thesis using s(3) e(3,4) p u w by auto
  next
    case False
    then have "h = a" "p = b" "no_brackets s" using assms i s by (auto simp: split_host_port_def split: if_splits)
    then show ?thesis using s by auto
  qed
qed

section \<open>From the server to the host and back\<close>

lemma digits_are_digits: "list_all is_digit (digits_of n)"
proof (induction n rule: digits_of.induct)
  case (1 n)
  have "is_digit (digit_char (n mod 10))" "n < 10 \<Longrightarrow> is_digit (digit_char n)" by simp_all
  with 1 show ?case by (simp add: digits_of_step [of n])
qed

lemma is_digit_plain: "is_digit c \<Longrightarrow> code_of c < 128 \<and> \<not> ascii_space (code_of c) \<and> c \<noteq> CHR '':'' \<and> c \<noteq> CHR ''['' \<and> c \<noteq> CHR '']''"
  by (auto simp: is_digit_def ascii_space_def code_of_def)

lemma itoa_plain:
  assumes "0 \<le> n"
  shows "list_all (\<lambda>c. code_of c < 128 \<and> \<not> ascii_space (code_of c)) (itoa n)" "CHR '':'' \<notin> set (itoa n)" "no_brackets (itoa n)"
  using assms digits_are_digits [of "nat n"] is_digit_plain by (auto simp: itoa_def list_all_iff)

lemma fields_cons: "plain a \<Longrightarrow> str_fields (a @ CHR '' '' # rest) = a # str_fields rest"
  using fields_word [of a "[]" "CHR '' '' # rest"] by (simp add: plain_def str_fields_def)

lemma fields_last: "plain a \<Longrightarrow> str_fields a = [a]"
  using fields_word [of a "[]" "[]"] by (simp add: plain_def str_fields_def)

lemma hoist_connect:
  "\<not> has_prefix w ''-'' \<Longrightarrow>
   flag_parse connect_flags (hoistFlags [w, ''--user'', u]) = Inr ([(''user'', FStr u)], [w])"
proof -
  assume w: "\<not> has_prefix w ''-''"
  have tok: "classify ''--user'' = FlagToken ''user'' None" by code_simp
  have "hoistFlags [w, ''--user'', u] = [''--user'', u, w]"
    using w by (simp add: hoistFlags_def has_prefix_def contains_char [of _ "CHR ''=''"])
  then show ?thesis
    using w by (simp add: tok set_flag_def connect_flags_def read_value_def classify_word)
qed



text \<open>The printed \<open>setup\<close> line reaches the server.  For a listen address whose host is a wildcard, a
  name or an IPv4 address, the server word of the line, with the default port that \<open>setup\<close> adds,
  splits into the port the server listens on and a name or address of this machine.\<close>

theorem setup_hint_reaches_server:
  assumes "split_host_port listenAddr = Inr (host, port)" "port \<noteq> ''''" "CHR '':'' \<notin> set host \<or> host = ''::''"
    and "\<forall>l. ifs = Some l \<longrightarrow> (\<forall>a \<in> set l. no_brackets (IfText a) \<and> (IfV4 a \<longrightarrow> CHR '':'' \<notin> set (IfText a)))"
  shows "\<exists>h. split_host_port (ensureServerPort (hint_server ifs listenAddr)) = Inr (h, port) \<and>
    (h = host \<or> h = ''localhost'' \<or> (\<exists>l. ifs = Some l \<and> (\<exists>a \<in> set l. h = IfText a \<and> \<not> IfLoopback a)))"
proof -
  note res = split_result [OF assms(1)]
  define ok where "ok h \<longleftrightarrow> h = host \<or> h = ''localhost'' \<or>
    (\<exists>l. ifs = Some l \<and> (\<exists>a \<in> set l. h = IfText a \<and> \<not> IfLoopback a))" for h
  obtain hs where hs: "reachableAddrs ifs listenAddr = Some (hs, port)"
    "\<forall>x \<in> set hs. (\<exists>h. ok h \<and> no_brackets h \<and> (x = h \<and> CHR '':'' \<notin> set h \<or> x = CHR ''['' # h @ [CHR '']'']))"
  proof (cases "host \<noteq> '''' \<and> host \<noteq> ''0.0.0.0'' \<and> host \<noteq> ''::''")
    case True
    then have "reachableAddrs ifs listenAddr = Some ([host], port)" by (simp add: reachableAddrs_def assms(1))
    moreover have "ok host" "no_brackets host" "CHR '':'' \<notin> set host" using True res assms(3) by (auto simp: ok_def)
    ultimately show ?thesis using that [of "[host]"] by auto
  next
    case False
    let ?l = "case ifs of None \<Rightarrow> [] | Some l \<Rightarrow> map if_host (filter (\<lambda>a. IfNet a \<and> \<not> IfLoopback a \<and> \<not> IfLinkLocal a) l)"
    have "reachableAddrs ifs listenAddr = Some (''localhost'' # ?l, port)"
      by (simp only: reachableAddrs_def assms(1) sum.case prod.case if_not_P [OF False])
    moreover have "ok ''localhost''" by (simp add: ok_def)
    moreover have "\<exists>h. ok h \<and> no_brackets h \<and> (x = h \<and> CHR '':'' \<notin> set h \<or> x = CHR ''['' # h @ [CHR '']''])" if x: "x \<in> set ?l" for x
    proof -
      obtain l a where "ifs = Some l" "a \<in> set l" "\<not> IfLoopback a" "x = if_host a" using x by (auto split: option.splits)
      then show ?thesis using assms(4) by (intro exI [of _ "IfText a"]) (auto simp: ok_def if_host_def)
    qed
    ultimately show ?thesis using that [of "''localhost'' # ?l"] by auto
  qed
  define x where "x = (case find (\<lambda>h. h \<noteq> ''localhost'' \<and> h \<noteq> ''127.0.0.1'' \<and> h \<noteq> ''[::1]'') hs of Some h \<Rightarrow> h | None \<Rightarrow> ''localhost'')"
  obtain h where h: "ok h" "no_brackets h" "x = h \<and> CHR '':'' \<notin> set h \<or> x = CHR ''['' # h @ [CHR '']'']"
  proof (cases "find (\<lambda>h. h \<noteq> ''localhost'' \<and> h \<noteq> ''127.0.0.1'' \<and> h \<noteq> ''[::1]'') hs")
    case None
    then show ?thesis using that [of "''localhost''"] by (simp add: x_def ok_def)
  next
    case (Some y)
    then have "y \<in> set hs" by (auto simp: find_Some_iff)
    then show ?thesis using hs(2) Some that by (auto simp: x_def)
  qed
  have full: "split_host_port (x @ CHR '':'' # p) = Inr (h, p)" if "CHR '':'' \<notin> set p" "no_brackets p" for p
    using h that split_join [of h p] split_join_v6 [of p h] by auto
  have bare: "split_host_port x = Inl MissingPort"
    using h split_no_colon [of h] split_v6_only [of h] by auto
  have hint: "hint_server ifs listenAddr = x @ (if port \<noteq> ''2222'' then CHR '':'' # port else '''')"
    using assms(2) by (simp add: hint_server_def hs(1) x_def)
  have "split_host_port (ensureServerPort (hint_server ifs listenAddr)) = Inr (h, port)"
  proof (cases "port = ''2222''")
    case True
    have "split_host_port (x @ CHR '':'' # ''2222'') = Inr (h, ''2222'')" by (rule full) auto
    then show ?thesis using True bare by (simp add: hint ensureServerPort_def)
  next
    case False
    then show ?thesis using full [of port] res by (simp add: hint ensureServerPort_def)
  qed
  with h(1) show ?thesis by (auto simp: ok_def)
qed

definition demo_if :: "bool \<Rightarrow> string \<Rightarrow> ifaddr" where
  "demo_if v4 t = \<lparr>IfNet = True, IfLoopback = False, IfLinkLocal = False, IfV4 = v4, IfText = t\<rparr>"

theorem setup_hint_reaches_server_witness:
  "\<exists>h. split_host_port (ensureServerPort (hint_server (Some [demo_if False ''2001:db8::1'', demo_if True ''10.0.0.2'']) '':2200'')) = Inr (h, ''2200'')"
proof -
  have "split_host_port '':2200'' = Inr ('''', ''2200'')" by code_simp
  moreover have "\<forall>l. Some [demo_if False ''2001:db8::1'', demo_if True ''10.0.0.2''] = Some l \<longrightarrow>
      (\<forall>a \<in> set l. no_brackets (IfText a) \<and> (IfV4 a \<longrightarrow> CHR '':'' \<notin> set (IfText a)))" by (simp add: demo_if_def)
  ultimately show ?thesis
    using setup_hint_reaches_server [of "'':2200''" "''''" "''2200''" "Some [demo_if False ''2001:db8::1'', demo_if True ''10.0.0.2'']"]
    by auto
qed

text \<open>IPv6 addresses without brackets.  A server that listens on one IPv6 address prints a \<open>setup\<close> line
  whose server word cannot be dialled, and a host that reached the server from an IPv6 address prints
  a \<open>connect\<close> line whose address cannot be dialled: both join the bare address and the port.\<close>

theorem ipv6_addresses_unbracketed:
  "split_host_port (ensureServerPort (hint_server None ''[2001:db8::1]:2222'')) = Inl TooManyColons \<and>
   (case str_fields (connect_line demo_opts ''2001:db8::7'') of
      [_, _, w, _, _] \<Rightarrow> split_host_port (ensurePort w) = Inl TooManyColons | _ \<Rightarrow> False)"
  by code_simp

section \<open>What the admin commands store\<close>

lemma Load_keeps_path [simp]: "path (snd (registry_Load r fs)) = path r"
  by (simp add: registry_Load_def split: read_result.split hosts_json.split)

lemma Load_read: "fs_read fs (path r) = fs_read fs' (path r) \<Longrightarrow> registry_Load r fs = registry_Load r fs'"
  by (simp add: registry_Load_def)

lemma loaded_wf: "reg_wf (snd (registry_Load (NewFileRegistry d) fs))"
  by (intro reg_wf_Load reg_wf_new)

text \<open>After an operation on the loaded registry, its own file says what the operation made of it, or, if
  the operation failed, what it said before.\<close>

lemma apply_loaded:
  assumes "registry_Load (NewFileRegistry d) fs0 = (None, r)" "reg_apply r op fs = (e, r', fs')"
    and "\<not> fs_unreadable fs (path r)"
  shows "path r' = path (NewFileRegistry d) \<and> reg_wf r' \<and> registry_Get r' = spec_apply op (registry_Get r) \<and>
    (if e = None then fst (registry_Load (NewFileRegistry d) fs') = None \<and>
       registry_Get (snd (registry_Load (NewFileRegistry d) fs')) = registry_Get r'
     else fs_read fs' (path (NewFileRegistry d)) = fs_read fs (path (NewFileRegistry d)))"
proof -
  have r: "reg_wf r" "path r = path (NewFileRegistry d)"
    using loaded_wf [of d fs0] Load_keeps_path [of "NewFileRegistry d" fs0] assms(1) by simp_all
  have "e = None \<Longrightarrow> fst (registry_Load (NewFileRegistry d) fs') = None \<and>
       registry_Get (snd (registry_Load (NewFileRegistry d) fs')) = registry_Get r'"
    using apply_durable [OF r(1) assms(3), of op r' fs' "NewFileRegistry d"] assms(2) r(2) by simp
  moreover have "e \<noteq> None \<Longrightarrow> fs_read fs' (path r) = fs_read fs (path r)"
    using apply_saves [OF assms(2)] saveLocked_fails [of r' fs "the e" fs'] apply_path [OF assms(2)] by auto
  ultimately show ?thesis
    using apply_get [OF assms(2)] apply_path [OF assms(2)] apply_wf [OF r(1) assms(2)] r(2) by auto
qed

text \<open>C23: \<open>dmux sethome\<close>.  It succeeds only for a registered host, an absolute path and a depth that is
  not negative, and then the registry file, loaded by any later process, has that home for that host
  and is otherwise unchanged.  A run that fails leaves the file's contents alone.\<close>

theorem sethome_persists:
  assumes "flag_parse sethome_flags (hoistFlags args) = Inr (sets, root # pos)"
    and "loadConfig (c_config env) (files st) (flag_str ''data-dir'' '''' sets) = Inr cfg"
    and "\<forall>p. \<not> fs_unreadable (m_disk st) p" and "runSetHome env args st = (e, st')"
  shows "let load = registry_Load (NewFileRegistry (DataDir cfg)); p = path (NewFileRegistry (DataDir cfg));
      i = flag_str ''host'' '''' sets; depth = flag_int ''depth'' 2 sets
    in files st' = files st \<and>
      (if e = None then
         has_prefix root ''/'' \<and> 0 \<le> depth \<and> fst (load (m_disk st')) = None \<and>
         (\<exists>h. registry_Get (snd (load (m_disk st))) i = Some h \<and>
            registry_Get (snd (load (m_disk st'))) =
              (registry_Get (snd (load (m_disk st))))(i \<mapsto> h\<lparr>Home := \<lparr>Root = root, ScanDepth = depth\<rparr>\<rparr>))
       else fs_read (m_disk st') p = fs_read (m_disk st) p)"
proof -
  let ?d = "NewFileRegistry (DataDir cfg)"
  let ?i = "flag_str ''host'' '''' sets" and ?depth = "flag_int ''depth'' 2 sets"
  let ?home = "\<lparr>Root = root, ScanDepth = ?depth\<rparr>"
  obtain e0 reg where load: "registry_Load ?d (m_disk st) = (e0, reg)" by (rule prod.exhaust)
  obtain e1 r1 fs1 where set: "SetHome reg ?i ?home (m_disk st) = (e1, r1, fs1)" by (metis prod_cases3)
  consider (refused) "e \<noteq> None" "st' = st"
    | (failed) "e \<noteq> None" "e1 \<noteq> None" "e0 = None" "st' = st\<lparr>m_disk := fs1\<rparr>"
    | (stored) h where "e = None" "e1 = None" "e0 = None" "has_prefix root ''/''" "0 \<le> ?depth" "registry_Get reg ?i = Some h"
        "m_disk st' = fs1" "files st' = files st"
    using assms(1,2,4) load set
    by (auto simp: runSetHome_def tell_def Let_def split: if_splits option.splits)
  then show ?thesis
  proof cases
    case refused
    then show ?thesis by (auto simp: Let_def)
  next
    case failed
    have "reg_apply reg (OpSetHome ?i ?home) (m_disk st) = (e1, r1, fs1)" using set by simp
    from apply_loaded [OF _ this] load failed assms(3) show ?thesis by (auto simp: Let_def)
  next
    case stored
    have "reg_apply reg (OpSetHome ?i ?home) (m_disk st) = (e1, r1, fs1)" using set by simp
    from apply_loaded [OF _ this] load stored assms(3) show ?thesis by (simp add: Let_def)
  qed
qed

text \<open>Marking a host up, stored or not, keeps what is stored of a host but its status.\<close>

lemma status_keeps_host:
  assumes up: "SetStatus now r j st fs = (e, r', fs')" and wf: "reg_wf r" and flags: "\<And>p. \<not> fs_unreadable fs p"
    and d: "path r = path d" "fst (registry_Load d fs) = None" "registry_Get (snd (registry_Load d fs)) = registry_Get r"
    and h: "registry_Get r i = Some h"
  shows "fst (registry_Load d fs') = None \<and>
    (\<exists>h'. registry_Get (snd (registry_Load d fs')) i = Some h' \<and> HostID h' = HostID h \<and> Addr h' = Addr h \<and> User h' = User h)"
proof -
  have op: "reg_apply r (OpSetStatus now j st) fs = (e, r', fs')" using up by simp
  show ?thesis
  proof (cases "e = None")
    case True
    then have "fst (registry_Load d fs') = None \<and> registry_Get (snd (registry_Load d fs')) = registry_Get r'"
      using apply_durable [OF wf flags, of "OpSetStatus now j st" r' fs' d] op d(1) by simp
    then show ?thesis using apply_get [OF op] h by auto
  next
    case False
    then have "fs_read fs' (path d) = fs_read fs (path d)"
      using apply_saves [OF op] saveLocked_fails [of r' fs "the e" fs'] apply_path [OF op] d(1) by auto
    from Load_read [OF this] show ?thesis using d(2,3) h by auto
  qed
qed

text \<open>C14: \<open>dmux connect\<close>.  A host is stored only after its verification with the server's key succeeded;
  then the registry file, loaded by any later process, has a host with the derived ID, the address
  with its default port and the login user, which it did not have before.  A run that fails leaves
  the file's contents alone.\<close>

theorem connect_registers_verified:
  assumes "flag_parse connect_flags (hoistFlags args) = Inr (sets, a # pos)"
    and "loadConfig (c_config env) (files st) (flag_str ''data-dir'' '''' sets) = Inr cfg"
    and "\<forall>p. \<not> fs_unreadable (m_disk st) p" and "runConnect env args st = (e, st')"
  shows "let load = registry_Load (NewFileRegistry (DataDir cfg)); p = path (NewFileRegistry (DataDir cfg));
      user = flag_str ''user'' (defaultUser (c_setup env)) sets; addr = ensurePort a; i = DeriveHostID user addr
    in if e = None then
         (\<exists>signer fs. EnsureHostKey (c_keys env) (files st) cfg = (Inr signer, fs) \<and>
            fst (remote_Verify (c_ssh env) (NewDialer (DataDir cfg) (DialTimeout cfg) signer)
              (cli_host addr user (flag_str ''key'' '''' sets)) fs) = None) \<and>
         registry_Get (snd (load (m_disk st))) i = None \<and> fst (load (m_disk st')) = None \<and>
         (\<exists>h. registry_Get (snd (load (m_disk st'))) i = Some h \<and> HostID h = i \<and> Addr h = addr \<and> User h = user)
       else fs_read (m_disk st') p = fs_read (m_disk st) p"
proof -
  let ?d = "NewFileRegistry (DataDir cfg)"
  let ?user = "flag_str ''user'' (defaultUser (c_setup env)) sets" and ?addr = "ensurePort a"
  let ?h = "cli_host ?addr ?user (flag_str ''key'' '''' sets)" and ?i = "DeriveHostID ?user ?addr"
  have id: "with_id ?h = ?h\<lparr>HostID := ?i\<rparr>" by (simp add: with_id_def cli_host_def)
  obtain e0 reg where load: "registry_Load ?d (m_disk st) = (e0, reg)" by (rule prod.exhaust)
  obtain e1 r1 fs1 where add: "registry_Add reg ?h (m_disk st) = (e1, r1, fs1)" by (metis prod_cases3)
  have op: "reg_apply reg (OpAdd ?h) (m_disk st) = (e1, r1, fs1)" using add by simp
  note added = apply_loaded [OF _ op]
  let ?j = "findByAddr ((server_New cfg reg (m_disk st) None NewAttachments)\<lparr>srv_hosts := r1, srv_disk := fs1\<rparr>) ?addr ?user"
  obtain e2 r2 fs2 where up: "SetStatus (c_now env) r1 ?j StatusUp fs1 = (e2, r2, fs2)" by (metis prod_cases3)
  have sh: "Addr ?h = ?addr" "User ?h = ?user" by (simp_all add: cli_host_def)
  obtain r fs where key: "EnsureHostKey (c_keys env) (files st) cfg = (r, fs)" by (rule prod.exhaust)
  consider (refused) "e \<noteq> None" "m_disk st' = m_disk st"
    | (failed) "e \<noteq> None" "e0 = None" "e1 \<noteq> None" "m_disk st' = fs1"
    | (stored) signer where "e = None" "r = Inr signer" "e0 = None" "e1 = None"
        "fst (remote_Verify (c_ssh env) (NewDialer (DataDir cfg) (DialTimeout cfg) signer) ?h fs) = None"
        "m_disk st' = (if ?j \<noteq> '''' then fs2 else fs1)"
    using assms(1,2,4) load add up key
    by (auto simp: runConnect_def Connect_def server_New_def tell_def set_status_def sh Let_def
        split: if_splits option.splits sum.splits prod.splits)
  then show ?thesis
  proof cases
    case refused
    then show ?thesis by (auto simp: Let_def)
  next
    case failed
    then show ?thesis using added load assms(3) by (auto simp: Let_def)
  next
    case stored
    then have a: "path r1 = path ?d" "reg_wf r1" "registry_Get r1 = spec_apply (OpAdd ?h) (registry_Get reg)"
      "fst (registry_Load ?d fs1) = None" "registry_Get (snd (registry_Load ?d fs1)) = registry_Get r1"
      using added load assms(3) by auto
    have new: "registry_Get reg ?i = None"
      using add stored by (auto simp: registry_Add_def id registry_Get_def Let_def split: option.splits)
    have h1: "registry_Get r1 ?i = Some (?h\<lparr>HostID := ?i\<rparr>)" using a(3) new by (simp add: id)
    have flags: "\<not> fs_unreadable fs1 p" for p using apply_flags [OF op] assms(3) by simp
    note marked = status_keeps_host [OF up a(2) flags a(1,4,5) h1]
    have "fst (registry_Load ?d fs1) = None \<and>
        (\<exists>h. registry_Get (snd (registry_Load ?d fs1)) ?i = Some h \<and> HostID h = ?i \<and> Addr h = ?addr \<and> User h = ?user)"
      using a(4,5) h1 by (simp add: cli_host_def)
    then show ?thesis using marked stored new key load by (auto simp: Let_def cli_host_def)
  qed
qed

text \<open>A server machine without a configuration file and with one host; every host verifies.\<close>

definition demo_cli :: "(string, string, string, char) cli_env" where
  "demo_cli = \<lparr>c_config = Config.demo_env, c_keys = demo_lib, c_setup = demo_machine, c_ssh = peer_env ''ssh-ed25519'' [1], c_now = 5,
     c_ifaddrs = None, c_parseKey = byte_key, c_session = (\<lambda>_ _ _ _. (id, CtxDone))\<rparr>"

definition demo_box :: "Host list \<Rightarrow> machine" where
  "demo_box hs = \<lparr>files = empty_fs, ran = [], said = [],
     m_disk = fs_put ''/d/hosts.json'' \<lparr>f_data = HostsJson hs, f_perm = 384\<rparr> empty_fs, m_told = []\<rparr>"

lemma demo_config:
  "loadConfig (c_config demo_cli) (files (demo_box hs)) ''/d'' =
     Inr ((Default Config.demo_env)\<lparr>DataDir := ''/d'', HostKeyPath := path_join [''/d'', defaultKeyName]\<rparr>)"
proof -
  have "fs_read (files (demo_box hs)) (path_join [''/d'', configFileName]) = RNotExist"
    by (simp add: demo_box_def fs_read_def empty_fs_def)
  from Load_missing [OF this] show ?thesis by (simp add: loadConfig_def demo_cli_def)
qed

theorem sethome_persists_witness:
  "\<exists>h. registry_Get (snd (registry_Load (NewFileRegistry ''/d'')
     (m_disk (snd (runSetHome demo_cli [''/p'', ''--host'', ''x'', ''--data-dir=/d''] (demo_box [a_host ''x''])))))) ''x'' =
       Some h \<and> Root (Home h) = ''/p''"
proof -
  have p: "flag_parse sethome_flags (hoistFlags [''/p'', ''--host'', ''x'', ''--data-dir=/d'']) =
      Inr ([(''host'', FStr ''x''), (''data-dir'', FStr ''/d'')], [''/p''])" by code_simp
  have d: "flag_str ''data-dir'' '''' [(''host'', FStr ''x''), (''data-dir'', FStr ''/d'')] = ''/d''"
    "flag_str ''host'' '''' [(''host'', FStr ''x''), (''data-dir'', FStr ''/d'')] = ''x''" by code_simp+
  have cfg: "loadConfig (c_config demo_cli) (files (demo_box [a_host ''x'']))
      (flag_str ''data-dir'' '''' [(''host'', FStr ''x''), (''data-dir'', FStr ''/d'')]) =
    Inr ((Default Config.demo_env)\<lparr>DataDir := ''/d'', HostKeyPath := path_join [''/d'', defaultKeyName]\<rparr>)"
    unfolding d(1) by (rule demo_config)
  have u: "\<forall>p. \<not> fs_unreadable (m_disk (demo_box [a_host ''x''])) p" by (simp add: demo_box_def fs_put_def empty_fs_def)
  have "fst (runSetHome demo_cli [''/p'', ''--host'', ''x'', ''--data-dir=/d''] (demo_box [a_host ''x''])) = None" by code_simp
  with sethome_persists [OF p cfg u surjective_pairing] d(2) show ?thesis by (auto simp: Let_def)
qed

theorem connect_registers_verified_witness:
  "\<exists>h. registry_Get (snd (registry_Load (NewFileRegistry ''/d'')
     (m_disk (snd (runConnect demo_cli [''h1'', ''--data-dir=/d''] (demo_box [])))))) (DeriveHostID ''u'' ''h1:22'') =
       Some h \<and> Addr h = ''h1:22''"
proof -
  have p: "flag_parse connect_flags (hoistFlags [''h1'', ''--data-dir=/d'']) = Inr ([(''data-dir'', FStr ''/d'')], [''h1''])"
    by code_simp
  have d: "flag_str ''data-dir'' '''' [(''data-dir'', FStr ''/d'')] = ''/d''"
    "flag_str ''user'' (defaultUser (c_setup demo_cli)) [(''data-dir'', FStr ''/d'')] = ''u''" by code_simp+
  have a: "ensurePort ''h1'' = ''h1:22''" by code_simp
  have cfg: "loadConfig (c_config demo_cli) (files (demo_box []))
      (flag_str ''data-dir'' '''' [(''data-dir'', FStr ''/d'')]) =
    Inr ((Default Config.demo_env)\<lparr>DataDir := ''/d'', HostKeyPath := path_join [''/d'', defaultKeyName]\<rparr>)"
    unfolding d(1) by (rule demo_config)
  have u: "\<forall>p. \<not> fs_unreadable (m_disk (demo_box [])) p" by (simp add: demo_box_def fs_put_def empty_fs_def)
  let ?cfg = "(Default Config.demo_env)\<lparr>DataDir := ''/d'', HostKeyPath := path_join [''/d'', defaultKeyName]\<rparr>"
  have paths: "path_join [''/d'', defaultKeyName] = ''/d/id_dmux''" "path_join [''/d'', ''known_hosts''] = ''/d/known_hosts''"
    by code_simp+
  have "\<exists>fs. EnsureHostKey demo_lib (files (demo_box [])) ?cfg = (Inr ''priv'', fs) \<and>
      fs_files fs ''/d/known_hosts'' = None \<and> (\<forall>p. \<not> fs_unreadable fs p \<and> \<not> fs_readonly fs p)"
    by (simp add: EnsureHostKey_def demo_lib_def demo_box_def fs_read_def fs_mkdir_def fs_write_def empty_fs_def paths)
  then obtain fs where key: "EnsureHostKey (c_keys demo_cli) (files (demo_box [])) ?cfg = (Inr ''priv'', fs)"
    and fs: "fs_files fs ''/d/known_hosts'' = None" "\<And>p. \<not> fs_unreadable fs p \<and> \<not> fs_readonly fs p"
    by (auto simp: demo_cli_def)
  have verified: "fst (remote_Verify (c_ssh demo_cli) (NewDialer ''/d'' t ''priv'') (cli_host ad us '''') fs) = None" for ad us t
    using fs by (simp add: remote_Verify_def dial_def clientConfig_def demo_cli_def peer_env_def cli_host_def hostKeys_def
        tofuHostKey_def readKnownHosts_def fs_read_def known_hosts_def NewDialer_def paths appendKnownHost_def fs_mkdir_def
        fs_write_def)
  have reg: "registry_Load (NewFileRegistry ''/d'') (m_disk (demo_box [])) = (None, NewFileRegistry ''/d'')"
    by (simp add: registry_Load_def demo_box_def fs_read_def fs_put_def empty_fs_def NewFileRegistry_def)
  have add: "fst (registry_Add (NewFileRegistry ''/d'') (cli_host ad us k) (m_disk (demo_box []))) = None" for ad us k
    by (simp add: registry_Add_def NewFileRegistry_def store_hosts_def registry_Save_def saveLocked_def with_id_def
        cli_host_def time_marshals_def fs_mkdir_def fs_write_def fs_rename_def demo_box_def fs_put_def empty_fs_def Let_def)
  obtain r1 fs1 where add1: "registry_Add (NewFileRegistry ''/d'')
      (cli_host ''h1:22'' ''u'' '''') (m_disk (demo_box [])) = (None, r1, fs1)"
    using add by (metis prod.collapse)
  obtain t fsv where ver: "remote_Verify (c_ssh demo_cli) (NewDialer ''/d'' (DialTimeout (Default Config.demo_env)) ''priv'')
      (cli_host ''h1:22'' ''u'' '''') fs = (None, t, fsv)"
    using verified by (metis prod.collapse)
  have k: "flag_str ''key'' '''' [(''data-dir'', FStr ''/d'')] = ''''" by code_simp
  have "fst (runConnect demo_cli [''h1'', ''--data-dir=/d''] (demo_box [])) = None"
    by (simp add: runConnect_def p d a k demo_config key reg Connect_def server_New_def ver add1 Let_def)
  with connect_registers_verified [OF p cfg u surjective_pairing] d(2) a show ?thesis by (auto simp: Let_def)
qed

end
